(* ===== verification/FmsPrelude.thy ===== *)
theory FmsPrelude
  imports Main "HOL-Library.Word" "HOL-Library.Char_ord" "HOL-Library.List_Lexorder"
begin

text \<open>
  What every component of the development shares: the machine integer types of the
  code, the collections of simplification rules the component proofs draw on, and
  generic facts on lists, on first-match searches and on the conversion between a
  container size and the fixed-width integer it is stored in.
\<close>

section \<open>Integer types\<close>

type_synonym u8 = "8 word"
type_synonym u16 = "16 word"
type_synonym u32 = "32 word"

section \<open>Collections of rules\<close>

named_theorems container_simps \<open>laws of the fixed-capacity containers\<close>
named_theorems text_simps \<open>laws of clipped and checked text\<close>
named_theorems frame_simps \<open>fields an operation leaves alone\<close>
named_theorems inv_intros \<open>operations preserve the invariant of their component\<close>

section \<open>Sizes stored in machine integers\<close>

lemma unat_u16_of_nat [simp]: "n < 65536 \<Longrightarrow> unat (word_of_nat n :: u16) = n"
  by (simp add: unat_of_nat)

lemma unat_u8_of_nat [simp]: "n < 256 \<Longrightarrow> unat (word_of_nat n :: u8) = n"
  by (simp add: unat_of_nat)

lemma u16_of_nat_eq_iff:
  "n < 65536 \<Longrightarrow> k < 65536 \<Longrightarrow> (word_of_nat n :: u16) = word_of_nat k \<longleftrightarrow> n = k"
  by (metis unat_u16_of_nat)

lemma u16_of_nat_less_iff:
  "n < 65536 \<Longrightarrow> k < 65536 \<Longrightarrow> (word_of_nat n :: u16) < word_of_nat k \<longleftrightarrow> n < k"
  by (simp add: word_less_nat_alt)

lemma u16_of_nat_unat [simp]: "(word_of_nat (unat w) :: u16) = w"
  by simp

section \<open>Lists\<close>

lemma concat_map_concat: "concat (map f (concat xss)) = concat (map (\<lambda>xs. concat (map f xs)) xss)"
  by (induction xss) simp_all

lemma length_dropWhile_less: "xs \<noteq> [] \<Longrightarrow> P (hd xs) \<Longrightarrow> length (dropWhile P xs) < length xs"
  by (cases xs) (auto simp: length_dropWhile_le less_Suc_eq_le)

lemma takeWhile_nth_all: "(\<And>c. c \<in> set xs \<Longrightarrow> P c) \<Longrightarrow> takeWhile P xs = xs"
  by (simp add: takeWhile_eq_all_conv)

text \<open>A search for the first element with a property, as the code's loops do it.\<close>

fun first_match :: "('a \<Rightarrow> bool) \<Rightarrow> 'a list \<Rightarrow> 'a option" where
  "first_match P [] = None"
| "first_match P (x # xs) = (if P x then Some x else first_match P xs)"

lemma first_match_None_iff: "first_match P xs = None \<longleftrightarrow> (\<forall>x \<in> set xs. \<not> P x)"
  by (induction xs) auto

lemma first_match_SomeD: "first_match P xs = Some x \<Longrightarrow> x \<in> set xs \<and> P x"
  by (induction xs) (auto split: if_splits)

lemma first_match_append:
  "first_match P (xs @ ys) = (case first_match P xs of None \<Rightarrow> first_match P ys | Some x \<Rightarrow> Some x)"
  by (induction xs) auto

lemma first_match_Some_iff:
  "first_match P xs = Some x \<longleftrightarrow>
     (\<exists>ys zs. xs = ys @ x # zs \<and> P x \<and> (\<forall>y \<in> set ys. \<not> P y))"
proof
  show "first_match P xs = Some x \<Longrightarrow>
     \<exists>ys zs. xs = ys @ x # zs \<and> P x \<and> (\<forall>y \<in> set ys. \<not> P y)"
  proof (induction xs)
    case (Cons y xs)
    then show ?case
      by (cases "P y") (fastforce, metis append_Cons first_match.simps(2) set_ConsD)
  qed simp
next
  assume "\<exists>ys zs. xs = ys @ x # zs \<and> P x \<and> (\<forall>y \<in> set ys. \<not> P y)"
  then show "first_match P xs = Some x"
    by (auto simp: first_match_append first_match_None_iff [THEN iffD2])
qed

lemma list_all_take_drop:
  "n + k \<le> length xs \<Longrightarrow> (\<forall>i < k. P (xs ! (n + i))) \<longleftrightarrow> list_all P (take k (drop n xs))"
  by (auto simp: list_all_length)

text \<open>The last \<open>d\<close> elements: what a bounded history keeps.\<close>

definition recent :: "nat \<Rightarrow> 'a list \<Rightarrow> 'a list" where
  "recent d xs = drop (length xs - d) xs"

lemma recent_recent: "recent d (recent d xs @ ys) = recent d (xs @ ys)"
  by (cases "length xs \<le> d") (auto simp: recent_def add.commute)

lemma recent_short: "length xs \<le> d \<Longrightarrow> recent d xs = xs"
  by (simp add: recent_def)

section \<open>Characters\<close>

definition newline :: char where "newline = CHR 0x0A"
definition dquote :: char where "dquote = CHR 0x22"
definition backslash :: char where "backslash = CHR 0x5C"

text \<open>The single quote that messages put around names.\<close>

definition quote :: string where "quote = [CHR 0x27]"

lemmas char_defs = newline_def dquote_def backslash_def

end
