(* ===== verification/EtlContainers.thy ===== *)
theory EtlContainers
  imports FmsPrelude
begin

text \<open>
  The fixed-capacity containers the program is built on. The Embedded Template Library
  is not part of the repository; a container is represented by the value it holds, which
  is all the code observes of it: a vector by the list of its elements, a flat map by the
  list of its entries in iteration order, that is by ascending key (``a sorted vector
  plus a pool'', docs/architecture.md). What the code relies on is stated as the locale
  \<open>keyed_store\<close>; \<open>store\<close> interprets it on the representation. Running over
  a capacity is a programming error that aborts the process; the model writes the
  capacity test where the source has it.
\<close>

section \<open>Flat maps\<close>

type_synonym ('k, 'v) flat_map = "('k \<times> 'v) list"

definition fm_find :: "('k, 'v) flat_map \<Rightarrow> 'k \<Rightarrow> 'v option" where
  "fm_find m k = map_of m k"

definition fm_full :: "nat \<Rightarrow> ('k, 'v) flat_map \<Rightarrow> bool" where
  "fm_full cap m \<longleftrightarrow> cap \<le> length m"

text \<open>An insertion keeps the entries sorted and does not replace an entry that is there.\<close>

fun fm_insert :: "'k::linorder \<Rightarrow> 'v \<Rightarrow> ('k, 'v) flat_map \<Rightarrow> ('k, 'v) flat_map" where
  "fm_insert k v [] = [(k, v)]"
| "fm_insert k v ((a, b) # m) =
     (if k < a then (k, v) # (a, b) # m
      else if k = a then (a, b) # m
      else (a, b) # fm_insert k v m)"

text \<open>A write through the iterator that \<open>find\<close> returned.\<close>

fun fm_modify :: "'k \<Rightarrow> ('v \<Rightarrow> 'v) \<Rightarrow> ('k, 'v) flat_map \<Rightarrow> ('k, 'v) flat_map" where
  "fm_modify k f [] = []"
| "fm_modify k f ((a, b) # m) = (if a = k then (a, f b) # m else (a, b) # fm_modify k f m)"

definition fm_ok :: "('k::linorder, 'v) flat_map \<Rightarrow> bool" where
  "fm_ok m \<longleftrightarrow> sorted_wrt (<) (map fst m)"

lemma fm_ok_Nil [simp]: "fm_ok []"
  by (simp add: fm_ok_def)

lemma fm_ok_distinct: "fm_ok m \<Longrightarrow> distinct (map fst m)"
  by (simp add: fm_ok_def strict_sorted_iff)

lemma keys_fm_insert: "fst ` set (fm_insert k v m) = insert k (fst ` set m)"
  by (induction k v m rule: fm_insert.induct) auto

lemma fm_ok_insert: "fm_ok m \<Longrightarrow> fm_ok (fm_insert k v m)"
proof (induction k v m rule: fm_insert.induct)
  case (2 k v a b m)
  then show ?case
    by (auto simp: fm_ok_def keys_fm_insert simp flip: set_map
          dest: order.strict_trans)
       (use keys_fm_insert [of k v m] in auto)
qed (simp add: fm_ok_def)

lemma keys_fm_modify [simp]: "map fst (fm_modify k f m) = map fst m"
  by (induction k f m rule: fm_modify.induct) auto

lemma fm_ok_modify: "fm_ok m \<Longrightarrow> fm_ok (fm_modify k f m)"
  by (simp add: fm_ok_def)

lemma fm_find_insert_new:
  "fm_find m k = None \<Longrightarrow> fm_find (fm_insert k v m) = (fm_find m)(k \<mapsto> v)"
  by (induction k v m rule: fm_insert.induct) (auto simp: fm_find_def fun_eq_iff split: if_splits)

lemma fm_insert_present: "fm_ok m \<Longrightarrow> fm_find m k = Some w \<Longrightarrow> fm_insert k v m = m"
  by (induction k v m rule: fm_insert.induct)
     (auto simp: fm_find_def fm_ok_def split: if_splits dest!: map_of_SomeD
       dest: order.asym intro: rev_image_eqI)

lemma fm_find_modify:
  "fm_find (fm_modify k f m) = (\<lambda>x. if x = k then map_option f (fm_find m x) else fm_find m x)"
  by (induction k f m rule: fm_modify.induct) (auto simp: fm_find_def fun_eq_iff)

lemma length_fm_insert_new: "fm_find m k = None \<Longrightarrow> length (fm_insert k v m) = Suc (length m)"
  by (induction k v m rule: fm_insert.induct) (auto simp: fm_find_def split: if_splits)

lemma length_fm_modify: "length (fm_modify k f m) = length m"
  by (induction k f m rule: fm_modify.induct) auto

lemma fm_insert_last: "(\<And>a. a \<in> fst ` set m \<Longrightarrow> a < k) \<Longrightarrow> fm_insert k v m = m @ [(k, v)]"
  by (induction k v m rule: fm_insert.induct) (auto dest: order.asym)

section \<open>What a client of a flat map relies on\<close>

locale keyed_store =
  fixes emp :: 'm
    and look :: "'m \<Rightarrow> 'k \<Rightarrow> 'v option"
    and ins :: "'k \<Rightarrow> 'v \<Rightarrow> 'm \<Rightarrow> 'm"
    and upd :: "'k \<Rightarrow> ('v \<Rightarrow> 'v) \<Rightarrow> 'm \<Rightarrow> 'm"
    and used :: "'m \<Rightarrow> nat"
    and good :: "'m \<Rightarrow> bool"
  assumes good_emp: "good emp"
    and good_ins: "good m \<Longrightarrow> good (ins k v m)"
    and good_upd: "good m \<Longrightarrow> good (upd k f m)"
    and look_emp: "look emp k = None"
    and look_ins: "look m k = None \<Longrightarrow> look (ins k v m) = (look m)(k \<mapsto> v)"
    and ins_present: "good m \<Longrightarrow> look m k = Some w \<Longrightarrow> ins k v m = m"
    and look_upd: "look (upd k f m) = (\<lambda>x. if x = k then map_option f (look m x) else look m x)"
    and used_emp: "used emp = 0"
    and used_ins: "look m k = None \<Longrightarrow> used (ins k v m) = Suc (used m)"
    and used_upd: "used (upd k f m) = used m"
begin

lemma look_ins_same: "look m k = None \<Longrightarrow> look (ins k v m) k = Some v"
  by (simp add: look_ins)

lemma look_ins_other: "look m k = None \<Longrightarrow> x \<noteq> k \<Longrightarrow> look (ins k v m) x = look m x"
  by (simp add: look_ins)

lemma dom_ins: "look m k = None \<Longrightarrow> dom (look (ins k v m)) = insert k (dom (look m))"
  by (simp add: look_ins)

lemma dom_upd: "dom (look (upd k f m)) = dom (look m)"
  by (auto simp: look_upd dom_def split: if_splits)

lemma ins_total: "good m \<Longrightarrow> \<exists>w. look (ins k v m) k = Some w"
  by (cases "look m k") (auto simp: look_ins ins_present)

lemma used_within: "used m < cap \<Longrightarrow> look m k = None \<Longrightarrow> used (ins k v m) \<le> cap"
  by (simp add: used_ins)

text \<open>A key that was found stays found, whatever is inserted next.\<close>

lemma look_ins_keeps: "good m \<Longrightarrow> look m x = Some w \<Longrightarrow> look (ins k v m) x = Some w"
proof (cases "look m k")
  case None
  then show "look m x = Some w \<Longrightarrow> look (ins k v m) x = Some w"
    by (cases "x = k") (simp_all add: look_ins)
next
  case (Some u)
  then show "good m \<Longrightarrow> look m x = Some w \<Longrightarrow> look (ins k v m) x = Some w"
    by (simp add: ins_present)
qed

end

interpretation store: keyed_store "[]" fm_find fm_insert fm_modify length fm_ok
proof unfold_locales
  show "fm_find [] k = None" for k :: 'a
    by (simp add: fm_find_def)
qed (simp_all add: fm_ok_insert fm_ok_modify fm_find_insert_new fm_insert_present
      fm_find_modify length_fm_insert_new length_fm_modify)

lemmas fm_laws [container_simps] =
  store.look_emp store.look_ins store.look_upd store.used_ins store.used_upd
  store.good_emp store.good_ins store.good_upd

lemma fm_find_in_set: "fm_find m k = Some v \<Longrightarrow> (k, v) \<in> set m"
  by (simp add: fm_find_def map_of_SomeD)

lemma fm_find_iff: "fm_ok m \<Longrightarrow> fm_find m k = Some v \<longleftrightarrow> (k, v) \<in> set m"
  using fm_ok_distinct by (fastforce simp: fm_find_def)

lemma fm_find_None_iff: "fm_find m k = None \<longleftrightarrow> k \<notin> fst ` set m"
  by (simp add: fm_find_def map_of_eq_None_iff)

lemma fm_find_dom: "dom (fm_find m) = fst ` set m"
  by (simp add: fm_find_def dom_map_of_conv_image_fst [symmetric] fun_eq_iff dom_def)

section \<open>Maps keyed by dense identifiers\<close>

text \<open>
  An identifier is the size of its map at the moment of the declaration, so the keys are
  0, 1, 2 and so on and the map is in effect an array.
\<close>

definition dense :: "(u16, 'v) flat_map \<Rightarrow> bool" where
  "dense m \<longleftrightarrow> length m \<le> 65535 \<and> map fst m = map word_of_nat [0..<length m]"

lemma dense_Nil [simp]: "dense []"
  by (simp add: dense_def)

lemma dense_keys: "dense m \<Longrightarrow> fst ` set m = {i. unat i < length m}"
proof -
  assume d: "dense m"
  have "fst ` set m = set (map fst m)"
    by simp
  also have "\<dots> = word_of_nat ` {0..<length m}"
    using d by (simp only: dense_def set_map set_upt)
  also have "\<dots> = {i. unat i < length m}"
    using d by (auto simp: dense_def intro!: image_eqI [of i _ "unat i" for i :: u16])
  finally show ?thesis .
qed

lemma dense_fm_ok: "dense m \<Longrightarrow> fm_ok m"
  by (auto simp: dense_def fm_ok_def sorted_wrt_map u16_of_nat_less_iff
      intro!: sorted_wrt_mono_rel [OF _ sorted_wrt_upt])

lemma dense_find_None: "dense m \<Longrightarrow> fm_find m i = None \<longleftrightarrow> length m \<le> unat i"
  by (simp add: fm_find_None_iff dense_keys not_less)

lemma dense_insert:
  assumes "dense m" and "length m < 65535"
  shows "fm_insert (word_of_nat (length m)) v m = m @ [(word_of_nat (length m), v)]"
    and "dense (fm_insert (word_of_nat (length m)) v m)"
proof -
  show *: "fm_insert (word_of_nat (length m)) v m = m @ [(word_of_nat (length m), v)]"
    using assms by (intro fm_insert_last) (simp add: dense_keys word_less_nat_alt)
  show "dense (fm_insert (word_of_nat (length m)) v m)"
    unfolding * using assms by (simp add: dense_def)
qed

lemma dense_modify: "dense m \<Longrightarrow> dense (fm_modify k f m)"
  by (simp add: dense_def length_fm_modify)

section \<open>A table of named entries and its name index\<close>

definition indexes :: "('d \<Rightarrow> 'n::linorder) \<Rightarrow> (u16, 'd) flat_map \<Rightarrow> ('n, u16) flat_map \<Rightarrow> bool" where
  "indexes name_of defs index \<longleftrightarrow> fm_ok index \<and> length index = length defs \<and>
     (\<forall>n i. fm_find index n = Some i \<longleftrightarrow> (\<exists>d. fm_find defs i = Some d \<and> name_of d = n))"

lemma indexes_Nil [simp]: "indexes name_of [] []"
  by (simp add: indexes_def container_simps)

lemma indexes_insert:
  assumes ix: "indexes name_of defs index" and new: "fm_find index (name_of d) = None"
    and fresh: "fm_find defs i = None"
  shows "indexes name_of (fm_insert i d defs) (fm_insert (name_of d) i index)"
proof -
  have *: "fm_find index n = Some j \<longleftrightarrow> (\<exists>e. fm_find defs j = Some e \<and> name_of e = n)" for n j
    using ix by (simp add: indexes_def)
  then have "fm_find defs j = Some e \<Longrightarrow> name_of e \<noteq> name_of d" for j e
    using new by (metis option.distinct(1))
  with * ix new fresh show ?thesis
    by (auto simp: indexes_def container_simps)
qed

lemma indexes_modify:
  assumes "indexes name_of defs index" and "\<And>d. name_of (f d) = name_of d"
  shows "indexes name_of (fm_modify k f defs) index"
  using assms by (auto simp: indexes_def container_simps split: if_splits)

lemma indexes_find:
  "indexes name_of defs index \<Longrightarrow> fm_find index n = Some i \<Longrightarrow> \<exists>d. fm_find defs i = Some d \<and> name_of d = n"
  by (simp add: indexes_def)

lemma indexes_name:
  "indexes name_of defs index \<Longrightarrow> fm_find defs i = Some d \<Longrightarrow> fm_find index (name_of d) = Some i"
  by (auto simp: indexes_def)

end
