(* ===== verification/FmsTypes.thy ===== *)
theory FmsTypes
  imports EtlContainers
begin

text \<open>
  include/fms/limits.hpp, include/fms/types.hpp and the status codes of
  include/fms/status.hpp and src/status.cpp: the compile-time capacities (with their
  default values), the identifier types with their reserved values, checked assignment to
  a fixed-capacity string, clipped appending, and the texts of the status codes.
  A \<open>StringView\<close> is the text it shows; a C string is that text up to its first NUL.
  A \<open>char\<close> is a byte.
\<close>

section \<open>Capacities (limits.hpp)\<close>

definition kMaxStates :: nat where "kMaxStates = 32"
definition kMaxTriggers :: nat where "kMaxTriggers = 32"
definition kMaxTransitionsPerState :: nat where "kMaxTransitionsPerState = 8"
definition kMaxNameLength :: nat where "kMaxNameLength = 31"
definition kMaxChannelLength :: nat where "kMaxChannelLength = 95"
definition kMaxMessageLength :: nat where "kMaxMessageLength = 127"
definition kMaxArguments :: nat where "kMaxArguments = 4"
definition kMaxAlternatives :: nat where "kMaxAlternatives = 4"
definition kMaxConditionsPerGuard :: nat where "kMaxConditionsPerGuard = 3"
definition kMaxConditions :: nat where "kMaxConditions = 64"
definition kMaxFindings :: nat where "kMaxFindings = 32"

lemmas capacity_defs =
  kMaxStates_def kMaxTriggers_def kMaxTransitionsPerState_def kMaxNameLength_def
  kMaxChannelLength_def kMaxMessageLength_def kMaxArguments_def kMaxAlternatives_def
  kMaxConditionsPerGuard_def kMaxConditions_def kMaxFindings_def

section \<open>Identifiers and text (types.hpp)\<close>

type_synonym state_id = u16
type_synonym trigger_id = u16

definition kNoState :: state_id where "kNoState = 0xFFFF"
definition kNoTrigger :: trigger_id where "kNoTrigger = 0xFFFF"

text \<open>What \<open>std::strlen\<close> makes of a text handed over as a C string.\<close>

definition cstr :: "string \<Rightarrow> string" where
  "cstr text = takeWhile (\<lambda>c. c \<noteq> CHR 0x00) text"

text \<open>
  \<open>assign_checked(destination, source)\<close>: the returned flag and the destination
  afterwards, for a destination of capacity \<open>cap\<close>.
\<close>

definition assign_checked :: "nat \<Rightarrow> string \<Rightarrow> string \<Rightarrow> bool \<times> string" where
  "assign_checked cap destination source =
     (if cap < length source then (False, destination)
      else if source = [] then (True, [])
      else (True, source))"

definition append_clipped :: "nat \<Rightarrow> string \<Rightarrow> string \<Rightarrow> string" where
  "append_clipped cap destination source =
     (let room = cap - length destination;
          take_n = (if length source < room then length source else room)
      in if take_n = 0 then destination else destination @ take take_n source)"

lemma assign_checked_eq [text_simps]:
  "assign_checked cap destination source =
     (if length source \<le> cap then (True, source) else (False, destination))"
  by (auto simp: assign_checked_def)

lemma append_clipped_eq:
  "append_clipped cap destination source = destination @ take (cap - length destination) source"
  by (auto simp: append_clipped_def Let_def)

lemma append_clipped_take [text_simps]:
  "append_clipped cap (take cap t) source = take cap (t @ source)"
  by (cases "length t \<le> cap") (simp_all add: append_clipped_eq)

lemma append_clipped_Nil [text_simps]: "append_clipped cap [] source = take cap source"
  by (simp add: append_clipped_eq)

lemma append_clipped_le: "length destination \<le> cap \<Longrightarrow> length (append_clipped cap destination source) \<le> cap"
  by (simp add: append_clipped_eq)

text \<open>A message built from pieces is the concatenation of the pieces, cut at the capacity.\<close>

lemma foldl_append_clipped:
  "foldl (append_clipped cap) (take cap t) pieces = take cap (t @ concat pieces)"
proof (induction pieces arbitrary: t)
  case (Cons p pieces)
  then show ?case
    by (simp only: foldl_Cons append_clipped_take concat.simps append_assoc)
qed simp

lemma cstr_no_nul [simp]: "CHR 0x00 \<notin> set text \<Longrightarrow> cstr text = text"
  unfolding cstr_def by (rule takeWhile_nth_all) auto

lemma length_cstr_le: "length (cstr text) \<le> length text"
  by (simp add: cstr_def length_takeWhile_le)

section \<open>Status codes (status.hpp, status.cpp)\<close>

datatype status =
    Ok
  | FileNotFound | FileNotReadable | ParseError | SchemaError | DuplicateName
  | UnknownState | UnknownTrigger | NameTooLong | ChannelTooLong | CapacityExceeded
  | NotInitialised | AlreadyInitialised | InvalidArgument | NoTransition | GuardRejected
  | ArgumentError
  | PortError | NotOpen | Timeout | EndOfInput

definition is_ok :: "status \<Rightarrow> bool" where
  "is_ok status \<longleftrightarrow> status = Ok"

fun status_to_string :: "status \<Rightarrow> string" where
  "status_to_string Ok = ''ok''"
| "status_to_string FileNotFound = ''config file not found''"
| "status_to_string FileNotReadable = ''config file cannot be read''"
| "status_to_string ParseError = ''YAML parse error''"
| "status_to_string SchemaError = ''config does not match the schema''"
| "status_to_string DuplicateName = ''duplicate name''"
| "status_to_string UnknownState = ''unknown state''"
| "status_to_string UnknownTrigger = ''unknown trigger''"
| "status_to_string NameTooLong = ''name exceeds FMS_MAX_NAME_LENGTH''"
| "status_to_string ChannelTooLong = ''channel exceeds FMS_MAX_CHANNEL_LENGTH''"
| "status_to_string CapacityExceeded = ''a compile-time capacity was exceeded''"
| "status_to_string NotInitialised = ''not initialised''"
| "status_to_string AlreadyInitialised = ''already initialised''"
| "status_to_string InvalidArgument = ''invalid argument''"
| "status_to_string NoTransition = ''trigger not accepted in this state''"
| "status_to_string GuardRejected = ''no guard held for this trigger''"
| "status_to_string ArgumentError = ''malformed trigger arguments''"
| "status_to_string PortError = ''port error''"
| "status_to_string NotOpen = ''port is not open''"
| "status_to_string Timeout = ''timeout''"
| "status_to_string EndOfInput = ''end of input''"

lemma is_ok_iff [simp]: "is_ok s \<longleftrightarrow> s = Ok"
  by (simp add: is_ok_def)

text \<open>A loop that returns at the first element that is not fine.\<close>

fun first_error :: "('a \<Rightarrow> status) \<Rightarrow> 'a list \<Rightarrow> status" where
  "first_error check [] = Ok"
| "first_error check (x # xs) = (if is_ok (check x) then first_error check xs else check x)"

lemma first_error_Ok_iff: "first_error check xs = Ok \<longleftrightarrow> (\<forall>x \<in> set xs. check x = Ok)"
  by (induction xs) auto

end
