(* ===== verification/ArgsParser.thy ===== *)
theory ArgsParser
  imports FmsTypes
begin

text \<open>
  include/fms/args.hpp and src/args.cpp: the decimal reader \<open>parse_int\<close> and the
  arguments of a trigger, \<open>Args\<close>, with its parser and typed accessors. The index
  loops of the source are recursions on the text that is left. A value is a view into the
  port's buffer; the model holds the text it shows.
\<close>

section \<open>Reading a decimal integer\<close>

definition is_space :: "char \<Rightarrow> bool" where
  "is_space c \<longleftrightarrow> c = CHR '' '' \<or> c = CHR 0x09 \<or> c = CHR 0x0D \<or> c = CHR 0x0A"

definition char_code :: "char \<Rightarrow> int" where
  "char_code c = of_char c"

definition is_digit :: "char \<Rightarrow> bool" where
  "is_digit c \<longleftrightarrow> char_code (CHR ''0'') \<le> char_code c \<and> char_code c \<le> char_code (CHR ''9'')"

text \<open>The accumulation loop; \<open>value\<close> is the 64-bit accumulator.\<close>

fun parse_digits :: "string \<Rightarrow> int \<Rightarrow> int option" where
  "parse_digits [] value = Some value"
| "parse_digits (c # cs) value =
     (if \<not> is_digit c then None
      else let value' = value * 10 + (char_code c - char_code (CHR ''0''))
           in if value' > 2147483648 then None else parse_digits cs value')"

definition parse_int :: "string \<Rightarrow> int option" where
  "parse_int text =
     (if text = [] then None
      else
        let signed = (hd text = CHR ''+'' \<or> hd text = CHR ''-'');
            negative = (signed \<and> hd text = CHR ''-'');
            i = (if signed then 1 else 0)
        in if signed \<and> length text = 1 then None
           else case parse_digits (drop i text) 0 of
                  None \<Rightarrow> None
                | Some value \<Rightarrow>
                    let value' = (if negative then - value else value)
                    in if value' > 2147483647 \<or> value' < - 2147483648 then None
                       else Some value')"

section \<open>The arguments of a trigger\<close>

record args =
  args_map :: "(string, string) flat_map"
  args_raw :: string

definition args_clear :: args where
  "args_clear = \<lparr>args_map = [], args_raw = []\<rparr>"

text \<open>\<open>Args::none()\<close>: the shared instance with nothing in it.\<close>

definition args_none :: args where
  "args_none = \<lparr>args_map = [], args_raw = []\<rparr>"

text \<open>\<open>StringView::find\<close>: the position of the first occurrence, \<open>None\<close> for \<open>npos\<close>.\<close>

fun view_find :: "char \<Rightarrow> string \<Rightarrow> nat option" where
  "view_find c [] = None"
| "view_find c (x # xs) = (if x = c then Some 0 else map_option Suc (view_find c xs))"

function parse_loop :: "string \<Rightarrow> args \<Rightarrow> status \<times> args" where
  "parse_loop text a =
     (let rest = dropWhile is_space text
      in if rest = [] then (Ok, a)
         else
           let token = takeWhile (\<lambda>c. \<not> is_space c) rest;
               rest' = dropWhile (\<lambda>c. \<not> is_space c) rest
           in case view_find (CHR ''='') token of
                None \<Rightarrow> (ArgumentError, args_clear)
              | Some equals \<Rightarrow>
                  if equals = 0 then (ArgumentError, args_clear)
                  else
                    let key = take equals token;
                        val = drop (equals + 1) token;
                        (fits, stored_key) = assign_checked kMaxNameLength [] key
                    in if \<not> fits then (NameTooLong, args_clear)
                       else if fm_find (args_map a) stored_key \<noteq> None
                         then (DuplicateName, args_clear)
                       else if fm_full kMaxArguments (args_map a)
                         then (CapacityExceeded, args_clear)
                       else parse_loop rest' (a\<lparr>args_map := fm_insert stored_key val (args_map a)\<rparr>))"
  by pat_completeness auto
termination
proof (relation "measure (\<lambda>(text, a). length text)", goal_cases)
  case (2 t a rest token rest' equals key val x fits stored_key)
  from 2 have ne: "dropWhile is_space t \<noteq> []"
    by simp
  then have "\<not> is_space (hd rest)"
    unfolding 2(1) by (rule hd_dropWhile)
  with ne have "length rest' < length rest"
    using 2 by (simp add: length_dropWhile_less)
  also have "length rest \<le> length t"
    using 2 by (simp add: length_dropWhile_le)
  finally show ?case
    by simp
qed simp

declare parse_loop.simps [simp del]

definition args_parse :: "string \<Rightarrow> status \<times> args" where
  "args_parse text = parse_loop text (args_clear\<lparr>args_raw := text\<rparr>)"

definition args_size :: "args \<Rightarrow> nat" where
  "args_size a = length (args_map a)"

definition args_empty :: "args \<Rightarrow> bool" where
  "args_empty a \<longleftrightarrow> args_map a = []"

definition args_has :: "args \<Rightarrow> string \<Rightarrow> bool" where
  "args_has a name =
     (let (fits, key) = assign_checked kMaxNameLength [] name
      in if \<not> fits then False else fm_find (args_map a) key \<noteq> None)"

definition args_text :: "args \<Rightarrow> string \<Rightarrow> string" where
  "args_text a name =
     (let (fits, key) = assign_checked kMaxNameLength [] name
      in if \<not> fits then []
         else case fm_find (args_map a) key of None \<Rightarrow> [] | Some v \<Rightarrow> v)"

definition args_as_int :: "args \<Rightarrow> string \<Rightarrow> int option" where
  "args_as_int a name = parse_int (args_text a name)"

fun equals_ignore_case :: "string \<Rightarrow> string \<Rightarrow> bool" where
  "equals_ignore_case text [] = (text = [])"
| "equals_ignore_case [] (l # ls) = False"
| "equals_ignore_case (c # cs) (l # ls) =
     (let c' = (if char_code (CHR ''A'') \<le> char_code c \<and> char_code c \<le> char_code (CHR ''Z'')
                then char_of (char_code c - char_code (CHR ''A'') + char_code (CHR ''a'')) else c)
      in if c' \<noteq> l then False else equals_ignore_case cs ls)"

definition args_as_bool :: "args \<Rightarrow> string \<Rightarrow> bool option" where
  "args_as_bool a name =
     (let v = args_text a name
      in if v = [] then None
         else if equals_ignore_case v ''true'' \<or> equals_ignore_case v ''on'' \<or>
                 equals_ignore_case v ''yes'' \<or> equals_ignore_case v ''1'' then Some True
         else if equals_ignore_case v ''false'' \<or> equals_ignore_case v ''off'' \<or>
                 equals_ignore_case v ''no'' \<or> equals_ignore_case v ''0'' then Some False
         else None)"

section \<open>The decimal reader, exactly\<close>

definition decimal :: "string \<Rightarrow> int" where
  "decimal ds = foldl (\<lambda>value c. value * 10 + (char_code c - char_code (CHR ''0''))) 0 ds"

lemma is_digit_bounds: "is_digit c \<Longrightarrow> 0 \<le> char_code c - char_code (CHR ''0'') \<and> char_code c - char_code (CHR ''0'') \<le> 9"
  by (simp add: is_digit_def char_code_def)

lemma not_digit_sign [simp]: "\<not> is_digit (CHR ''-'')" "\<not> is_digit (CHR ''+'')"
  by (simp_all add: is_digit_def char_code_def)

lemma decimal_snoc: "decimal (ds @ [c]) = decimal ds * 10 + (char_code c - char_code (CHR ''0''))"
  by (simp add: decimal_def)

lemma decimal_Nil [simp]: "decimal [] = 0"
  by (simp add: decimal_def)

lemma decimal_append: "decimal (xs @ ys) = decimal xs * 10 ^ length ys + decimal ys"
proof (induction ys rule: rev_induct)
  case (snoc y ys)
  then show ?case
    by (simp add: decimal_snoc algebra_simps flip: append_assoc)
qed simp

lemma decimal_Cons: "decimal (c # ds) = (char_code c - char_code (CHR ''0'')) * 10 ^ length ds + decimal ds"
  using decimal_append [of "[c]" ds] by (simp add: decimal_def)

lemma decimal_nonneg: "list_all is_digit ds \<Longrightarrow> 0 \<le> decimal ds"
proof (induction ds rule: rev_induct)
  case (snoc d ds)
  then show ?case
    using is_digit_bounds [of d] by (simp add: decimal_snoc)
qed simp

lemma parse_digits_iff:
  assumes "0 \<le> v" and "v \<le> 2147483648"
  shows "parse_digits ds v = Some w \<longleftrightarrow>
    list_all is_digit ds \<and> w = v * 10 ^ length ds + decimal ds \<and> w \<le> 2147483648"
  using assms
proof (induction ds arbitrary: v)
  case Nil
  then show ?case
    by auto
next
  case (Cons c ds)
  show ?case
  proof (cases "is_digit c")
    case False
    then show ?thesis
      by simp
  next
    case True
    define v' where "v' = v * 10 + (char_code c - char_code (CHR ''0''))"
    have v'0: "0 \<le> v'"
      using True Cons.prems is_digit_bounds [of c] by (simp add: v'_def)
    have eq: "v * 10 ^ length (c # ds) + decimal (c # ds) = v' * 10 ^ length ds + decimal ds"
      by (simp add: v'_def decimal_Cons algebra_simps)
    show ?thesis
    proof (cases "v' > 2147483648")
      case big: True
      have "v' \<le> v' * 10 ^ length ds"
        using v'0 by (simp add: mult_le_cancel_left1)
      then have "list_all is_digit ds \<Longrightarrow> 2147483648 < v' * 10 ^ length ds + decimal ds"
        using big decimal_nonneg [of ds] by linarith
      then show ?thesis
        using True big eq unfolding v'_def [symmetric] by (auto simp: v'_def [symmetric])
    next
      case False
      with Cons.IH [of v'] v'0 True eq show ?thesis
        by (simp add: v'_def [symmetric])
    qed
  qed
qed

definition int_text :: "string \<Rightarrow> int \<Rightarrow> bool" where
  "int_text t n \<longleftrightarrow> (\<exists>ds. ds \<noteq> [] \<and> list_all is_digit ds \<and>
     (t = ds \<and> n = decimal ds \<or> t = CHR ''+'' # ds \<and> n = decimal ds \<or> t = CHR ''-'' # ds \<and> n = - decimal ds))"

lemma parse_digits_0:
  "parse_digits ds 0 =
     (if list_all is_digit ds \<and> decimal ds \<le> 2147483648 then Some (decimal ds) else None)"
  using parse_digits_iff [of 0 ds] by (cases "parse_digits ds 0") auto

lemma parse_int_plain:
  assumes "is_digit c"
  shows "parse_int (c # cs) = Some n \<longleftrightarrow>
    list_all is_digit cs \<and> n = decimal (c # cs) \<and> n \<le> 2147483647"
proof -
  from assms have "c \<noteq> CHR ''+''" and "c \<noteq> CHR ''-''"
    by auto
  moreover have "list_all is_digit cs \<Longrightarrow> 0 \<le> decimal (c # cs)"
    using assms by (intro decimal_nonneg) simp
  ultimately show ?thesis
    using assms by (auto simp: parse_int_def Let_def parse_digits_0 simp del: parse_digits.simps)
qed

lemma parse_int_signed:
  assumes "c = CHR ''+'' \<or> c = CHR ''-''"
  shows "parse_int (c # cs) = Some n \<longleftrightarrow>
    cs \<noteq> [] \<and> list_all is_digit cs \<and> n = (if c = CHR ''-'' then - decimal cs else decimal cs)
    \<and> - 2147483648 \<le> n \<and> n \<le> 2147483647"
  using assms decimal_nonneg [of cs]
  by (auto simp: parse_int_def Let_def parse_digits_0 simp del: parse_digits.simps)

lemma parse_int_other:
  "\<not> is_digit c \<Longrightarrow> c \<noteq> CHR ''+'' \<Longrightarrow> c \<noteq> CHR ''-'' \<Longrightarrow> parse_int (c # cs) = None"
  by (simp add: parse_int_def)

lemma parse_int_iff:
  "parse_int t = Some n \<longleftrightarrow> int_text t n \<and> - 2147483648 \<le> n \<and> n \<le> 2147483647"
proof (cases t)
  case Nil
  then show ?thesis
    by (auto simp: parse_int_def int_text_def)
next
  case (Cons c cs)
  consider (digit) "is_digit c" | (sign) "c = CHR ''+'' \<or> c = CHR ''-''"
    | (other) "\<not> is_digit c" "c \<noteq> CHR ''+''" "c \<noteq> CHR ''-''"
    by blast
  then show ?thesis
  proof cases
    case digit
    then have "int_text t n \<longleftrightarrow> list_all is_digit cs \<and> n = decimal (c # cs)"
      by (auto simp: int_text_def Cons)
    with digit decimal_nonneg [of "c # cs"] show ?thesis
      by (auto simp: Cons parse_int_plain)
  next
    case sign
    then have "int_text t n \<longleftrightarrow> cs \<noteq> [] \<and> list_all is_digit cs \<and> n = (if c = CHR ''-'' then - decimal cs else decimal cs)"
      by (auto simp: int_text_def Cons)
    with sign show ?thesis
      by (simp add: Cons parse_int_signed)
  next
    case other
    then have "\<not> int_text t n"
      by (auto simp: int_text_def Cons)
    with other show ?thesis
      by (simp add: Cons parse_int_other)
  qed
qed

lemma parse_int_range: "parse_int t = Some n \<Longrightarrow> - 2147483648 \<le> n \<and> n \<le> 2147483647"
  by (simp add: parse_int_iff)

lemma parse_int_Nil [simp]: "parse_int [] = None"
  by (simp add: parse_int_def)

text \<open>The loop on the 64-bit accumulator of the source, with wrap-around.\<close>

fun parse_digits_i64 :: "string \<Rightarrow> 64 word \<Rightarrow> 64 word option" where
  "parse_digits_i64 [] value = Some value"
| "parse_digits_i64 (c # cs) value =
     (if \<not> is_digit c then None
      else let value' = value * 10 + word_of_int (char_code c - char_code (CHR ''0''))
           in if sint value' > 2147483648 then None else parse_digits_i64 cs value')"

lemma sint_small: "0 \<le> k \<Longrightarrow> k < 2 ^ 63 \<Longrightarrow> sint (word_of_int k :: 64 word) = k"
  by (simp add: signed_of_int signed_take_bit_int_eq_self)

lemma parse_digits_i64_eq:
  "0 \<le> k \<Longrightarrow> k \<le> 2147483648 \<Longrightarrow>
   map_option sint (parse_digits_i64 ds (word_of_int k)) = parse_digits ds k"
proof (induction ds arbitrary: k)
  case Nil
  then show ?case
    by (simp add: sint_small)
next
  case (Cons c ds)
  show ?case
  proof (cases "is_digit c")
    case True
    define k' where "k' = k * 10 + (char_code c - char_code (CHR ''0''))"
    have k': "0 \<le> k'" "k' < 2 ^ 63"
      using Cons.prems is_digit_bounds [OF True] by (simp_all add: k'_def)
    have "word_of_int k * 10 + word_of_int (char_code c - char_code (CHR ''0'')) = (word_of_int k' :: 64 word)"
      by (simp add: k'_def)
    with True k' Cons.IH [of k'] show ?thesis
      by (simp add: sint_small k'_def [symmetric] Let_def del: of_int_add of_int_diff)
  qed simp
qed

section \<open>The arguments, by their tokens\<close>

function words_of :: "string \<Rightarrow> string list" where
  "words_of t =
     (let rest = dropWhile is_space t
      in if rest = [] then []
         else takeWhile (\<lambda>c. \<not> is_space c) rest # words_of (dropWhile (\<lambda>c. \<not> is_space c) rest))"
  by pat_completeness auto
termination
proof (relation "measure length", goal_cases)
  case (2 t rest)
  then have ne: "dropWhile is_space t \<noteq> []"
    by simp
  then have "\<not> is_space (hd rest)"
    unfolding 2(1) by (rule hd_dropWhile)
  with ne have "length (dropWhile (\<lambda>c. \<not> is_space c) rest) < length rest"
    using 2 by (simp add: length_dropWhile_less)
  also have "length rest \<le> length t"
    using 2 by (simp add: length_dropWhile_le)
  finally show ?case
    by simp
qed simp

declare words_of.simps [simp del]

definition key_of :: "string \<Rightarrow> string" where
  "key_of token = takeWhile (\<lambda>c. c \<noteq> CHR ''='') token"

definition value_of :: "string \<Rightarrow> string" where
  "value_of token = drop 1 (dropWhile (\<lambda>c. c \<noteq> CHR ''='') token)"

text \<open>What each token does to the map, the checks in the order the code makes them.\<close>

fun check_tokens :: "string list \<Rightarrow> (string, string) flat_map \<Rightarrow> status + (string, string) flat_map" where
  "check_tokens [] m = Inr m"
| "check_tokens (tok # toks) m =
     (if CHR ''='' \<notin> set tok \<or> key_of tok = [] then Inl ArgumentError
      else if kMaxNameLength < length (key_of tok) then Inl NameTooLong
      else if fm_find m (key_of tok) \<noteq> None then Inl DuplicateName
      else if fm_full kMaxArguments m then Inl CapacityExceeded
      else check_tokens toks (fm_insert (key_of tok) (value_of tok) m))"

lemma view_find_eq:
  "view_find c s = (if c \<in> set s then Some (length (takeWhile (\<lambda>x. x \<noteq> c) s)) else None)"
  by (induction s) auto

lemma take_key_of: "take (length (key_of tok)) tok = key_of tok"
  by (simp add: key_of_def takeWhile_eq_take [symmetric])

lemma drop_value_of: "drop (length (key_of tok) + 1) tok = value_of tok"
  by (simp add: key_of_def value_of_def dropWhile_eq_drop)

lemma parse_loop_unfold:
  assumes "rest = dropWhile is_space t" and "rest \<noteq> []"
    and "tok = takeWhile (\<lambda>c. \<not> is_space c) rest"
    and "rest' = dropWhile (\<lambda>c. \<not> is_space c) rest"
  shows "parse_loop t a =
    (if CHR ''='' \<notin> set tok \<or> key_of tok = [] then (ArgumentError, args_clear)
     else if kMaxNameLength < length (key_of tok) then (NameTooLong, args_clear)
     else if fm_find (args_map a) (key_of tok) \<noteq> None then (DuplicateName, args_clear)
     else if fm_full kMaxArguments (args_map a) then (CapacityExceeded, args_clear)
     else parse_loop rest' (a\<lparr>args_map := fm_insert (key_of tok) (value_of tok) (args_map a)\<rparr>))"
proof -
  have found: "view_find (CHR ''='') tok =
      (if CHR ''='' \<in> set tok then Some (length (key_of tok)) else None)"
    by (simp add: view_find_eq key_of_def)
  show ?thesis
    unfolding parse_loop.simps [of t a] Let_def assms(1) [symmetric] assms(3) [symmetric]
      assms(4) [symmetric] found assign_checked_eq
    using assms(2) by (simp add: take_key_of drop_value_of [simplified])
qed

lemma words_of_unfold:
  assumes "rest = dropWhile is_space t" and "rest \<noteq> []"
  shows "words_of t = takeWhile (\<lambda>c. \<not> is_space c) rest # words_of (dropWhile (\<lambda>c. \<not> is_space c) rest)"
  unfolding words_of.simps [of t] Let_def assms(1) [symmetric] using assms(2) by simp

lemma length_rest_less:
  assumes "rest = dropWhile is_space t" and "rest \<noteq> []"
  shows "length (dropWhile (\<lambda>c. \<not> is_space c) rest) < length t"
proof -
  have "\<not> is_space (hd rest)"
    using assms hd_dropWhile by blast
  then have "length (dropWhile (\<lambda>c. \<not> is_space c) rest) < length rest"
    using assms(2) by (simp add: length_dropWhile_less)
  also have "length rest \<le> length t"
    by (simp add: assms(1) length_dropWhile_le)
  finally show ?thesis .
qed

lemma parse_loop_tokens:
  "parse_loop t a =
     (case check_tokens (words_of t) (args_map a) of
        Inl e \<Rightarrow> (e, args_clear)
      | Inr m \<Rightarrow> (Ok, a\<lparr>args_map := m\<rparr>))"
proof (induction "length t" arbitrary: t a rule: less_induct)
  case less
  define rest where "rest = dropWhile is_space t"
  show ?case
  proof (cases "rest = []")
    case True
    then show ?thesis
      by (simp add: parse_loop.simps [of t] words_of.simps [of t] rest_def [symmetric])
  next
    case False
    note step = parse_loop_unfold [OF rest_def False refl refl, of a]
      words_of_unfold [OF rest_def False]
    show ?thesis
      unfolding step check_tokens.simps
      by (simp add: less [OF length_rest_less [OF rest_def False]] split: sum.split)
  qed
qed

lemma check_tokens_not_Ok: "check_tokens toks m \<noteq> Inl Ok"
  by (induction toks m rule: check_tokens.induct) auto

lemma args_parse_tokens:
  "args_parse t =
     (case check_tokens (words_of t) [] of
        Inl e \<Rightarrow> (e, args_clear)
      | Inr m \<Rightarrow> (Ok, \<lparr>args_map = m, args_raw = t\<rparr>))"
  by (simp add: args_parse_def parse_loop_tokens args_clear_def split: sum.splits)

definition token_ok :: "string \<Rightarrow> bool" where
  "token_ok tok \<longleftrightarrow> CHR ''='' \<in> set tok \<and> key_of tok \<noteq> [] \<and> length (key_of tok) \<le> kMaxNameLength"

lemma check_tokens_ok_iff:
  assumes "length m \<le> kMaxArguments"
  shows "(\<exists>m'. check_tokens toks m = Inr m') \<longleftrightarrow>
     list_all token_ok toks \<and> distinct (map key_of toks) \<and>
     (\<forall>tok \<in> set toks. fm_find m (key_of tok) = None) \<and> length m + length toks \<le> kMaxArguments"
  using assms
proof (induction toks arbitrary: m)
  case (Cons tok toks)
  show ?case
  proof (cases "token_ok tok \<and> fm_find m (key_of tok) = None \<and> length m < kMaxArguments")
    case True
    then have "check_tokens (tok # toks) m =
        check_tokens toks (fm_insert (key_of tok) (value_of tok) m)"
      by (simp add: token_ok_def fm_full_def)
    moreover from True have "(\<forall>t \<in> set toks. fm_find (fm_insert (key_of tok) (value_of tok) m) (key_of t) = None)
        \<longleftrightarrow> key_of tok \<notin> key_of ` set toks \<and> (\<forall>t \<in> set toks. fm_find m (key_of t) = None)"
      by (fastforce simp: container_simps image_iff split: if_splits)
    ultimately show ?thesis
      using True Cons.IH [of "fm_insert (key_of tok) (value_of tok) m"]
      by (simp add: container_simps conj_ac)
  next
    case False
    then show ?thesis
      using Cons.prems by (auto simp: token_ok_def fm_full_def)
  qed
qed simp

lemma check_tokens_find:
  "check_tokens toks m = Inr m' \<Longrightarrow>
   fm_find m' k = (case fm_find m k of Some v \<Rightarrow> Some v
                   | None \<Rightarrow> map_of (map (\<lambda>tok. (key_of tok, value_of tok)) toks) k)"
proof (induction toks arbitrary: m)
  case (Cons tok toks)
  then have new: "fm_find m (key_of tok) = None"
    and rec: "check_tokens toks (fm_insert (key_of tok) (value_of tok) m) = Inr m'"
    by (auto split: if_splits)
  from Cons.IH [OF rec] new show ?case
    by (auto simp: container_simps split: option.splits)
qed (simp split: option.splits)

lemma check_tokens_invariant:
  "check_tokens toks m = Inr m' \<Longrightarrow> fm_ok m \<Longrightarrow> length m \<le> kMaxArguments \<Longrightarrow>
   (\<forall>k \<in> fst ` set m. k \<noteq> [] \<and> length k \<le> kMaxNameLength) \<Longrightarrow>
   fm_ok m' \<and> length m' \<le> kMaxArguments \<and> (\<forall>k \<in> fst ` set m'. k \<noteq> [] \<and> length k \<le> kMaxNameLength)"
proof (induction toks arbitrary: m)
  case (Cons tok toks)
  then have "check_tokens toks (fm_insert (key_of tok) (value_of tok) m) = Inr m'"
    and "fm_find m (key_of tok) = None" and "length m < kMaxArguments"
    and "key_of tok \<noteq> []" and "length (key_of tok) \<le> kMaxNameLength"
    by (auto simp: fm_full_def split: if_splits)
  with Cons.IH [of "fm_insert (key_of tok) (value_of tok) m"] Cons.prems show ?case
    by (simp add: container_simps keys_fm_insert)
qed simp


text \<open>The words of a text are its maximal runs without white space.\<close>

lemma words_of_tokens: "w \<in> set (words_of t) \<Longrightarrow> w \<noteq> [] \<and> (\<forall>c \<in> set w. \<not> is_space c)"
proof (induction t rule: words_of.induct)
  case (1 t)
  define rest where "rest = dropWhile is_space t"
  show ?case
  proof (cases "rest = []")
    case True
    with 1 show ?thesis
      by (simp add: words_of.simps [of t] rest_def [symmetric])
  next
    case False
    then have "\<not> is_space (hd rest)"
      unfolding rest_def by (rule hd_dropWhile)
    with False have "takeWhile (\<lambda>c. \<not> is_space c) rest \<noteq> []"
      by (cases rest) auto
    moreover from 1(2) have "w = takeWhile (\<lambda>c. \<not> is_space c) rest \<or>
        w \<in> set (words_of (dropWhile (\<lambda>c. \<not> is_space c) rest))"
      unfolding words_of_unfold [OF rest_def False] by simp
    ultimately show ?thesis
      using 1(1) [OF rest_def False] by (metis set_takeWhileD)
  qed
qed

lemma filter_takeWhile_dropWhile:
  "filter P t = takeWhile P (dropWhile (\<lambda>c. \<not> P c) t) @ filter P (dropWhile P (dropWhile (\<lambda>c. \<not> P c) t))"
proof -
  have skip: "filter P t = filter P (dropWhile (\<lambda>c. \<not> P c) t)"
    by (induction t) auto
  have split: "filter P u = takeWhile P u @ filter P (dropWhile P u)" for u
    by (induction u) auto
  show ?thesis
    unfolding skip by (rule split)
qed

lemma concat_words_of: "concat (words_of t) = filter (\<lambda>c. \<not> is_space c) t"
proof (induction t rule: words_of.induct)
  case (1 t)
  define rest where "rest = dropWhile is_space t"
  show ?case
  proof (cases "rest = []")
    case True
    then show ?thesis
      by (simp add: words_of.simps [of t] rest_def [symmetric])
         (simp add: rest_def filter_empty_conv)
  next
    case False
    with 1 [OF rest_def False] words_of_unfold [OF rest_def False] show ?thesis
      using filter_takeWhile_dropWhile [of "\<lambda>c. \<not> is_space c" t] by (simp add: rest_def)
  qed
qed

lemma words_of_word:
  assumes "w \<noteq> []" and "\<forall>c \<in> set w. \<not> is_space c" and "t = [] \<or> is_space (hd t)"
  shows "words_of (w @ t) = w # words_of t"
proof -
  have hd: "\<not> is_space (hd w)"
    using assms(1,2) by simp
  then have rest: "w @ t = dropWhile is_space (w @ t)"
    using assms(1) by (cases w) simp_all
  have "takeWhile (\<lambda>c. \<not> is_space c) (w @ t) = w @ takeWhile (\<lambda>c. \<not> is_space c) t"
    using assms(2) by (intro takeWhile_append2) auto
  moreover have "dropWhile (\<lambda>c. \<not> is_space c) (w @ t) = dropWhile (\<lambda>c. \<not> is_space c) t"
    using assms(2) by (intro dropWhile_append2) auto
  moreover have "takeWhile (\<lambda>c. \<not> is_space c) t = []" "dropWhile (\<lambda>c. \<not> is_space c) t = t"
    using assms(3) by (cases t; simp)+
  ultimately show ?thesis
    using words_of_unfold [OF rest] assms(1) by simp
qed

lemma words_of_blank: "is_space c \<Longrightarrow> words_of (c # t) = words_of t"
  by (subst (1 2) words_of.simps) simp

lemma words_of_Nil [simp]: "words_of [] = []"
  by (simp add: words_of.simps)

definition args_render :: "(string \<times> string) list \<Rightarrow> string" where
  "args_render kvs = concat (map (\<lambda>(k, v). k @ ''='' @ v @ '' '') kvs)"

lemma words_of_render:
  assumes "\<forall>(k, v) \<in> set kvs. k \<noteq> [] \<and> (\<forall>c \<in> set k \<union> set v. \<not> is_space c)"
  shows "words_of (args_render kvs) = map (\<lambda>(k, v). k @ ''='' @ v) kvs"
  using assms
proof (induction kvs)
  case (Cons kv kvs)
  obtain k v where kv: "kv = (k, v)"
    by (cases kv)
  have "words_of ((k @ ''='' @ v) @ ('' '' @ args_render kvs))
      = (k @ ''='' @ v) # words_of ('' '' @ args_render kvs)"
    using Cons.prems kv by (intro words_of_word) (auto simp: is_space_def)
  with Cons show ?case
    by (simp add: kv args_render_def words_of_blank is_space_def)
qed (simp add: args_render_def)

lemma key_of_pair: "CHR ''='' \<notin> set k \<Longrightarrow> key_of (k @ CHR ''='' # v) = k"
  unfolding key_of_def by (subst takeWhile_append2) auto

lemma value_of_pair: "CHR ''='' \<notin> set k \<Longrightarrow> value_of (k @ CHR ''='' # v) = v"
  unfolding value_of_def by (subst dropWhile_append2) auto

section \<open>What the parser promises\<close>

definition args_wf :: "args \<Rightarrow> bool" where
  "args_wf a \<longleftrightarrow> fm_ok (args_map a) \<and> length (args_map a) \<le> kMaxArguments \<and>
     (\<forall>k \<in> fst ` set (args_map a). k \<noteq> [] \<and> length k \<le> kMaxNameLength)"

lemma args_parse_ok_iff:
  "fst (args_parse t) = Ok \<longleftrightarrow>
     list_all token_ok (words_of t) \<and> distinct (map key_of (words_of t)) \<and>
     length (words_of t) \<le> kMaxArguments"
proof -
  have "fst (args_parse t) = Ok \<longleftrightarrow> (\<exists>m. check_tokens (words_of t) [] = Inr m)"
    using check_tokens_not_Ok by (auto simp: args_parse_tokens split: sum.splits)
  then show ?thesis
    by (simp add: check_tokens_ok_iff container_simps)
qed

lemma args_parse_lookup:
  "fst (args_parse t) = Ok \<Longrightarrow>
   fm_find (args_map (snd (args_parse t))) = map_of (map (\<lambda>w. (key_of w, value_of w)) (words_of t)) \<and>
   args_raw (snd (args_parse t)) = t"
  using check_tokens_not_Ok
  by (auto simp: args_parse_tokens check_tokens_find container_simps split: sum.splits)

lemma args_parse_fail: "fst (args_parse t) \<noteq> Ok \<Longrightarrow> snd (args_parse t) = args_none"
  by (auto simp: args_parse_tokens args_clear_def args_none_def split: sum.splits)

lemma args_parse_wf: "args_wf (snd (args_parse t))"
  using check_tokens_invariant [of "words_of t" "[]"]
  by (auto simp: args_parse_tokens args_wf_def args_clear_def split: sum.splits)

lemma args_parse_render_ok:
  assumes "\<forall>(k, v) \<in> set kvs. k \<noteq> [] \<and> length k \<le> kMaxNameLength \<and> CHR ''='' \<notin> set k \<and>
      (\<forall>c \<in> set k \<union> set v. \<not> is_space c)"
    and "distinct (map fst kvs)" and "length kvs \<le> kMaxArguments"
  shows "fst (args_parse (args_render kvs)) = Ok \<and>
    fm_find (args_map (snd (args_parse (args_render kvs)))) = map_of kvs"
proof -
  have words: "words_of (args_render kvs) = map (\<lambda>(k, v). k @ ''='' @ v) kvs"
    using assms(1) by (intro words_of_render) auto
  have "map (key_of \<circ> (\<lambda>(k, v). k @ ''='' @ v)) kvs = map fst kvs"
    using assms(1) by (auto simp: key_of_pair)
  then have keys: "distinct (map (key_of \<circ> (\<lambda>(k, v). k @ ''='' @ v)) kvs)"
    using assms(2) by (simp only:)
  have pairs: "map ((\<lambda>w. (key_of w, value_of w)) \<circ> (\<lambda>(k, v). k @ ''='' @ v)) kvs = kvs"
    using assms(1) by (intro map_idI) (auto simp: key_of_pair value_of_pair)
  have "list_all token_ok (map (\<lambda>(k, v). k @ ''='' @ v) kvs)"
    using assms(1) by (auto simp: list_all_iff token_ok_def key_of_pair)
  then have ok: "fst (args_parse (args_render kvs)) = Ok"
    using assms(3) keys by (simp add: args_parse_ok_iff words)
  show ?thesis
    unfolding args_parse_lookup [OF ok, THEN conjunct1] words map_map pairs
    using ok by simp
qed

text \<open>C35: \<open>parse_int\<close> accepts exactly an optional sign followed by one or more decimal
  digits whose value lies in the range of a 32-bit signed integer, and returns that value;
  everything else (no digit, a stray character, a value out of range) is refused.\<close>

theorem parse_int_exact:
  "parse_int t = Some n \<longleftrightarrow> int_text t n \<and> - 2147483648 \<le> n \<and> n \<le> 2147483647"
  by (rule parse_int_iff)

text \<open>The digit loop of \<open>parse_int\<close> never overflows its 64-bit accumulator: run on
  64-bit words with wrap-around it returns what it returns on unbounded integers.\<close>

theorem parse_digits_no_overflow: "map_option sint (parse_digits_i64 ds 0) = parse_digits ds 0"
  using parse_digits_i64_eq [of 0 ds] by simp

text \<open>C32: \<open>Args::parse\<close> is a fold over the white-space separated words of the text, each
  tested for an equals sign after a nonempty key, the length of the key, a repeated key and a
  full map, in this order; the first word that fails decides the status and leaves the object
  empty, and on success the map holds what the fold built and \<open>raw()\<close> the whole text.\<close>

theorem args_parse_by_words:
  "args_parse t =
     (case check_tokens (words_of t) [] of
        Inl e \<Rightarrow> (e, args_none)
      | Inr m \<Rightarrow> (Ok, \<lparr>args_map = m, args_raw = t\<rparr>))"
  by (simp add: args_parse_tokens args_clear_def args_none_def split: sum.split)

text \<open>C33: parsing succeeds on exactly the texts whose words are all \<open>key=value\<close> with a key
  of 1 to \<open>FMS_MAX_NAME_LENGTH\<close> characters, with no key twice and no more than
  \<open>FMS_MAX_ARGUMENTS\<close> words.\<close>

theorem args_parse_accepts:
  "fst (args_parse t) = Ok \<longleftrightarrow>
     list_all token_ok (words_of t) \<and> distinct (map key_of (words_of t)) \<and>
     length (words_of t) \<le> kMaxArguments"
  by (rule args_parse_ok_iff)

text \<open>C34: arguments written as \<open>key=value\<close> words come back from \<open>Args::parse\<close> as the
  map they were written from.\<close>

theorem args_parse_render:
  assumes "\<forall>(k, v) \<in> set kvs. k \<noteq> [] \<and> length k \<le> kMaxNameLength \<and> CHR ''='' \<notin> set k \<and>
      (\<forall>c \<in> set k \<union> set v. \<not> is_space c)"
    and "distinct (map fst kvs)" and "length kvs \<le> kMaxArguments"
  shows "fst (args_parse (args_render kvs)) = Ok \<and>
    fm_find (args_map (snd (args_parse (args_render kvs)))) = map_of kvs"
  using assms by (rule args_parse_render_ok)

theorem args_parse_render_witness:
  "fst (args_parse (args_render [(''pedal'', ''42''), (''mode'', ''sport'')])) = Ok \<and>
   fm_find (args_map (snd (args_parse (args_render [(''pedal'', ''42''), (''mode'', ''sport'')])))) =
     map_of [(''pedal'', ''42''), (''mode'', ''sport'')]"
  by (rule args_parse_render) (simp_all add: is_space_def kMaxNameLength_def kMaxArguments_def)

end
