(* ===== verification/Conditions.thy ===== *)
theory Conditions
  imports ArgsParser
begin

text \<open>
  include/fms/condition.hpp and src/condition.cpp: a guard condition, its parser and its
  evaluation against the arguments of a trigger. The out parameter of
  \<open>parse_condition\<close> is the second component of the result; on an error it holds what the
  code has written so far.
\<close>

section \<open>Conditions\<close>

datatype compare_op = Equal | NotEqual | Less | LessEqual | Greater | GreaterEqual

record condition =
  cond_arg :: string
  cond_op :: compare_op
  cond_numeric :: bool
  cond_number :: int
  cond_literal :: string

definition empty_condition :: condition where
  "empty_condition =
     \<lparr>cond_arg = [], cond_op = Equal, cond_numeric = False, cond_number = 0, cond_literal = []\<rparr>"

fun op_to_string :: "compare_op \<Rightarrow> string" where
  "op_to_string Equal = ''==''"
| "op_to_string NotEqual = ''!=''"
| "op_to_string Less = ''<''"
| "op_to_string LessEqual = ''<=''"
| "op_to_string Greater = ''>''"
| "op_to_string GreaterEqual = ''>=''"

definition trim :: "string \<Rightarrow> string" where
  "trim t = rev (dropWhile is_space (rev (dropWhile is_space t)))"

text \<open>
  The operator search at the head of the text that is left; \<open>next\<close> is NUL past the end.
  The result is the position, the length and the operator.
\<close>

fun find_operator_from :: "nat \<Rightarrow> string \<Rightarrow> (nat \<times> nat \<times> compare_op) option" where
  "find_operator_from i [] = None"
| "find_operator_from i (c # cs) =
     (let next_c = (case cs of [] \<Rightarrow> CHR 0x00 | d # _ \<Rightarrow> d)
      in if c = CHR ''='' \<and> next_c = CHR ''='' then Some (i, 2, Equal)
         else if c = CHR ''!'' \<and> next_c = CHR ''='' then Some (i, 2, NotEqual)
         else if c = CHR ''<'' \<and> next_c = CHR ''='' then Some (i, 2, LessEqual)
         else if c = CHR ''>'' \<and> next_c = CHR ''='' then Some (i, 2, GreaterEqual)
         else if c = CHR ''<'' then Some (i, 1, Less)
         else if c = CHR ''>'' then Some (i, 1, Greater)
         else if c = CHR ''='' then Some (i, 1, Equal)
         else find_operator_from (Suc i) cs)"

definition find_operator :: "string \<Rightarrow> (nat \<times> nat \<times> compare_op) option" where
  "find_operator t = find_operator_from 0 t"

definition is_ordering :: "compare_op \<Rightarrow> bool" where
  "is_ordering opr \<longleftrightarrow> opr = Less \<or> opr = LessEqual \<or> opr = Greater \<or> opr = GreaterEqual"

definition parse_condition :: "string \<Rightarrow> status \<times> condition" where
  "parse_condition t =
     (let out = empty_condition;
          expression = trim t
      in if expression = [] then (SchemaError, out)
         else case find_operator expression of
                None \<Rightarrow> (SchemaError, out)
              | Some (position, len, opr) \<Rightarrow>
                  let left = trim (take position expression);
                      right = trim (drop (position + len) expression)
                  in if left = [] \<or> right = [] then (SchemaError, out)
                     else
                       let (fits, stored) = assign_checked kMaxNameLength (cond_arg out) left;
                           out = out\<lparr>cond_arg := stored\<rparr>
                       in if \<not> fits then (NameTooLong, out)
                          else
                            let out = out\<lparr>cond_op := opr\<rparr>
                            in case parse_int right of
                                 Some number \<Rightarrow>
                                   (Ok, out\<lparr>cond_numeric := True, cond_number := number\<rparr>)
                               | None \<Rightarrow>
                                   if is_ordering opr then (SchemaError, out)
                                   else
                                     let (fits, stored) =
                                           assign_checked kMaxNameLength (cond_literal out) right;
                                         out = out\<lparr>cond_literal := stored\<rparr>
                                     in if \<not> fits then (NameTooLong, out)
                                        else (Ok, out\<lparr>cond_numeric := False\<rparr>))"

definition condition_evaluate :: "condition \<Rightarrow> args \<Rightarrow> bool" where
  "condition_evaluate c a =
     (let v = args_text a (cond_arg c)
      in if v = [] then False
         else if cond_numeric c then
           (case parse_int v of
              None \<Rightarrow> False
            | Some actual \<Rightarrow>
                (case cond_op c of
                   Equal \<Rightarrow> actual = cond_number c
                 | NotEqual \<Rightarrow> actual \<noteq> cond_number c
                 | Less \<Rightarrow> actual < cond_number c
                 | LessEqual \<Rightarrow> actual \<le> cond_number c
                 | Greater \<Rightarrow> actual > cond_number c
                 | GreaterEqual \<Rightarrow> actual \<ge> cond_number c))
         else
           (let same = (v = cond_literal c)
            in if cond_op c = NotEqual then \<not> same else same))"

section \<open>Trimming\<close>

lemma trim_Nil [simp]: "trim [] = []"
  by (simp add: trim_def)

lemma trim_hd: "trim t \<noteq> [] \<Longrightarrow> \<not> is_space (hd (trim t))"
proof -
  assume ne: "trim t \<noteq> []"
  define u where "u = dropWhile is_space t"
  obtain v where v: "u = trim t @ v"
    unfolding trim_def u_def by (metis rev_append rev_rev_ident takeWhile_dropWhile_id)
  then have "u \<noteq> []" "hd u = hd (trim t)"
    using ne by auto
  then show ?thesis
    unfolding u_def by (metis hd_dropWhile)
qed

lemma trim_last: "trim t \<noteq> [] \<Longrightarrow> \<not> is_space (last (trim t))"
  unfolding trim_def by (metis hd_dropWhile last_rev rev.simps(1) rev_rev_ident)

lemma trim_id: "t = [] \<or> \<not> is_space (hd t) \<and> \<not> is_space (last t) \<Longrightarrow> trim t = t"
proof -
  assume *: "t = [] \<or> \<not> is_space (hd t) \<and> \<not> is_space (last t)"
  then have "dropWhile is_space t = t"
    by (cases t) auto
  moreover from * have "dropWhile is_space (rev t) = rev t"
    by (cases t rule: rev_cases) auto
  ultimately show ?thesis
    by (simp add: trim_def)
qed

definition trimmed :: "string \<Rightarrow> bool" where
  "trimmed t \<longleftrightarrow> t = [] \<or> \<not> is_space (hd t) \<and> \<not> is_space (last t)"

lemma trimmed_trim [simp]: "trimmed (trim t)"
  using trim_hd trim_last by (auto simp: trimmed_def)

lemma trim_trimmed: "trimmed t \<Longrightarrow> trim t = t"
  unfolding trimmed_def by (rule trim_id)

lemma trim_blank_left: "is_space c \<Longrightarrow> trim (c # t) = trim t"
  by (simp add: trim_def)

lemma trim_blank_right: "is_space c \<Longrightarrow> trim (t @ [c]) = trim t"
proof -
  assume c: "is_space c"
  show ?thesis
  proof (cases "\<forall>x \<in> set t. is_space x")
    case True
    with c have "dropWhile is_space (t @ [c]) = []" "dropWhile is_space t = []"
      unfolding dropWhile_eq_Nil_conv by auto
    then show ?thesis
      by (simp only: trim_def rev.simps dropWhile.simps)
  next
    case False
    then have "dropWhile is_space (t @ [c]) = dropWhile is_space t @ [c]"
      by (blast intro: dropWhile_append1)
    with c show ?thesis
      by (simp add: trim_def)
  qed
qed

lemma set_trim: "set (trim t) \<subseteq> set t"
  unfolding trim_def by (metis set_dropWhileD set_rev subsetI)

section \<open>The operator search\<close>

definition op_char :: "char \<Rightarrow> bool" where
  "op_char c \<longleftrightarrow> c = CHR ''='' \<or> c = CHR ''<'' \<or> c = CHR ''>''"

lemma find_operator_from_skip:
  assumes "\<forall>c \<in> set xs. \<not> op_char c" and "xs = [] \<or> last xs \<noteq> CHR ''!''" and "ys \<noteq> []"
  shows "find_operator_from i (xs @ ys) = find_operator_from (i + length xs) ys"
  using assms(1,2)
proof (induction xs arbitrary: i)
  case (Cons x xs)
  obtain z zs where z: "xs @ ys = z # zs"
    using assms(3) by (cases "xs @ ys") auto
  then have "x = CHR ''!'' \<Longrightarrow> z \<noteq> CHR ''=''"
    using Cons.prems by (cases xs) (auto simp: op_char_def)
  then have "find_operator_from i (x # z # zs) = find_operator_from (Suc i) (z # zs)"
    using Cons.prems(1)
    by (subst find_operator_from.simps(2))
       (auto simp: op_char_def Let_def simp del: find_operator_from.simps)
  with z Cons show ?case
    by (cases "xs = []") (simp_all del: find_operator_from.simps)
qed simp

lemma find_operator_from_prefix:
  "find_operator_from i t = Some (p, n, opr) \<Longrightarrow>
   i \<le> p \<and> p - i + n \<le> length t \<and> (\<forall>c \<in> set (take (p - i) t). \<not> op_char c)"
proof (induction i t rule: find_operator_from.induct)
  case (2 i c cs)
  show ?case
  proof (cases "op_char c \<or> c = CHR ''!'' \<and> cs \<noteq> [] \<and> hd cs = CHR ''=''")
    case True
    with 2(2) show ?thesis
      by (cases cs) (auto simp: op_char_def Let_def split: if_splits)
  next
    case False
    then have rec: "find_operator_from i (c # cs) = find_operator_from (Suc i) cs"
      by (cases cs) (auto simp: op_char_def Let_def)
    then have "Suc i \<le> p \<and> p - Suc i + n \<le> length cs \<and> (\<forall>c \<in> set (take (p - Suc i) cs). \<not> op_char c)"
      using 2(2) False by (intro 2(1) [OF refl]) (cases cs; auto simp: op_char_def)+
    with False show ?thesis
      by (auto simp: take_Cons' Suc_diff_le split: if_splits)
  qed
qed simp

lemma find_operator_print:
  "find_operator_from i (op_to_string opr @ CHR '' '' # t) = Some (i, length (op_to_string opr), opr)"
  by (cases opr) simp_all

section \<open>What the parser guarantees\<close>

definition condition_wf :: "condition \<Rightarrow> bool" where
  "condition_wf c \<longleftrightarrow>
     cond_arg c \<noteq> [] \<and> length (cond_arg c) \<le> kMaxNameLength \<and> trimmed (cond_arg c) \<and>
     (\<forall>x \<in> set (cond_arg c). \<not> op_char x) \<and>
     (if cond_numeric c
      then - 2147483648 \<le> cond_number c \<and> cond_number c \<le> 2147483647 \<and> cond_literal c = []
      else cond_number c = 0 \<and> (cond_op c = Equal \<or> cond_op c = NotEqual) \<and>
           cond_literal c \<noteq> [] \<and> length (cond_literal c) \<le> kMaxNameLength \<and>
           trimmed (cond_literal c) \<and> parse_int (cond_literal c) = None)"

lemma parse_condition_wf:
  assumes "parse_condition t = (Ok, c)"
  shows "condition_wf c"
proof -
  define e where "e = trim t"
  from assms obtain p n opr where fo: "find_operator e = Some (p, n, opr)"
    by (auto simp: parse_condition_def Let_def e_def split: if_splits option.splits)
  define l where "l = trim (take p e)"
  define r where "r = trim (drop (p + n) e)"
  have ops: "\<forall>x \<in> set l. \<not> op_char x"
    using find_operator_from_prefix [OF fo [unfolded find_operator_def]] set_trim
    by (auto simp: l_def)
  have "l \<noteq> []" "r \<noteq> []" "length l \<le> kMaxNameLength"
    "c = (case parse_int r of
        Some k \<Rightarrow> \<lparr>cond_arg = l, cond_op = opr, cond_numeric = True, cond_number = k, cond_literal = []\<rparr>
      | None \<Rightarrow> \<lparr>cond_arg = l, cond_op = opr, cond_numeric = False, cond_number = 0, cond_literal = r\<rparr>)"
    "parse_int r = None \<Longrightarrow> \<not> is_ordering opr \<and> length r \<le> kMaxNameLength"
    using assms fo
    by (auto simp: parse_condition_def Let_def e_def [symmetric] l_def [symmetric] r_def [symmetric]
          text_simps empty_condition_def split: if_splits option.splits)
  then show ?thesis
    using ops parse_int_range [of r]
    by (cases opr) (auto simp: condition_wf_def l_def r_def is_ordering_def split: option.splits)
qed

end
