(* ===== verification/MachineModel.thy ===== *)
theory MachineModel
  imports Conditions
begin

text \<open>
  include/fms/model.hpp and src/model.cpp: the machine definition. States and triggers are
  flat maps keyed by dense identifiers, each with a name index; a state lists, per trigger,
  its alternatives in file order; conditions live in one pool that alternatives refer to by
  slice. The operations that build a model, the cross-check \<open>validate\<close>, the lookups and
  the decision function \<open>evaluate\<close>. An operation that changes the model returns its status
  and the model afterwards; an out parameter is one more component of the result.
\<close>

section \<open>Data\<close>

record trigger_def =
  td_name :: string
  td_channel :: string

record alternative =
  first_condition :: u16
  condition_count :: u8
  alt_target :: state_id

type_synonym alternatives = "alternative list"
type_synonym condition_list = "condition list"

record state_node =
  node_name :: string
  transitions :: "(trigger_id, alternatives) flat_map"

datatype decision = DecisionAccepted | DecisionNoTransition | DecisionGuardRejected

record model =
  mdl_name :: string
  states :: "(state_id, state_node) flat_map"
  state_index :: "(string, state_id) flat_map"
  triggers :: "(trigger_id, trigger_def) flat_map"
  trigger_index :: "(string, trigger_id) flat_map"
  channel_index :: "(string, trigger_id) flat_map"
  conditions :: "condition list"

section \<open>Building a model\<close>

definition model_clear :: model where
  "model_clear =
     \<lparr>mdl_name = [], states = [], state_index = [], triggers = [], trigger_index = [],
      channel_index = [], conditions = []\<rparr>"

definition model_set_name :: "string \<Rightarrow> model \<Rightarrow> status \<times> model" where
  "model_set_name name m =
     (let (fits, stored) = assign_checked kMaxNameLength (mdl_name m) name
      in (if fits then Ok else NameTooLong, m\<lparr>mdl_name := stored\<rparr>))"

definition declare_state :: "string \<Rightarrow> model \<Rightarrow> status \<times> model \<times> state_id" where
  "declare_state name m =
     (if name = [] then (InvalidArgument, m, kNoState)
      else if fm_full kMaxStates (states m) \<or> fm_full kMaxStates (state_index m)
        then (CapacityExceeded, m, kNoState)
      else
        let (fits, key) = assign_checked kMaxNameLength [] name
        in if \<not> fits then (NameTooLong, m, kNoState)
           else if fm_find (state_index m) key \<noteq> None then (DuplicateName, m, kNoState)
           else
             let i = word_of_nat (length (states m));
                 node = \<lparr>node_name = key, transitions = []\<rparr>
             in (Ok,
                 m\<lparr>states := fm_insert i node (states m),
                   state_index := fm_insert key i (state_index m)\<rparr>,
                 i))"

definition declare_trigger :: "string \<Rightarrow> string \<Rightarrow> model \<Rightarrow> status \<times> model \<times> trigger_id" where
  "declare_trigger name channel m =
     (if name = [] then (InvalidArgument, m, kNoTrigger)
      else if fm_full kMaxTriggers (triggers m) \<or> fm_full kMaxTriggers (trigger_index m) \<or>
              fm_full kMaxTriggers (channel_index m)
        then (CapacityExceeded, m, kNoTrigger)
      else
        let (name_fits, stored_name) = assign_checked kMaxNameLength [] name
        in if \<not> name_fits then (NameTooLong, m, kNoTrigger)
           else
             let (channel_fits, stored_channel) =
                   assign_checked kMaxChannelLength [] (if channel = [] then name else channel)
             in if \<not> channel_fits then (ChannelTooLong, m, kNoTrigger)
                else if fm_find (trigger_index m) stored_name \<noteq> None
                  then (DuplicateName, m, kNoTrigger)
                else if fm_find (channel_index m) stored_channel \<noteq> None
                  then (DuplicateName, m, kNoTrigger)
                else
                  let i = word_of_nat (length (triggers m));
                      d = \<lparr>td_name = stored_name, td_channel = stored_channel\<rparr>
                  in (Ok,
                      m\<lparr>triggers := fm_insert i d (triggers m),
                        trigger_index := fm_insert stored_name i (trigger_index m),
                        channel_index := fm_insert stored_channel i (channel_index m)\<rparr>,
                      i))"

definition has_state :: "model \<Rightarrow> state_id \<Rightarrow> bool" where
  "has_state m i \<longleftrightarrow> fm_find (states m) i \<noteq> None"

text \<open>
  The alternatives of a trigger in a state, entered empty when the trigger is new there;
  \<open>None\<close> is the null pointer.
\<close>

definition alternatives_for ::
  "state_id \<Rightarrow> trigger_id \<Rightarrow> model \<Rightarrow> alternatives option \<times> model" where
  "alternatives_for from trigger m =
     (case fm_find (states m) from of
        None \<Rightarrow> (None, m)
      | Some node \<Rightarrow>
          (case fm_find (transitions node) trigger of
             Some alternatives \<Rightarrow> (Some alternatives, m)
           | None \<Rightarrow>
               if fm_full kMaxTransitionsPerState (transitions node) then (None, m)
               else (Some [],
                     m\<lparr>states := fm_modify from
                         (\<lambda>n. n\<lparr>transitions := fm_insert trigger [] (transitions n)\<rparr>)
                         (states m)\<rparr>)))"

text \<open>\<open>push_back\<close> through the pointer that \<open>alternatives_for\<close> returned.\<close>

definition push_alternative ::
  "state_id \<Rightarrow> trigger_id \<Rightarrow> alternative \<Rightarrow> model \<Rightarrow> model" where
  "push_alternative from trigger alternative m =
     m\<lparr>states := fm_modify from
         (\<lambda>n. n\<lparr>transitions := fm_modify trigger (\<lambda>as. as @ [alternative]) (transitions n)\<rparr>)
         (states m)\<rparr>"

definition add_transition ::
  "state_id \<Rightarrow> trigger_id \<Rightarrow> state_id \<Rightarrow> condition_list \<Rightarrow> model \<Rightarrow> status \<times> model" where
  "add_transition from trigger target guard m =
     (if \<not> has_state m from then (UnknownState, m)
      else if fm_find (triggers m) trigger = None then (UnknownTrigger, m)
      else if \<not> has_state m target then (UnknownState, m)
      else if kMaxConditions < length (conditions m) + length guard then (CapacityExceeded, m)
      else
        (case alternatives_for from trigger m of
           (None, m) \<Rightarrow> (CapacityExceeded, m)
         | (Some alternatives, m) \<Rightarrow>
             if kMaxAlternatives \<le> length alternatives then (CapacityExceeded, m)
             else
               let alternative =
                     \<lparr>first_condition = word_of_nat (length (conditions m)),
                      condition_count = word_of_nat (length guard),
                      alt_target = target\<rparr>;
                   m = m\<lparr>conditions := conditions m @ guard\<rparr>
               in (Ok, push_alternative from trigger alternative m)))"

text \<open>The overload without conditions.\<close>

definition add_unguarded_transition ::
  "state_id \<Rightarrow> trigger_id \<Rightarrow> state_id \<Rightarrow> model \<Rightarrow> status \<times> model" where
  "add_unguarded_transition from trigger target m = add_transition from trigger target [] m"

definition validate_alternative :: "model \<Rightarrow> alternative \<Rightarrow> status" where
  "validate_alternative m alternative =
     (if \<not> has_state m (alt_target alternative) then UnknownState
      else
        let last_c = unat (first_condition alternative) + unat (condition_count alternative)
        in if length (conditions m) < last_c then SchemaError else Ok)"

definition validate :: "model \<Rightarrow> status" where
  "validate m =
     (if states m = [] then SchemaError
      else first_error
        (\<lambda>entry. first_error
          (\<lambda>transition.
             if fm_find (triggers m) (fst transition) = None then UnknownTrigger
             else if snd transition = [] then SchemaError
             else first_error (validate_alternative m) (snd transition))
          (transitions (snd entry)))
        (states m))"

section \<open>Lookups\<close>

definition find_state :: "model \<Rightarrow> string \<Rightarrow> state_id" where
  "find_state m name =
     (let (fits, key) = assign_checked kMaxNameLength [] name
      in if \<not> fits then kNoState
         else case fm_find (state_index m) key of None \<Rightarrow> kNoState | Some i \<Rightarrow> i)"

definition find_trigger :: "model \<Rightarrow> string \<Rightarrow> trigger_id" where
  "find_trigger m name =
     (let (fits, key) = assign_checked kMaxNameLength [] name
      in if \<not> fits then kNoTrigger
         else case fm_find (trigger_index m) key of None \<Rightarrow> kNoTrigger | Some i \<Rightarrow> i)"

definition find_trigger_for_channel :: "model \<Rightarrow> string \<Rightarrow> trigger_id" where
  "find_trigger_for_channel m channel =
     (let (fits, key) = assign_checked kMaxChannelLength [] channel
      in if \<not> fits then kNoTrigger
         else case fm_find (channel_index m) key of None \<Rightarrow> kNoTrigger | Some i \<Rightarrow> i)"

definition kInvalid :: string where "kInvalid = ''<invalid>''"

definition model_state :: "model \<Rightarrow> state_id \<Rightarrow> state_node option" where
  "model_state m i = fm_find (states m) i"

definition model_trigger :: "model \<Rightarrow> trigger_id \<Rightarrow> trigger_def option" where
  "model_trigger m i = fm_find (triggers m) i"

text \<open>Names are handed out as C strings; a caller reads them with \<open>cstr\<close>.\<close>

definition state_name :: "model \<Rightarrow> state_id \<Rightarrow> string" where
  "state_name m i = (case model_state m i of None \<Rightarrow> kInvalid | Some node \<Rightarrow> node_name node)"

definition trigger_name :: "model \<Rightarrow> trigger_id \<Rightarrow> string" where
  "trigger_name m i = (case model_trigger m i of None \<Rightarrow> kInvalid | Some d \<Rightarrow> td_name d)"

definition accepts :: "model \<Rightarrow> state_id \<Rightarrow> trigger_id \<Rightarrow> bool" where
  "accepts m from trigger \<longleftrightarrow>
     (case model_state m from of
        None \<Rightarrow> False
      | Some node \<Rightarrow> fm_find (transitions node) trigger \<noteq> None)"

definition state_count :: "model \<Rightarrow> nat" where
  "state_count m = length (states m)"

definition trigger_count :: "model \<Rightarrow> nat" where
  "trigger_count m = length (triggers m)"

definition condition_count_of :: "model \<Rightarrow> nat" where
  "condition_count_of m = length (conditions m)"

section \<open>The decision\<close>

text \<open>The inner loop: \<open>n\<close> conditions of the pool from \<open>index\<close> on, ANDed.\<close>

fun conditions_hold :: "condition list \<Rightarrow> args \<Rightarrow> nat \<Rightarrow> nat \<Rightarrow> bool" where
  "conditions_hold pool a index 0 = True"
| "conditions_hold pool a index (Suc n) =
     (if length pool \<le> index then False
      else if \<not> condition_evaluate (pool ! index) a then False
      else conditions_hold pool a (Suc index) n)"

definition alternative_holds :: "condition list \<Rightarrow> args \<Rightarrow> alternative \<Rightarrow> bool" where
  "alternative_holds pool a alternative \<longleftrightarrow>
     conditions_hold pool a (unat (first_condition alternative)) (unat (condition_count alternative))"

text \<open>The outer loop: in order, first match wins.\<close>

fun take_first :: "condition list \<Rightarrow> args \<Rightarrow> alternatives \<Rightarrow> decision \<times> state_id" where
  "take_first pool a [] = (DecisionGuardRejected, kNoState)"
| "take_first pool a (alternative # alternatives) =
     (if alternative_holds pool a alternative
      then (DecisionAccepted, alt_target alternative)
      else take_first pool a alternatives)"

definition model_evaluate ::
  "model \<Rightarrow> state_id \<Rightarrow> trigger_id \<Rightarrow> args \<Rightarrow> decision \<times> state_id" where
  "model_evaluate m from trigger a =
     (case model_state m from of
        None \<Rightarrow> (DecisionNoTransition, kNoState)
      | Some node \<Rightarrow>
          (case fm_find (transitions node) trigger of
             None \<Rightarrow> (DecisionNoTransition, kNoState)
           | Some alternatives \<Rightarrow> take_first (conditions m) a alternatives))"

definition target_of :: "model \<Rightarrow> state_id \<Rightarrow> trigger_id \<Rightarrow> args \<Rightarrow> state_id" where
  "target_of m from trigger a = snd (model_evaluate m from trigger a)"

section \<open>Well-formed models\<close>

definition alternative_ok :: "model \<Rightarrow> alternative \<Rightarrow> bool" where
  "alternative_ok m alt \<longleftrightarrow> has_state m (alt_target alt) \<and>
     unat (first_condition alt) + unat (condition_count alt) \<le> length (conditions m) \<and>
     unat (condition_count alt) \<le> kMaxConditionsPerGuard"

definition node_ok :: "model \<Rightarrow> state_node \<Rightarrow> bool" where
  "node_ok m node \<longleftrightarrow> fm_ok (transitions node) \<and> length (transitions node) \<le> kMaxTransitionsPerState \<and>
     (\<forall>t alts. fm_find (transitions node) t = Some alts \<longrightarrow>
        fm_find (triggers m) t \<noteq> None \<and> alts \<noteq> [] \<and> length alts \<le> kMaxAlternatives \<and>
        list_all (alternative_ok m) alts)"

definition names_ok :: "model \<Rightarrow> bool" where
  "names_ok m \<longleftrightarrow>
     (\<forall>i node. fm_find (states m) i = Some node \<longrightarrow>
        node_name node \<noteq> [] \<and> length (node_name node) \<le> kMaxNameLength) \<and>
     (\<forall>i d. fm_find (triggers m) i = Some d \<longrightarrow>
        td_name d \<noteq> [] \<and> length (td_name d) \<le> kMaxNameLength \<and>
        td_channel d \<noteq> [] \<and> length (td_channel d) \<le> kMaxChannelLength)"

definition tables_ok :: "model \<Rightarrow> bool" where
  "tables_ok m \<longleftrightarrow>
     dense (states m) \<and> length (states m) \<le> kMaxStates \<and> indexes node_name (states m) (state_index m) \<and>
     dense (triggers m) \<and> length (triggers m) \<le> kMaxTriggers \<and>
     indexes td_name (triggers m) (trigger_index m) \<and>
     indexes td_channel (triggers m) (channel_index m) \<and>
     length (conditions m) \<le> kMaxConditions"

definition model_ok :: "model \<Rightarrow> bool" where
  "model_ok m \<longleftrightarrow> tables_ok m \<and> names_ok m \<and>
     (\<forall>i node. fm_find (states m) i = Some node \<longrightarrow> node_ok m node)"

lemma model_okD:
  assumes "model_ok m"
  shows "tables_ok m" "names_ok m"
    and "\<And>i node. fm_find (states m) i = Some node \<Longrightarrow> node_ok m node"
  using assms by (auto simp: model_ok_def)

lemma model_ok_clear [inv_intros]: "model_ok model_clear"
  by (simp add: model_ok_def tables_ok_def names_ok_def model_clear_def container_simps)

text \<open>A larger model keeps what is well formed: more states, more triggers, more conditions.\<close>

lemma alternative_ok_mono:
  assumes "alternative_ok m alt"
    and "\<And>i. has_state m i \<Longrightarrow> has_state m' i" and "length (conditions m) \<le> length (conditions m')"
  shows "alternative_ok m' alt"
  using assms by (auto simp: alternative_ok_def)

lemma node_ok_mono:
  assumes "node_ok m node"
    and "\<And>i. has_state m i \<Longrightarrow> has_state m' i" and "length (conditions m) \<le> length (conditions m')"
    and "\<And>t. fm_find (triggers m) t \<noteq> None \<Longrightarrow> fm_find (triggers m') t \<noteq> None"
  shows "node_ok m' node"
proof -
  have "fm_find (triggers m') t \<noteq> None \<and> alts \<noteq> [] \<and> length alts \<le> kMaxAlternatives \<and>
      list_all (alternative_ok m') alts" if "fm_find (transitions node) t = Some alts" for t alts
  proof -
    from assms(1) that have *: "fm_find (triggers m) t \<noteq> None" "alts \<noteq> []"
      "length alts \<le> kMaxAlternatives" "list_all (alternative_ok m) alts"
      by (simp_all add: node_ok_def)
    then have "list_all (alternative_ok m') alts"
      using alternative_ok_mono [OF _ assms(2,3)] by (simp add: list_all_iff)
    with * assms(4) show ?thesis
      by blast
  qed
  with assms(1) show ?thesis
    by (simp add: node_ok_def)
qed

lemma model_ok_set_name [inv_intros]: "model_ok m \<Longrightarrow> model_ok (snd (model_set_name name m))"
  by (auto simp: model_set_name_def text_simps model_ok_def tables_ok_def names_ok_def node_ok_def
      list_all_iff alternative_ok_def has_state_def)

lemma declare_state_cases:
  obtains (fail) s where "declare_state name m = (s, m, kNoState)" "s \<noteq> Ok"
  | (ok) "name \<noteq> []" "length (states m) < kMaxStates" "length name \<le> kMaxNameLength"
      "fm_find (state_index m) name = None"
      "declare_state name m = (Ok,
         m\<lparr>states := fm_insert (word_of_nat (length (states m))) \<lparr>node_name = name, transitions = []\<rparr> (states m),
           state_index := fm_insert name (word_of_nat (length (states m))) (state_index m)\<rparr>,
         word_of_nat (length (states m)))"
proof -
  consider "name = [] \<or> kMaxStates \<le> length (states m) \<or> kMaxStates \<le> length (state_index m) \<or>
      kMaxNameLength < length name \<or> fm_find (state_index m) name \<noteq> None"
    | "name \<noteq> []" "length (states m) < kMaxStates" "length (state_index m) < kMaxStates"
      "length name \<le> kMaxNameLength" "fm_find (state_index m) name = None"
    by fastforce
  then show thesis
  proof cases
    case 1
    then show thesis
      by (intro fail [of "fst (declare_state name m)"])
         (auto simp: declare_state_def fm_full_def text_simps Let_def)
  next
    case 2
    then show thesis
      by (intro ok) (auto simp: declare_state_def fm_full_def text_simps Let_def)
  qed
qed

lemma declare_trigger_cases:
  obtains (fail) s where "declare_trigger name channel m = (s, m, kNoTrigger)" "s \<noteq> Ok"
  | (ok) ch where "ch = (if channel = [] then name else channel)"
      "name \<noteq> []" "length (triggers m) < kMaxTriggers" "length name \<le> kMaxNameLength"
      "length ch \<le> kMaxChannelLength"
      "fm_find (trigger_index m) name = None" "fm_find (channel_index m) ch = None"
      "declare_trigger name channel m = (Ok,
         m\<lparr>triggers := fm_insert (word_of_nat (length (triggers m))) \<lparr>td_name = name, td_channel = ch\<rparr> (triggers m),
           trigger_index := fm_insert name (word_of_nat (length (triggers m))) (trigger_index m),
           channel_index := fm_insert ch (word_of_nat (length (triggers m))) (channel_index m)\<rparr>,
         word_of_nat (length (triggers m)))"
proof -
  define ch where "ch = (if channel = [] then name else channel)"
  consider "name = [] \<or> kMaxTriggers \<le> length (triggers m) \<or> kMaxTriggers \<le> length (trigger_index m) \<or>
      kMaxTriggers \<le> length (channel_index m) \<or> kMaxNameLength < length name \<or>
      kMaxChannelLength < length ch \<or> fm_find (trigger_index m) name \<noteq> None \<or>
      fm_find (channel_index m) ch \<noteq> None"
    | "name \<noteq> []" "length (triggers m) < kMaxTriggers" "length (trigger_index m) < kMaxTriggers"
      "length (channel_index m) < kMaxTriggers" "length name \<le> kMaxNameLength"
      "length ch \<le> kMaxChannelLength" "fm_find (trigger_index m) name = None"
      "fm_find (channel_index m) ch = None"
    by fastforce
  then show thesis
  proof cases
    case 1
    then show thesis
      by (intro fail [of "fst (declare_trigger name channel m)"])
         (auto simp: declare_trigger_def fm_full_def text_simps Let_def ch_def [symmetric])
  next
    case 2
    then show thesis
      by (intro ok [OF ch_def]) (auto simp: declare_trigger_def fm_full_def text_simps Let_def ch_def [symmetric])
  qed
qed

lemma fresh_id: "dense m \<Longrightarrow> length m < 65535 \<Longrightarrow> fm_find m (word_of_nat (length m)) = None"
  by (simp add: dense_find_None)

lemma model_ok_declare_state [inv_intros]:
  assumes ok: "model_ok m"
  shows "model_ok (fst (snd (declare_state name m)))"
proof (cases rule: declare_state_cases [of name m])
  case (fail s)
  with ok show ?thesis
    by simp
next
  case 2: ok
  let ?i = "word_of_nat (length (states m)) :: state_id"
  let ?node = "\<lparr>node_name = name, transitions = []\<rparr>"
  let ?m = "m\<lparr>states := fm_insert ?i ?node (states m), state_index := fm_insert name ?i (state_index m)\<rparr>"
  from ok have tab: "tables_ok m"
    by (rule model_okD)
  then have fresh: "fm_find (states m) ?i = None"
    using 2 by (intro fresh_id) (auto simp: tables_ok_def kMaxStates_def)
  have "tables_ok ?m"
    using tab 2 fresh indexes_insert [of node_name "states m" "state_index m" ?node ?i]
    by (auto simp: tables_ok_def container_simps kMaxStates_def intro!: dense_insert)
  moreover have "names_ok ?m"
    using model_okD(2) [OF ok] 2 fresh by (auto simp: names_ok_def container_simps)
  moreover have "node_ok ?m node" if "fm_find (states m) i = Some node" for i node
    using fresh by (intro node_ok_mono [OF model_okD(3) [OF ok that]])
      (auto simp: has_state_def container_simps)
  moreover have "node_ok ?m ?node"
    by (simp add: node_ok_def container_simps)
  ultimately have "model_ok ?m"
    using fresh by (auto simp: model_ok_def container_simps split: if_splits)
  with 2 show ?thesis
    by simp
qed

lemma model_ok_declare_trigger [inv_intros]:
  assumes ok: "model_ok m"
  shows "model_ok (fst (snd (declare_trigger name channel m)))"
proof (cases rule: declare_trigger_cases [of name channel m])
  case (fail s)
  with ok show ?thesis
    by simp
next
  case 2: (ok ch)
  let ?i = "word_of_nat (length (triggers m)) :: trigger_id"
  let ?d = "\<lparr>td_name = name, td_channel = ch\<rparr>"
  let ?m = "m\<lparr>triggers := fm_insert ?i ?d (triggers m), trigger_index := fm_insert name ?i (trigger_index m),
      channel_index := fm_insert ch ?i (channel_index m)\<rparr>"
  from ok have tab: "tables_ok m"
    by (rule model_okD)
  then have fresh: "fm_find (triggers m) ?i = None"
    using 2 by (intro fresh_id) (auto simp: tables_ok_def kMaxTriggers_def)
  have "tables_ok ?m"
    using tab 2 fresh indexes_insert [of td_name "triggers m" "trigger_index m" ?d ?i]
      indexes_insert [of td_channel "triggers m" "channel_index m" ?d ?i]
    by (auto simp: tables_ok_def container_simps kMaxTriggers_def intro!: dense_insert)
  moreover have "names_ok ?m"
    using model_okD(2) [OF ok] 2 fresh by (auto simp: names_ok_def container_simps)
  moreover have "node_ok ?m node" if "fm_find (states m) i = Some node" for i node
    using fresh by (intro node_ok_mono [OF model_okD(3) [OF ok that]])
      (auto simp: has_state_def container_simps)
  ultimately have "model_ok ?m"
    by (auto simp: model_ok_def)
  with 2 show ?thesis
    by simp
qed

section \<open>Adding a transition\<close>

lemma fm_modify_modify: "fm_modify k g (fm_modify k f m) = fm_modify k (g \<circ> f) m"
  by (induction k f m rule: fm_modify.induct) auto

lemma fm_modify_cong: "fm_find m k = Some v \<Longrightarrow> f v = g v \<Longrightarrow> fm_modify k f m = fm_modify k g m"
  by (induction k f m rule: fm_modify.induct) (auto simp: fm_find_def split: if_splits)

definition add_alternative :: "trigger_id \<Rightarrow> alternative \<Rightarrow> state_node \<Rightarrow> state_node" where
  "add_alternative trigger alt n =
     n\<lparr>transitions := fm_modify trigger (\<lambda>as. as @ [alt])
         (if fm_find (transitions n) trigger = None
          then fm_insert trigger [] (transitions n) else transitions n)\<rparr>"

lemma node_name_add_alternative [simp]: "node_name (add_alternative t alt n) = node_name n"
  by (simp add: add_alternative_def)

lemma find_add_alternative:
  "fm_find (transitions (add_alternative t alt n)) =
     (fm_find (transitions n))(t \<mapsto> (case fm_find (transitions n) t of None \<Rightarrow> [] | Some as \<Rightarrow> as) @ [alt])"
  by (auto simp: add_alternative_def container_simps fun_eq_iff split: option.splits)

definition alternatives_of :: "model \<Rightarrow> state_id \<Rightarrow> trigger_id \<Rightarrow> alternatives" where
  "alternatives_of m s t =
     (case fm_find (states m) s of
        None \<Rightarrow> []
      | Some n \<Rightarrow> (case fm_find (transitions n) t of None \<Rightarrow> [] | Some as \<Rightarrow> as))"

definition room_for :: "model \<Rightarrow> state_id \<Rightarrow> trigger_id \<Rightarrow> bool" where
  "room_for m s t \<longleftrightarrow> (\<exists>n. fm_find (states m) s = Some n \<and>
     (fm_find (transitions n) t = None \<longrightarrow> length (transitions n) < kMaxTransitionsPerState)) \<and>
     length (alternatives_of m s t) < kMaxAlternatives"

definition transition_fits :: "model \<Rightarrow> state_id \<Rightarrow> trigger_id \<Rightarrow> state_id \<Rightarrow> condition_list \<Rightarrow> bool" where
  "transition_fits m from t target guard \<longleftrightarrow>
     has_state m from \<and> fm_find (triggers m) t \<noteq> None \<and> has_state m target \<and>
     length (conditions m) + length guard \<le> kMaxConditions \<and> room_for m from t"

lemma add_transition_ok:
  assumes "transition_fits m from t target guard"
  shows "add_transition from t target guard m =
    (Ok, m\<lparr>conditions := conditions m @ guard,
           states := fm_modify from (add_alternative t
             \<lparr>first_condition = word_of_nat (length (conditions m)),
              condition_count = word_of_nat (length guard), alt_target = target\<rparr>) (states m)\<rparr>)"
proof -
  from assms obtain node where node: "fm_find (states m) from = Some node"
    and room: "fm_find (transitions node) t = None \<Longrightarrow> length (transitions node) < kMaxTransitionsPerState"
    and alts: "length (alternatives_of m from t) < kMaxAlternatives"
    by (auto simp: transition_fits_def room_for_def)
  show ?thesis
  proof (cases "fm_find (transitions node) t")
    case None
    with room have "\<not> fm_full kMaxTransitionsPerState (transitions node)"
      by (simp add: fm_full_def)
    with None node assms show ?thesis
      by (auto simp: add_transition_def transition_fits_def alternatives_for_def push_alternative_def
          fm_modify_modify kMaxAlternatives_def add_alternative_def
          intro!: arg_cong [where f = "\<lambda>s. m\<lparr>conditions := conditions m @ guard, states := s\<rparr>"]
            fm_modify_cong [OF node])
  next
    case (Some as)
    with node alts assms show ?thesis
      by (auto simp: add_transition_def transition_fits_def alternatives_for_def push_alternative_def
          alternatives_of_def add_alternative_def
          intro!: arg_cong [where f = "\<lambda>s. m\<lparr>conditions := conditions m @ guard, states := s\<rparr>"]
            fm_modify_cong [OF node])
  qed
qed

lemma add_transition_fail:
  assumes "\<not> transition_fits m from t target guard"
  shows "\<exists>s. s \<noteq> Ok \<and> add_transition from t target guard m = (s, m)"
  using assms
  by (auto simp: transition_fits_def add_transition_def alternatives_for_def room_for_def fm_full_def
      alternatives_of_def has_state_def kMaxAlternatives_def split: option.splits)

lemma add_transition_cases:
  obtains (fail) s where "\<not> transition_fits m from t target guard"
      "add_transition from t target guard m = (s, m)" "s \<noteq> Ok"
  | (ok) node alt where "transition_fits m from t target guard" "fm_find (states m) from = Some node"
      "alt = \<lparr>first_condition = word_of_nat (length (conditions m)),
              condition_count = word_of_nat (length guard), alt_target = target\<rparr>"
      "add_transition from t target guard m =
        (Ok, m\<lparr>conditions := conditions m @ guard, states := fm_modify from (add_alternative t alt) (states m)\<rparr>)"
proof (cases "transition_fits m from t target guard")
  case True
  then obtain node where "fm_find (states m) from = Some node"
    by (auto simp: transition_fits_def has_state_def)
  with True add_transition_ok [OF True] show thesis
    by (intro ok [OF True]) auto
next
  case False
  with add_transition_fail show thesis
    using fail by blast
qed

lemma node_ok_add_alternative:
  assumes "node_ok m n" and "alternative_ok m alt" and "fm_find (triggers m) t \<noteq> None"
    and "fm_find (transitions n) t = None \<Longrightarrow> length (transitions n) < kMaxTransitionsPerState"
    and "length (case fm_find (transitions n) t of None \<Rightarrow> [] | Some as \<Rightarrow> as) < kMaxAlternatives"
  shows "node_ok m (add_alternative t alt n)"
proof -
  have "fm_ok (transitions (add_alternative t alt n))"
    "length (transitions (add_alternative t alt n)) \<le> kMaxTransitionsPerState"
    using assms(1,4) by (auto simp: add_alternative_def node_ok_def container_simps)
  moreover have "list_all (alternative_ok m) (case fm_find (transitions n) t of None \<Rightarrow> [] | Some as \<Rightarrow> as)"
    using assms(1) by (auto simp: node_ok_def split: option.split)
  ultimately show ?thesis
    unfolding node_ok_def find_add_alternative using assms(1,2,3,5) by (auto simp: node_ok_def)
qed

lemma model_ok_add_transition [inv_intros]:
  assumes ok: "model_ok m" and guard: "length guard \<le> kMaxConditionsPerGuard"
  shows "model_ok (snd (add_transition from t target guard m))"
proof (cases rule: add_transition_cases [of m "from" t target guard])
  case (fail s)
  with ok show ?thesis
    by simp
next
  case 2: (ok node alt)
  let ?m = "m\<lparr>conditions := conditions m @ guard, states := fm_modify from (add_alternative t alt) (states m)\<rparr>"
  have tab: "tables_ok m"
    by (rule model_okD [OF ok])
  have fits: "length (conditions m) + length guard \<le> kMaxConditions" "has_state m target"
    "fm_find (triggers m) t \<noteq> None"
    using 2(1) by (simp_all add: transition_fits_def)
  have has: "has_state ?m i \<longleftrightarrow> has_state m i" for i
    by (auto simp: has_state_def container_simps)
  have "tables_ok ?m"
    using tab fits by (auto simp: tables_ok_def container_simps intro: dense_modify indexes_modify)
  moreover have "names_ok ?m"
    using model_okD(2) [OF ok] by (auto simp: names_ok_def container_simps split: if_splits)
  moreover have alt_ok: "alternative_ok ?m alt"
    using 2(3) fits guard has
    by (auto simp: alternative_ok_def kMaxConditions_def kMaxConditionsPerGuard_def)
  moreover have old: "node_ok ?m n" if "fm_find (states m) i = Some n" for i n
    using has by (intro node_ok_mono [OF model_okD(3) [OF ok that]]) auto
  moreover have "node_ok ?m (add_alternative t alt node)"
    using 2(1,2) alt_ok old [OF 2(2)]
    by (intro node_ok_add_alternative) (auto simp: transition_fits_def room_for_def alternatives_of_def)
  ultimately have "model_ok ?m"
    using 2(2) by (auto simp: model_ok_def container_simps split: if_splits)
  with 2 show ?thesis
    by simp
qed

section \<open>Models the builder can reach\<close>

inductive built :: "model \<Rightarrow> bool" where
  built_clear: "built model_clear"
| built_name: "built m \<Longrightarrow> built (snd (model_set_name name m))"
| built_state: "built m \<Longrightarrow> built (fst (snd (declare_state name m)))"
| built_trigger: "built m \<Longrightarrow> built (fst (snd (declare_trigger name channel m)))"
| built_transition: "built m \<Longrightarrow> length guard \<le> kMaxConditionsPerGuard \<Longrightarrow>
    built (snd (add_transition from t target guard m))"

lemma built_model_ok: "built m \<Longrightarrow> model_ok m"
  by (induction rule: built.induct) (auto intro: inv_intros)

lemma model_ok_validate: "model_ok m \<Longrightarrow> validate m = (if states m = [] then SchemaError else Ok)"
proof -
  assume ok: "model_ok m"
  then have "fm_ok (states m)"
    by (auto simp: model_ok_def tables_ok_def intro: dense_fm_ok)
  then have node: "node_ok m (snd e)" if "e \<in> set (states m)" for e
    using that model_okD(3) [OF ok, of "fst e" "snd e"] fm_find_iff [of "states m" "fst e" "snd e"]
    by simp
  have "first_error (\<lambda>tr. if fm_find (triggers m) (fst tr) = None then UnknownTrigger
             else if snd tr = [] then SchemaError
             else first_error (validate_alternative m) (snd tr)) (transitions (snd e)) = Ok"
    if "e \<in> set (states m)" for e
  proof -
    have "fm_find (transitions (snd e)) (fst tr) = Some (snd tr)" if "tr \<in> set (transitions (snd e))" for tr
      using that node [OF \<open>e \<in> set (states m)\<close>]
        fm_find_iff [of "transitions (snd e)" "fst tr" "snd tr"] by (simp add: node_ok_def)
    with node [OF that] show ?thesis
      by (fastforce simp: first_error_Ok_iff node_ok_def validate_alternative_def alternative_ok_def
          Let_def list_all_iff)
  qed
  then show ?thesis
    by (simp add: validate_def first_error_Ok_iff)
qed

section \<open>The machine a model stands for\<close>

text \<open>
  The abstract machine: for a state and a trigger the ordered list of outcomes, each a list
  of conditions and a target. Pool, slices, identifiers and capacities are gone.
\<close>

definition guard_of :: "model \<Rightarrow> alternative \<Rightarrow> condition list" where
  "guard_of m alt = take (unat (condition_count alt)) (drop (unat (first_condition alt)) (conditions m))"

definition behaviour :: "model \<Rightarrow> state_id \<Rightarrow> trigger_id \<Rightarrow> (condition list \<times> state_id) list" where
  "behaviour m s t = map (\<lambda>alt. (guard_of m alt, alt_target alt)) (alternatives_of m s t)"

definition guard_holds :: "args \<Rightarrow> condition list \<Rightarrow> bool" where
  "guard_holds a g \<longleftrightarrow> list_all (\<lambda>c. condition_evaluate c a) g"

definition decide :: "(condition list \<times> state_id) list \<Rightarrow> args \<Rightarrow> decision \<times> state_id" where
  "decide outcomes a =
     (if outcomes = [] then (DecisionNoTransition, kNoState)
      else case first_match (\<lambda>(g, target). guard_holds a g) outcomes of
             None \<Rightarrow> (DecisionGuardRejected, kNoState)
           | Some (g, target) \<Rightarrow> (DecisionAccepted, target))"

lemma conditions_hold_iff:
  "index + n \<le> length pool \<Longrightarrow>
   conditions_hold pool a index n \<longleftrightarrow> guard_holds a (take n (drop index pool))"
proof (induction pool a index n rule: conditions_hold.induct)
  case (2 pool a index n)
  then have "take (Suc n) (drop index pool) = pool ! index # take n (drop (Suc index) pool)"
    by (simp add: Cons_nth_drop_Suc [symmetric])
  with 2 show ?case
    by (simp add: guard_holds_def)
qed (simp add: guard_holds_def)

lemma conditions_hold_out: "0 < n \<Longrightarrow> length pool < index + n \<Longrightarrow> \<not> conditions_hold pool a index n"
  by (induction pool a index n rule: conditions_hold.induct) auto

lemma alternative_holds_iff:
  "alternative_ok m alt \<Longrightarrow> alternative_holds (conditions m) a alt \<longleftrightarrow> guard_holds a (guard_of m alt)"
  by (simp add: alternative_holds_def alternative_ok_def conditions_hold_iff guard_of_def)

lemma take_first_match:
  "list_all (alternative_ok m) alts \<Longrightarrow>
   take_first (conditions m) a alts =
     (case first_match (\<lambda>(g, target). guard_holds a g) (map (\<lambda>alt. (guard_of m alt, alt_target alt)) alts) of
        None \<Rightarrow> (DecisionGuardRejected, kNoState)
      | Some (g, target) \<Rightarrow> (DecisionAccepted, target))"
  by (induction alts) (auto simp: alternative_holds_iff)

lemma alternatives_of_ok:
  assumes "model_ok m"
  shows "list_all (alternative_ok m) (alternatives_of m s t)"
    and "length (alternatives_of m s t) \<le> kMaxAlternatives"
    and "fm_find (states m) s = Some n \<Longrightarrow> fm_find (transitions n) t \<noteq> None \<Longrightarrow> alternatives_of m s t \<noteq> []"
  using model_okD(3) [OF assms] by (auto simp: alternatives_of_def node_ok_def split: option.splits)

text \<open>What the loops over the tables meet.\<close>

lemma alternatives_short:
  assumes "model_ok m" and "(s, node) \<in> set (states m)" and "(t, alts) \<in> set (transitions node)"
  shows "alternatives_of m s t = alts" "length alts \<le> kMaxAlternatives" "model_state m s = Some node"
    "fm_find (transitions node) t = Some alts"
proof -
  have "fm_ok (states m)"
    using model_okD(1) [OF assms(1)] by (simp add: tables_ok_def dense_fm_ok)
  with assms(2) have s: "fm_find (states m) s = Some node"
    by (simp add: fm_find_iff)
  then have n: "node_ok m node"
    by (rule model_okD [OF assms(1)])
  with assms(3) show t: "fm_find (transitions node) t = Some alts"
    by (simp add: node_ok_def fm_find_iff)
  with n show "length alts \<le> kMaxAlternatives"
    by (simp add: node_ok_def)
  show "alternatives_of m s t = alts" "model_state m s = Some node"
    using s t by (simp_all add: alternatives_of_def model_state_def)
qed

lemma evaluate_decide:
  assumes "model_ok m"
  shows "model_evaluate m s t a = decide (behaviour m s t) a"
proof (cases "alternatives_of m s t = []")
  case True
  then have "\<And>n. fm_find (states m) s = Some n \<Longrightarrow> fm_find (transitions n) t = None"
    using alternatives_of_ok(3) [OF assms] by blast
  with True show ?thesis
    by (auto simp: decide_def behaviour_def model_evaluate_def model_state_def split: option.splits)
next
  case False
  then obtain n where n: "fm_find (states m) s = Some n" "fm_find (transitions n) t = Some (alternatives_of m s t)"
    by (auto simp: alternatives_of_def split: option.splits)
  with False take_first_match [OF alternatives_of_ok(1) [OF assms], of a s t] show ?thesis
    by (simp add: decide_def behaviour_def model_evaluate_def model_state_def)
qed

lemma behaviour_add_transition:
  assumes ok: "model_ok m" and guard: "length guard \<le> kMaxConditionsPerGuard"
    and fits: "transition_fits m from t target guard"
  shows "behaviour (snd (add_transition from t target guard m)) s u =
    (if s = from \<and> u = t then behaviour m s u @ [(guard, target)] else behaviour m s u)"
proof (cases rule: add_transition_cases [of m "from" t target guard])
  case (fail s)
  with fits show ?thesis
    by simp
next
  case 2: (ok node alt)
  let ?m = "m\<lparr>conditions := conditions m @ guard, states := fm_modify from (add_alternative t alt) (states m)\<rparr>"
  have cap: "length (conditions m) \<le> 64"
    using model_okD(1) [OF ok] by (simp add: tables_ok_def kMaxConditions_def)
  have alts: "alternatives_of ?m s u = (if s = from \<and> u = t then alternatives_of m s u @ [alt] else alternatives_of m s u)"
    using 2(2) by (auto simp: alternatives_of_def container_simps find_add_alternative split: option.splits)
  have "guard_of ?m alt = guard"
    using cap guard by (simp add: 2(3) guard_of_def kMaxConditionsPerGuard_def)
  moreover have "guard_of ?m b = guard_of m b" if "b \<in> set (alternatives_of m s u)" for b
    using that alternatives_of_ok(1) [OF ok, of s u]
    by (auto simp: guard_of_def alternative_ok_def list_all_iff)
  moreover have "alt_target alt = target"
    by (simp add: 2(3))
  ultimately show ?thesis
    unfolding 2(4) snd_conv behaviour_def alts by simp
qed

section \<open>Names and routing\<close>

lemma state_id_bound: "tables_ok m \<Longrightarrow> fm_find (states m) i = Some n \<Longrightarrow> unat i < length (states m)"
  using dense_find_None [of "states m" i] by (auto simp: tables_ok_def)

lemma trigger_id_bound: "tables_ok m \<Longrightarrow> fm_find (triggers m) i = Some d \<Longrightarrow> unat i < length (triggers m)"
  using dense_find_None [of "triggers m" i] by (auto simp: tables_ok_def)

lemma state_id_not_none: "tables_ok m \<Longrightarrow> fm_find (states m) i = Some n \<Longrightarrow> i \<noteq> kNoState"
  using state_id_bound [of m i n] by (auto simp: tables_ok_def kNoState_def kMaxStates_def)

lemma trigger_id_not_none: "tables_ok m \<Longrightarrow> fm_find (triggers m) i = Some d \<Longrightarrow> i \<noteq> kNoTrigger"
  using trigger_id_bound [of m i d] by (auto simp: tables_ok_def kNoTrigger_def kMaxTriggers_def)

lemma no_such_state: "tables_ok m \<Longrightarrow> \<not> has_state m kNoState"
  using state_id_not_none [of m kNoState]
  by (cases "fm_find (states m) kNoState") (auto simp: has_state_def)

lemma index_lookup_iff:
  assumes ix: "indexes f defs index" and short: "\<And>i d. fm_find defs i = Some d \<Longrightarrow> length (f d) \<le> cap"
    and ne: "i \<noteq> none"
  shows "(if length n \<le> cap then case fm_find index n of None \<Rightarrow> none | Some j \<Rightarrow> j else none) = i \<longleftrightarrow>
    (\<exists>d. fm_find defs i = Some d \<and> f d = n)"
proof (cases "length n \<le> cap")
  case True
  with ne have "(if length n \<le> cap then case fm_find index n of None \<Rightarrow> none | Some j \<Rightarrow> j else none) = i
      \<longleftrightarrow> fm_find index n = Some i"
    by (auto split: option.splits)
  with ix show ?thesis
    by (simp add: indexes_def)
next
  case False
  with short ne show ?thesis
    by auto
qed

lemma find_state_iff:
  assumes "model_ok m" and "i \<noteq> kNoState"
  shows "find_state m name = i \<longleftrightarrow> (\<exists>n. model_state m i = Some n \<and> node_name n = name)"
proof -
  have "indexes node_name (states m) (state_index m)"
    using assms by (simp add: model_ok_def tables_ok_def)
  moreover have "length (node_name n) \<le> kMaxNameLength" if "fm_find (states m) j = Some n" for j n
    using model_okD(2) [OF assms(1)] that by (auto simp: names_ok_def)
  ultimately show ?thesis
    using index_lookup_iff [of node_name "states m" "state_index m" kMaxNameLength i kNoState name] assms(2)
    by (simp add: find_state_def text_simps model_state_def split: if_splits)
qed

lemma find_trigger_iff:
  assumes "model_ok m" and "i \<noteq> kNoTrigger"
  shows "find_trigger m name = i \<longleftrightarrow> (\<exists>d. model_trigger m i = Some d \<and> td_name d = name)"
proof -
  have "indexes td_name (triggers m) (trigger_index m)"
    using assms by (simp add: model_ok_def tables_ok_def)
  moreover have "length (td_name d) \<le> kMaxNameLength" if "fm_find (triggers m) j = Some d" for j d
    using model_okD(2) [OF assms(1)] that by (auto simp: names_ok_def)
  ultimately show ?thesis
    using index_lookup_iff [of td_name "triggers m" "trigger_index m" kMaxNameLength i kNoTrigger name] assms(2)
    by (simp add: find_trigger_def text_simps model_trigger_def split: if_splits)
qed

lemma find_trigger_for_channel_iff:
  assumes "model_ok m" and "i \<noteq> kNoTrigger"
  shows "find_trigger_for_channel m name = i \<longleftrightarrow> (\<exists>d. model_trigger m i = Some d \<and> td_channel d = name)"
proof -
  have "indexes td_channel (triggers m) (channel_index m)"
    using assms by (simp add: model_ok_def tables_ok_def)
  moreover have "length (td_channel d) \<le> kMaxChannelLength" if "fm_find (triggers m) j = Some d" for j d
    using model_okD(2) [OF assms(1)] that by (auto simp: names_ok_def)
  ultimately show ?thesis
    using index_lookup_iff [of td_channel "triggers m" "channel_index m" kMaxChannelLength i kNoTrigger name] assms(2)
    by (simp add: find_trigger_for_channel_def text_simps model_trigger_def split: if_splits)
qed

lemma find_state_has: "model_ok m \<Longrightarrow> find_state m name \<noteq> kNoState \<Longrightarrow> has_state m (find_state m name)"
  using find_state_iff [of m "find_state m name" name] by (auto simp: has_state_def model_state_def)

lemma find_trigger_has:
  "model_ok m \<Longrightarrow> find_trigger m name \<noteq> kNoTrigger \<Longrightarrow> fm_find (triggers m) (find_trigger m name) \<noteq> None"
  using find_trigger_iff [of m "find_trigger m name" name] by (auto simp: model_trigger_def)

lemma state_index_size: "model_ok m \<Longrightarrow> length (state_index m) = length (states m)"
  by (simp add: model_ok_def tables_ok_def indexes_def)

lemma find_state_none_iff:
  assumes "model_ok m" and "length name \<le> kMaxNameLength"
  shows "find_state m name = kNoState \<longleftrightarrow> fm_find (state_index m) name = None"
proof -
  have "j \<noteq> kNoState" if "fm_find (state_index m) name = Some j" for j
  proof -
    have tab: "tables_ok m"
      by (rule model_okD [OF assms(1)])
    then have "indexes node_name (states m) (state_index m)"
      by (simp add: tables_ok_def)
    from indexes_find [OF this that] state_id_not_none [OF tab] show ?thesis
      by blast
  qed
  with assms(2) show ?thesis
    by (auto simp: find_state_def text_simps split: option.splits)
qed

section \<open>A small machine\<close>

text \<open>
  Two states, two triggers, a guarded alternative with a fallback: the machine on which
  statements about models are tried out.
\<close>

definition pedal_guard :: condition where
  "pedal_guard = \<lparr>cond_arg = ''pedal'', cond_op = Greater, cond_numeric = True, cond_number = 5,
     cond_literal = []\<rparr>"

definition sample_model :: model where
  "sample_model =
     (let m = fst (snd (declare_trigger ''go'' [] model_clear));
          m = fst (snd (declare_trigger ''halt'' ''brakes/on'' m));
          m = fst (snd (declare_state ''idle'' m));
          m = fst (snd (declare_state ''running'' m));
          m = snd (add_transition 0 0 1 [pedal_guard] m);
          m = snd (add_transition 0 0 0 [] m)
      in snd (add_transition 1 1 0 [] m))"

lemma sample_model_built: "built sample_model"
  unfolding sample_model_def Let_def
  by (intro built.intros) (simp_all add: kMaxConditionsPerGuard_def)

lemma sample_model_ok: "model_ok sample_model"
  by (rule built_model_ok [OF sample_model_built])

lemma sample_states_ne: "states sample_model \<noteq> []"
  by code_simp

section \<open>What the model promises\<close>

text \<open>C13: every model that the build operations can produce from the empty one satisfies the
  model invariant: dense identifiers, exact name and channel indexes, known triggers and
  targets, nonempty bounded alternative lists, condition slices inside the pool, every
  container within its capacity.\<close>

theorem build_operations_invariant: "built m \<Longrightarrow> model_ok m"
  by (rule built_model_ok)

theorem build_operations_invariant_witness: "model_ok sample_model"
  by (rule build_operations_invariant) (rule sample_model_built)

text \<open>\<open>validate\<close> accepts every model the build operations produce, provided it has a
  state; its error branches for dangling references are unreachable through them.\<close>

theorem built_models_validate: "built m \<Longrightarrow> validate m = (if states m = [] then SchemaError else Ok)"
  by (rule model_ok_validate [OF built_model_ok])

theorem built_models_validate_witness: "validate sample_model = Ok"
  using built_models_validate [OF sample_model_built] by (simp add: sample_states_ne)

text \<open>C12: \<open>evaluate\<close> implements the abstract machine: no outcome listed gives no transition,
  otherwise the first outcome in order all of whose conditions hold for the arguments is
  taken, and if there is none the trigger is refused by its guards.\<close>

theorem evaluate_refines:
  assumes "model_ok m"
  shows "model_evaluate m s t a = decide (behaviour m s t) a"
  using assms by (rule evaluate_decide)

theorem evaluate_refines_witness:
  "model_evaluate sample_model 0 0 args_none = decide (behaviour sample_model 0 0) args_none"
  by (rule evaluate_refines) (rule sample_model_ok)

text \<open>C14: \<open>add_transition\<close> succeeds exactly when the states and the trigger exist and the
  pool, the state and the list of alternatives have room; it then appends one outcome at
  the end of the list of that state and trigger and changes no other outcome, and on any
  error the model is unchanged.\<close>

theorem add_transition_refines:
  assumes "model_ok m" and "length guard \<le> kMaxConditionsPerGuard"
  shows "case add_transition from t target guard m of (status, m') \<Rightarrow>
    (status = Ok \<longleftrightarrow> transition_fits m from t target guard) \<and>
    (if status = Ok
     then \<forall>s u. behaviour m' s u =
            (if s = from \<and> u = t then behaviour m s u @ [(guard, target)] else behaviour m s u)
     else m' = m)"
proof (cases rule: add_transition_cases [of m "from" t target guard])
  case (fail s)
  then show ?thesis
    by simp
next
  case 2: (ok node alt)
  then show ?thesis
    using behaviour_add_transition [OF assms 2(1)] by simp
qed

theorem add_transition_refines_witness:
  "case add_transition 1 0 1 [pedal_guard] sample_model of (status, m') \<Rightarrow>
    (status = Ok \<longleftrightarrow> transition_fits sample_model 1 0 1 [pedal_guard]) \<and>
    (if status = Ok
     then \<forall>s u. behaviour m' s u =
            (if s = 1 \<and> u = 0 then behaviour sample_model s u @ [([pedal_guard], 1)] else behaviour sample_model s u)
     else m' = sample_model)"
  by (rule add_transition_refines) (simp_all add: sample_model_ok kMaxConditionsPerGuard_def)

text \<open>\<open>declare_state\<close> gives a new, short, nonempty name the next identifier while there is
  room, after which the name finds that identifier, the identifier has that name and no other
  name resolves differently; in every other case the model is unchanged and the identifier
  is \<open>kNoState\<close>.\<close>

theorem declare_state_spec:
  assumes "model_ok m"
  shows "case declare_state name m of (status, m', i) \<Rightarrow>
    (status = Ok \<longleftrightarrow> name \<noteq> [] \<and> length name \<le> kMaxNameLength \<and> length (states m) < kMaxStates \<and>
       find_state m name = kNoState) \<and>
    (if status = Ok
     then i = word_of_nat (length (states m)) \<and> state_count m' = Suc (state_count m) \<and>
       state_name m' i = name \<and> find_state m' name = i \<and>
       (\<forall>other. other = name \<or> find_state m' other = find_state m other)
     else m' = m \<and> i = kNoState)"
proof (cases rule: declare_state_cases [of name m])
  case (fail s)
  moreover have "\<not> (name \<noteq> [] \<and> length name \<le> kMaxNameLength \<and> length (states m) < kMaxStates \<and>
      find_state m name = kNoState)"
    using fail state_index_size [OF assms] find_state_none_iff [OF assms, of name]
    by (auto simp: declare_state_def fm_full_def text_simps Let_def split: if_splits)
  ultimately show ?thesis
    by simp
next
  case 2: ok
  define i where "i = (word_of_nat (length (states m)) :: state_id)"
  define node where "node = \<lparr>node_name = name, transitions = []\<rparr>"
  define m' where "m' = m\<lparr>states := fm_insert i node (states m), state_index := fm_insert name i (state_index m)\<rparr>"
  have fresh: "fm_find (states m) i = None"
    using model_okD(1) [OF assms] 2(2) unfolding i_def
    by (intro fresh_id) (auto simp: tables_ok_def kMaxStates_def)
  have "state_name m' i = name" "state_count m' = Suc (state_count m)"
    using fresh by (simp_all add: state_name_def model_state_def state_count_def m'_def node_def container_simps)
  moreover have "find_state m' name = i" "other = name \<or> find_state m' other = find_state m other" for other
    using 2(3,4) by (auto simp: find_state_def m'_def text_simps container_simps)
  moreover have "find_state m name = kNoState"
    using 2(3,4) by (simp add: find_state_none_iff [OF assms])
  moreover have "declare_state name m = (Ok, m', i)"
    using 2(5) by (simp add: m'_def i_def node_def)
  ultimately show ?thesis
    using 2(1,2,3) i_def by simp
qed


theorem declare_state_spec_witness:
  "case declare_state ''parked'' sample_model of (status, m', i) \<Rightarrow>
    (status = Ok \<longleftrightarrow> ''parked'' \<noteq> [] \<and> length ''parked'' \<le> kMaxNameLength \<and>
       length (states sample_model) < kMaxStates \<and> find_state sample_model ''parked'' = kNoState) \<and>
    (if status = Ok
     then i = word_of_nat (length (states sample_model)) \<and>
       state_count m' = Suc (state_count sample_model) \<and>
       state_name m' i = ''parked'' \<and> find_state m' ''parked'' = i \<and>
       (\<forall>other. other = ''parked'' \<or> find_state m' other = find_state sample_model other)
     else m' = sample_model \<and> i = kNoState)"
  by (rule declare_state_spec) (rule sample_model_ok)

text \<open>Routing is exact: a channel resolves to a trigger identifier precisely when that
  trigger declares the channel, so no two triggers share one and none is lost.\<close>

theorem channel_routing_exact:
  assumes "model_ok m"
  shows "find_trigger_for_channel m channel \<noteq> kNoTrigger \<and> find_trigger_for_channel m channel = i \<longleftrightarrow>
    (\<exists>d. model_trigger m i = Some d \<and> td_channel d = channel)"
proof (cases "i = kNoTrigger")
  case True
  with trigger_id_not_none [OF model_okD(1) [OF assms], of i] show ?thesis
    by (auto simp: model_trigger_def)
next
  case False
  with find_trigger_for_channel_iff [OF assms False, of channel] show ?thesis
    by metis
qed

theorem channel_routing_exact_witness:
  "find_trigger_for_channel sample_model ''brakes/on'' \<noteq> kNoTrigger \<and>
   find_trigger_for_channel sample_model ''brakes/on'' = 1 \<longleftrightarrow>
    (\<exists>d. model_trigger sample_model 1 = Some d \<and> td_channel d = ''brakes/on'')"
  by (rule channel_routing_exact) (rule sample_model_ok)

end
