(* ===== verification/DeploymentSetup.thy ===== *)
theory DeploymentSetup
  imports MachineModel
begin

text \<open>
  include/fms/io_config.hpp, include/fms/setup.hpp and src/setup.cpp: the deployment half
  of the configuration, and the one check that spans both halves, that the initial state
  named by the setup exists in the model.
\<close>

section \<open>The setup\<close>

record io_config =
  state_channel :: string
  error_channel :: string
  endpoint :: string
  identity :: string

definition empty_io :: io_config where
  "empty_io = \<lparr>state_channel = [], error_channel = [], endpoint = [], identity = []\<rparr>"

record deployment =
  setup_name :: string
  initial_name :: string
  setup_io :: io_config

definition setup_clear :: deployment where
  "setup_clear = \<lparr>setup_name = [], initial_name = [], setup_io = empty_io\<rparr>"

definition setup_set_name :: "string \<Rightarrow> deployment \<Rightarrow> status \<times> deployment" where
  "setup_set_name name s =
     (let (fits, stored) = assign_checked kMaxNameLength (setup_name s) name
      in (if fits then Ok else NameTooLong, s\<lparr>setup_name := stored\<rparr>))"

definition setup_set_initial :: "string \<Rightarrow> deployment \<Rightarrow> status \<times> deployment" where
  "setup_set_initial name s =
     (if name = [] then (InvalidArgument, s)
      else
        let (fits, stored) = assign_checked kMaxNameLength (initial_name s) name
        in (if fits then Ok else NameTooLong, s\<lparr>initial_name := stored\<rparr>))"

definition initial_in :: "deployment \<Rightarrow> model \<Rightarrow> state_id" where
  "initial_in s m = find_state m (initial_name s)"

definition validate_against :: "deployment \<Rightarrow> model \<Rightarrow> status" where
  "validate_against s m =
     (if initial_name s = [] then SchemaError
      else if initial_in s m = kNoState then UnknownState else Ok)"

section \<open>What binding a setup to a model means\<close>

lemma validate_against_Ok:
  assumes "model_ok m"
  shows "validate_against s m = Ok \<longleftrightarrow>
    (\<exists>i n. model_state m i = Some n \<and> node_name n = initial_name s \<and> initial_in s m = i)"
proof
  assume "validate_against s m = Ok"
  then have "initial_in s m \<noteq> kNoState"
    by (auto simp: validate_against_def split: if_splits)
  with find_state_iff [OF assms this, of "initial_name s"]
  show "\<exists>i n. model_state m i = Some n \<and> node_name n = initial_name s \<and> initial_in s m = i"
    by (auto simp: initial_in_def)
next
  assume "\<exists>i n. model_state m i = Some n \<and> node_name n = initial_name s \<and> initial_in s m = i"
  then obtain n where n: "model_state m (initial_in s m) = Some n" "node_name n = initial_name s"
    by blast
  have "initial_name s \<noteq> []"
    using n model_okD(2) [OF assms] by (auto simp: names_ok_def model_state_def)
  moreover have "initial_in s m \<noteq> kNoState"
    using n(1) state_id_not_none [OF model_okD(1) [OF assms]] by (simp add: model_state_def)
  ultimately show "validate_against s m = Ok"
    by (simp add: validate_against_def)
qed

lemma validate_against_has_state:
  "model_ok m \<Longrightarrow> validate_against s m = Ok \<Longrightarrow> has_state m (initial_in s m)"
  by (auto simp: validate_against_Ok has_state_def model_state_def)

definition sample_setup :: deployment where
  "sample_setup = \<lparr>setup_name = ''bench'', initial_name = ''idle'', setup_io = empty_io\<rparr>"

end
