(* ===== verification/YamlLoader.thy ===== *)
theory YamlLoader
  imports DeploymentSetup
begin

text \<open>
  include/fms/yaml_loader.hpp and src/config/yaml_loader.cpp: the configuration front end.
  yaml-cpp is not part of the repository; it is the argument \<open>yaml_ops\<close>, a record of the
  node operations the loader calls, over any type of nodes. A call that can throw returns a
  sum, \<open>Inl\<close> the exception, and \<open>attempt\<close> passes exceptions on. The file system and
  \<open>strerror\<close> are arguments too. A loader returns its status, the target and the
  diagnostics afterwards.
\<close>

section \<open>Exceptions and the YAML library\<close>

text \<open>What the three handlers of \<open>guarded\<close> tell apart.\<close>

datatype failure =
    YamlError int string  \<comment> \<open>\<open>YAML::Exception\<close>: the line of its mark, its text\<close>
  | StdError string  \<comment> \<open>any other \<open>std::exception\<close>\<close>
  | OtherError

definition attempt :: "'e + 'a \<Rightarrow> ('a \<Rightarrow> 'e + 'b) \<Rightarrow> 'e + 'b" where
  "attempt x f = (case x of Inl e \<Rightarrow> Inl e | Inr v \<Rightarrow> f v)"

text \<open>
  The node operations in use: definedness (\<open>operator bool\<close>), the kind tests, \<open>size\<close>,
  lookup by key, \<open>as<std::string>\<close>, the line of \<open>Mark\<close>, iteration over a sequence and
  over a mapping, and parsing a text or a stream.
\<close>

record 'n yaml_ops =
  yn_defined :: "'n \<Rightarrow> bool"
  yn_is_map :: "'n \<Rightarrow> failure + bool"
  yn_is_sequence :: "'n \<Rightarrow> failure + bool"
  yn_is_scalar :: "'n \<Rightarrow> failure + bool"
  yn_size :: "'n \<Rightarrow> failure + nat"
  yn_get :: "'n \<Rightarrow> string \<Rightarrow> failure + 'n"
  yn_string :: "'n \<Rightarrow> failure + string"
  yn_line :: "'n \<Rightarrow> failure + int"
  yn_elements :: "'n \<Rightarrow> failure + 'n list"
  yn_pairs :: "'n \<Rightarrow> failure + ('n \<times> 'n) list"
  yn_load_text :: "string \<Rightarrow> failure + 'n"
  yn_load_stream :: "string \<Rightarrow> failure + 'n"

section \<open>Diagnostics\<close>

record diagnostics =
  diag_status :: status
  diag_message :: string
  diag_line :: int

definition diagnostics_reset :: diagnostics where
  "diagnostics_reset = \<lparr>diag_status = Ok, diag_message = [], diag_line = - 1\<rparr>"

text \<open>\<open>printf\<close> formatting for the one conversion in use, \<open>%s\<close>, of C strings.\<close>

fun format_s :: "string \<Rightarrow> string list \<Rightarrow> string" where
  "format_s [] args = []"
| "format_s (c # fmt) [] = c # fmt"
| "format_s (c # fmt) (a # args) =
     (if c = CHR ''%'' \<and> take 1 fmt = ''s'' then cstr a @ format_s (drop 1 fmt) args
      else c # format_s fmt (a # args))"

definition set_message :: "status \<Rightarrow> int \<Rightarrow> string \<Rightarrow> string list \<Rightarrow> diagnostics \<Rightarrow> diagnostics" where
  "set_message status line fmt args d =
     (let d = d\<lparr>diag_status := status, diag_line := line\<rparr>;
          buffer = take kMaxMessageLength (format_s fmt args);
          len = length (cstr buffer);
          len = (if kMaxMessageLength < len then kMaxMessageLength else len)
      in d\<lparr>diag_message := take len buffer\<rparr>)"

definition line_of_node :: "'n yaml_ops \<Rightarrow> 'n \<Rightarrow> failure + int" where
  "line_of_node ops node =
     (if yn_defined ops node then attempt (yn_line ops node) (\<lambda>line. Inr (line + 1)) else Inr (- 1))"

text \<open>
  \<open>set_message(diagnostics, status, line_of(node), ...)\<close> followed by the return of the
  status, with the target as it is by then.
\<close>

definition report_at ::
  "'n yaml_ops \<Rightarrow> status \<Rightarrow> 'n \<Rightarrow> string \<Rightarrow> string list \<Rightarrow> 't \<Rightarrow> diagnostics \<Rightarrow>
     failure + status \<times> 't \<times> diagnostics" where
  "report_at ops status node fmt args target d =
     attempt (line_of_node ops node) (\<lambda>line. Inr (status, target, set_message status line fmt args d))"

text \<open>The flag returned and the string of capacity \<open>cap\<close> afterwards.\<close>

definition read_string :: "'n yaml_ops \<Rightarrow> 'n \<Rightarrow> nat \<Rightarrow> string \<Rightarrow> failure + bool \<times> string" where
  "read_string ops node cap out =
     attempt (yn_string ops node) (\<lambda>value.
       Inr (if cap < length value then (False, out) else (True, value)))"

text \<open>\<open>node["key"]\<close> tested for definedness.\<close>

definition has_key :: "'n yaml_ops \<Rightarrow> 'n \<Rightarrow> string \<Rightarrow> failure + bool" where
  "has_key ops node key = attempt (yn_get ops node key) (\<lambda>child. Inr (yn_defined ops child))"

text \<open>\<open>node.IsMap() && node["key"]\<close>.\<close>

definition is_map_with :: "'n yaml_ops \<Rightarrow> 'n \<Rightarrow> string \<Rightarrow> failure + bool" where
  "is_map_with ops node key =
     attempt (yn_is_map ops node) (\<lambda>is_map. if is_map then has_key ops node key else Inr False)"

text \<open>\<open>node["key"].as<std::string>()\<close>.\<close>

definition string_at :: "'n yaml_ops \<Rightarrow> 'n \<Rightarrow> string \<Rightarrow> failure + string" where
  "string_at ops node key = attempt (yn_get ops node key) (yn_string ops)"

definition reject_foreign_section ::
  "'n yaml_ops \<Rightarrow> 'n \<Rightarrow> string \<Rightarrow> string \<Rightarrow> diagnostics \<Rightarrow> failure + bool \<times> diagnostics" where
  "reject_foreign_section ops root key belongs_in d =
     attempt (yn_get ops root key) (\<lambda>node.
       if \<not> yn_defined ops node then Inr (False, d)
       else attempt (line_of_node ops node) (\<lambda>line.
         Inr (True, set_message SchemaError line (quote @ ''%s' belongs in the %s file'') [key, belongs_in] d)))"

section \<open>The setup file\<close>

text \<open>One optional string of the section \<open>io\<close>, refused with \<open>status\<close> when too long.\<close>

definition read_io_field ::
  "'n yaml_ops \<Rightarrow> 'n \<Rightarrow> string \<Rightarrow> nat \<Rightarrow> status \<Rightarrow> (io_config \<Rightarrow> string) \<Rightarrow>
     ((string \<Rightarrow> string) \<Rightarrow> io_config \<Rightarrow> io_config) \<Rightarrow> deployment \<Rightarrow> diagnostics \<Rightarrow>
     failure + status \<times> deployment \<times> diagnostics" where
  "read_io_field ops node key cap status field update s d =
     attempt (has_key ops node key) (\<lambda>present.
       if \<not> present then Inr (Ok, s, d)
       else attempt (yn_get ops node key) (\<lambda>child.
         attempt (read_string ops child cap (field (setup_io s))) (\<lambda>(fits, stored).
           let s = s\<lparr>setup_io := update (\<lambda>_. stored) (setup_io s)\<rparr>
           in if fits then Inr (Ok, s, d)
              else report_at ops status child (''io.'' @ key @ '' is too long'') [] s d)))"

text \<open>The next statement runs only after one that did not return an error.\<close>

definition and_then ::
  "failure + status \<times> 't \<times> diagnostics \<Rightarrow> ('t \<Rightarrow> diagnostics \<Rightarrow> failure + status \<times> 't \<times> diagnostics) \<Rightarrow>
     failure + status \<times> 't \<times> diagnostics" where
  "and_then r next = attempt r (\<lambda>(status, target, d).
     if is_ok status then next target d else Inr (status, target, d))"

definition parse_io ::
  "'n yaml_ops \<Rightarrow> 'n \<Rightarrow> deployment \<Rightarrow> diagnostics \<Rightarrow> failure + status \<times> deployment \<times> diagnostics" where
  "parse_io ops root s d =
     attempt (yn_get ops root ''io'') (\<lambda>node.
       if \<not> yn_defined ops node then Inr (Ok, s, d)
       else attempt (yn_is_map ops node) (\<lambda>is_map.
         if \<not> is_map then report_at ops SchemaError node (quote @ ''io' must be a mapping'') [] s d
         else
           and_then (read_io_field ops node ''state_channel'' kMaxChannelLength ChannelTooLong
                       state_channel state_channel_update s d) (\<lambda>s d.
           and_then (read_io_field ops node ''error_channel'' kMaxChannelLength ChannelTooLong
                       error_channel error_channel_update s d) (\<lambda>s d.
           and_then (read_io_field ops node ''endpoint'' kMaxChannelLength ChannelTooLong
                       endpoint endpoint_update s d) (\<lambda>s d.
           read_io_field ops node ''identity'' kMaxNameLength NameTooLong identity identity_update s d)))))"

definition parse_setup ::
  "'n yaml_ops \<Rightarrow> 'n \<Rightarrow> deployment \<Rightarrow> diagnostics \<Rightarrow> failure + status \<times> deployment \<times> diagnostics" where
  "parse_setup ops root s d =
     attempt (yn_is_map ops root) (\<lambda>root_is_map.
     if \<not> root_is_map then report_at ops SchemaError root ''the document root must be a mapping'' [] s d
     else attempt (reject_foreign_section ops root ''states'' ''machine'' d) (\<lambda>(foreign, d).
     if foreign then Inr (SchemaError, s, d)
     else attempt (reject_foreign_section ops root ''triggers'' ''machine'' d) (\<lambda>(foreign, d).
     if foreign then Inr (SchemaError, s, d)
     else attempt (yn_get ops root ''fsm'') (\<lambda>fsm.
     attempt (if yn_defined ops fsm then is_map_with ops fsm ''initial'' else Inr False) (\<lambda>usable.
     if \<not> usable
     then report_at ops SchemaError fsm (quote @ ''fsm' must be a mapping containing 'initial'' @ quote) [] s d
     else and_then
       (attempt (has_key ops fsm ''name'') (\<lambda>named.
          if \<not> named then Inr (Ok, s, d)
          else attempt (string_at ops fsm ''name'') (\<lambda>name.
            let (status, s) = setup_set_name name s
            in if is_ok status then Inr (Ok, s, d)
               else attempt (yn_get ops fsm ''name'') (\<lambda>node.
                 report_at ops NameTooLong node ''fsm.name is too long'' [] s d))))
       (\<lambda>s d. attempt (string_at ops fsm ''initial'') (\<lambda>initial.
          let (status, s) = setup_set_initial initial s
          in if \<not> is_ok status
             then attempt (yn_get ops fsm ''initial'') (\<lambda>node.
               report_at ops status node ''fsm.initial: %s'' [status_to_string status] s d)
             else parse_io ops root s d)))))))"

section \<open>The machine file\<close>

fun declare_triggers ::
  "'n yaml_ops \<Rightarrow> 'n list \<Rightarrow> model \<Rightarrow> diagnostics \<Rightarrow> failure + status \<times> model \<times> diagnostics" where
  "declare_triggers ops [] m d = Inr (Ok, m, d)"
| "declare_triggers ops (entry # entries) m d =
     attempt (is_map_with ops entry ''name'') (\<lambda>named.
     if \<not> named then report_at ops SchemaError entry (''each trigger needs a 'name'' @ quote) [] m d
     else attempt (string_at ops entry ''name'') (\<lambda>name.
     attempt (has_key ops entry ''channel'') (\<lambda>present.
     attempt (if present then string_at ops entry ''channel'' else Inr []) (\<lambda>channel.
       let (status, m, i) = declare_trigger name channel m
       in if \<not> is_ok status
          then report_at ops status entry ''trigger '%s': %s'' [name, status_to_string status] m d
          else declare_triggers ops entries m d))))"

text \<open>\<open>!node || !node.IsSequence() || node.size() == 0\<close>, negated.\<close>

definition nonempty_sequence :: "'n yaml_ops \<Rightarrow> 'n \<Rightarrow> failure + bool" where
  "nonempty_sequence ops node =
     (if \<not> yn_defined ops node then Inr False
      else attempt (yn_is_sequence ops node) (\<lambda>is_sequence.
        if \<not> is_sequence then Inr False
        else attempt (yn_size ops node) (\<lambda>n. Inr (n \<noteq> 0))))"

definition parse_triggers ::
  "'n yaml_ops \<Rightarrow> 'n \<Rightarrow> model \<Rightarrow> diagnostics \<Rightarrow> failure + status \<times> model \<times> diagnostics" where
  "parse_triggers ops root m d =
     attempt (yn_get ops root ''triggers'') (\<lambda>node.
     attempt (nonempty_sequence ops node) (\<lambda>usable.
     if \<not> usable
     then report_at ops SchemaError node (quote @ ''triggers' must be a non-empty sequence'') [] m d
     else attempt (yn_elements ops node) (\<lambda>entries. declare_triggers ops entries m d)))"

text \<open>The first pass over the states.\<close>

fun declare_states ::
  "'n yaml_ops \<Rightarrow> 'n list \<Rightarrow> model \<Rightarrow> diagnostics \<Rightarrow> failure + status \<times> model \<times> diagnostics" where
  "declare_states ops [] m d = Inr (Ok, m, d)"
| "declare_states ops (entry # entries) m d =
     attempt (is_map_with ops entry ''name'') (\<lambda>named.
     if \<not> named then report_at ops SchemaError entry (''each state needs a 'name'' @ quote) [] m d
     else attempt (string_at ops entry ''name'') (\<lambda>name.
       let (status, m, i) = declare_state name m
       in if \<not> is_ok status
          then report_at ops status entry ''state '%s': %s'' [name, status_to_string status] m d
          else declare_states ops entries m d))"

text \<open>The lambda of \<open>parse_when\<close>: one more condition for \<open>out\<close>.\<close>

definition read_one ::
  "'n yaml_ops \<Rightarrow> string \<Rightarrow> 'n \<Rightarrow> condition_list \<Rightarrow> diagnostics \<Rightarrow>
     failure + status \<times> condition_list \<times> diagnostics" where
  "read_one ops called scalar out d =
     attempt (yn_string ops scalar) (\<lambda>expression.
     if kMaxConditionsPerGuard \<le> length out
     then report_at ops CapacityExceeded scalar
            (quote @ ''%s': more than FMS_MAX_CONDITIONS_PER_GUARD conditions'') [called] out d
     else
       let (status, condition) = parse_condition expression
       in if \<not> is_ok status
          then report_at ops status scalar
                 (quote @ ''%s': cannot read the guard '%s' - expected <arg> <op> <value>'')
                 [called, expression] out d
          else Inr (Ok, out @ [condition], d))"

fun read_all ::
  "'n yaml_ops \<Rightarrow> string \<Rightarrow> 'n list \<Rightarrow> condition_list \<Rightarrow> diagnostics \<Rightarrow>
     failure + status \<times> condition_list \<times> diagnostics" where
  "read_all ops called [] out d = Inr (Ok, out, d)"
| "read_all ops called (scalar # scalars) out d =
     and_then (read_one ops called scalar out d) (read_all ops called scalars)"

definition parse_when ::
  "'n yaml_ops \<Rightarrow> 'n \<Rightarrow> string \<Rightarrow> condition_list \<Rightarrow> diagnostics \<Rightarrow>
     failure + status \<times> condition_list \<times> diagnostics" where
  "parse_when ops node called out d =
     (if \<not> yn_defined ops node then Inr (Ok, out, d)
      else attempt (yn_is_sequence ops node) (\<lambda>is_sequence.
        if is_sequence then
          attempt (yn_elements ops node) (\<lambda>scalars.
            and_then (read_all ops called scalars out d) (\<lambda>out d.
              if out = [] then report_at ops SchemaError node (quote @ ''%s': empty 'when'' @ quote) [called] out d
              else Inr (Ok, out, d)))
        else read_one ops called node out d))"

definition parse_alternative ::
  "'n yaml_ops \<Rightarrow> 'n \<Rightarrow> state_id \<Rightarrow> trigger_id \<Rightarrow> string \<Rightarrow> model \<Rightarrow> diagnostics \<Rightarrow>
     failure + status \<times> model \<times> diagnostics" where
  "parse_alternative ops node from trigger called m d =
     attempt (is_map_with ops node ''target'') (\<lambda>usable.
     if \<not> usable
     then report_at ops SchemaError node (quote @ ''%s': an alternative needs a 'target'' @ quote) [called] m d
     else attempt (string_at ops node ''target'') (\<lambda>target_name.
       let target = find_state m target_name
       in if target = kNoState
          then attempt (yn_get ops node ''target'') (\<lambda>child.
            report_at ops UnknownState child ''target state '%s' does not exist'' [target_name] m d)
          else attempt (yn_get ops node ''when'') (\<lambda>when.
            attempt (parse_when ops when called [] d) (\<lambda>(guard, guard_conditions, d).
              if \<not> is_ok guard then Inr (guard, m, d)
              else
                let (status, m) = add_transition from trigger target guard_conditions m
                in if \<not> is_ok status
                   then report_at ops status node ''transition on '%s': %s'' [called, status_to_string status] m d
                   else Inr (status, m, d)))))"

fun parse_alternatives ::
  "'n yaml_ops \<Rightarrow> 'n list \<Rightarrow> state_id \<Rightarrow> trigger_id \<Rightarrow> string \<Rightarrow> model \<Rightarrow> diagnostics \<Rightarrow>
     failure + status \<times> model \<times> diagnostics" where
  "parse_alternatives ops [] from trigger called m d = Inr (Ok, m, d)"
| "parse_alternatives ops (node # nodes) from trigger called m d =
     and_then (parse_alternative ops node from trigger called m d)
       (parse_alternatives ops nodes from trigger called)"

text \<open>One entry of \<open>transitions\<close>: what the trigger does, in its three spellings.\<close>

definition link_outcome ::
  "'n yaml_ops \<Rightarrow> 'n \<Rightarrow> 'n \<Rightarrow> state_id \<Rightarrow> trigger_id \<Rightarrow> string \<Rightarrow> model \<Rightarrow> diagnostics \<Rightarrow>
     failure + status \<times> model \<times> diagnostics" where
  "link_outcome ops key outcome from trigger called m d =
     attempt (yn_is_scalar ops outcome) (\<lambda>is_scalar.
     if is_scalar then
       attempt (yn_string ops outcome) (\<lambda>target_name.
         let target = find_state m target_name
         in if target = kNoState
            then report_at ops UnknownState outcome ''target state '%s' does not exist'' [target_name] m d
            else
              let (status, m) = add_unguarded_transition from trigger target m
              in if \<not> is_ok status
                 then report_at ops status key ''transition on '%s': %s'' [called, status_to_string status] m d
                 else Inr (Ok, m, d))
     else attempt (yn_is_map ops outcome) (\<lambda>is_map.
     if is_map then parse_alternative ops outcome from trigger called m d
     else attempt (yn_is_sequence ops outcome) (\<lambda>is_sequence.
     if is_sequence then
       attempt (yn_size ops outcome) (\<lambda>n.
         if n = 0 then report_at ops SchemaError outcome (quote @ ''%s': empty list of alternatives'') [called] m d
         else attempt (yn_elements ops outcome) (\<lambda>nodes.
           parse_alternatives ops nodes from trigger called m d))
     else report_at ops SchemaError outcome
            (quote @ ''%s': expected a state name, one alternative, or a list of them'') [called] m d)))"

fun link_transitions ::
  "'n yaml_ops \<Rightarrow> ('n \<times> 'n) list \<Rightarrow> state_id \<Rightarrow> model \<Rightarrow> diagnostics \<Rightarrow>
     failure + status \<times> model \<times> diagnostics" where
  "link_transitions ops [] from m d = Inr (Ok, m, d)"
| "link_transitions ops ((key, outcome) # pairs) from m d =
     attempt (yn_string ops key) (\<lambda>called.
       let trigger = find_trigger m called
       in if trigger = kNoTrigger
          then report_at ops UnknownTrigger key ''trigger '%s' is not declared'' [called] m d
          else and_then (link_outcome ops key outcome from trigger called m d)
                 (link_transitions ops pairs from))"

text \<open>The second pass over the states.\<close>

fun link_states ::
  "'n yaml_ops \<Rightarrow> 'n list \<Rightarrow> model \<Rightarrow> diagnostics \<Rightarrow> failure + status \<times> model \<times> diagnostics" where
  "link_states ops [] m d = Inr (Ok, m, d)"
| "link_states ops (entry # entries) m d =
     attempt (string_at ops entry ''name'') (\<lambda>name.
       let from = find_state m name
       in attempt (yn_get ops entry ''transitions'') (\<lambda>node.
          if \<not> yn_defined ops node then link_states ops entries m d
          else attempt (yn_is_map ops node) (\<lambda>is_map.
            if \<not> is_map
            then report_at ops SchemaError node
                   (quote @ ''transitions' must be a mapping of trigger -> state or alternatives'') [] m d
            else attempt (yn_pairs ops node) (\<lambda>pairs.
              and_then (link_transitions ops pairs from m d) (link_states ops entries)))))"

definition parse_machine ::
  "'n yaml_ops \<Rightarrow> 'n \<Rightarrow> model \<Rightarrow> diagnostics \<Rightarrow> failure + status \<times> model \<times> diagnostics" where
  "parse_machine ops root m d =
     attempt (yn_is_map ops root) (\<lambda>root_is_map.
     if \<not> root_is_map then report_at ops SchemaError root ''the document root must be a mapping'' [] m d
     else attempt (reject_foreign_section ops root ''io'' ''setup'' d) (\<lambda>(foreign, d).
     if foreign then Inr (SchemaError, m, d)
     else attempt (yn_get ops root ''fsm'') (\<lambda>fsm.
     attempt (if yn_defined ops fsm then is_map_with ops fsm ''initial'' else Inr False) (\<lambda>misplaced.
     if misplaced
     then attempt (yn_get ops fsm ''initial'') (\<lambda>node.
       report_at ops SchemaError node (quote @ ''fsm.initial' belongs in the setup file'') [] m d)
     else attempt (if yn_defined ops fsm then is_map_with ops fsm ''name'' else Inr False) (\<lambda>named.
     and_then
       (if \<not> named then Inr (Ok, m, d)
        else attempt (string_at ops fsm ''name'') (\<lambda>name.
          let (status, m) = model_set_name name m
          in if is_ok status then Inr (Ok, m, d)
             else attempt (yn_get ops fsm ''name'') (\<lambda>node.
               report_at ops NameTooLong node ''fsm.name is too long'' [] m d)))
       (\<lambda>m d. and_then (parse_triggers ops root m d) (\<lambda>m d.
         attempt (yn_get ops root ''states'') (\<lambda>states_node.
         attempt (nonempty_sequence ops states_node) (\<lambda>usable.
         if \<not> usable
         then report_at ops SchemaError states_node (quote @ ''states' must be a non-empty sequence'') [] m d
         else attempt (yn_elements ops states_node) (\<lambda>entries.
           and_then (declare_states ops entries m d) (\<lambda>m d.
           and_then (link_states ops entries m d) (\<lambda>m d.
             let status = validate m
             in Inr (status, m,
                  if is_ok status then d
                  else set_message status (- 1) ''validation failed: %s'' [status_to_string status] d)))))))))))))"

section \<open>The entry points\<close>

text \<open>What opening a path comes to: no such file, a source whose first read fails with an
  \<open>errno\<close>, or a stream with its content.\<close>

datatype open_outcome = CannotOpen | CannotRead int | Opened string

definition describe_errno :: "(int \<Rightarrow> string) \<Rightarrow> int \<Rightarrow> nat \<Rightarrow> string" where
  "describe_errno strerror code room = take (room - 1) (strerror code)"

definition open_config ::
  "(string \<Rightarrow> open_outcome) \<Rightarrow> (int \<Rightarrow> string) \<Rightarrow> string \<Rightarrow> diagnostics \<Rightarrow> string option \<times> diagnostics" where
  "open_config files strerror path d =
     (case files path of
        CannotOpen \<Rightarrow> (None, set_message FileNotFound (- 1) (''cannot open '%s'' @ quote) [path] d)
      | CannotRead code \<Rightarrow>
          let why = describe_errno strerror code 64
          in (None, set_message FileNotReadable (- 1) (''cannot read: %s ('%s')'') [why, path] d)
      | Opened content \<Rightarrow> (Some content, d))"

text \<open>\<open>produced\<close> is what the producer returns or throws, \<open>cleared\<close> the target after
  \<open>clear\<close>.\<close>

definition guarded ::
  "'t \<Rightarrow> ('n \<Rightarrow> 't \<Rightarrow> diagnostics \<Rightarrow> failure + status \<times> 't \<times> diagnostics) \<Rightarrow> failure + 'n \<Rightarrow>
     status \<times> 't \<times> diagnostics" where
  "guarded cleared parse produced =
     (let d = diagnostics_reset; target = cleared
      in case attempt produced (\<lambda>root.
           attempt (parse root target d) (\<lambda>(status, target, d).
             Inr (status, if is_ok status then target else cleared, d))) of
           Inr result \<Rightarrow> result
         | Inl e \<Rightarrow>
             (case e of
                YamlError line what \<Rightarrow> (ParseError, cleared, set_message ParseError (line + 1) ''%s'' [what] d)
              | StdError what \<Rightarrow> (ParseError, cleared, set_message ParseError (- 1) ''%s'' [what] d)
              | OtherError \<Rightarrow>
                  (ParseError, cleared, set_message ParseError (- 1) ''unknown error while reading YAML'' [] d)))"

text \<open>The four entry points; \<open>None\<close> is a null pointer.\<close>

definition load_setup_string ::
  "'n yaml_ops \<Rightarrow> string option \<Rightarrow> deployment \<Rightarrow> diagnostics \<Rightarrow> status \<times> deployment \<times> diagnostics" where
  "load_setup_string ops yaml s d =
     (case yaml of
        None \<Rightarrow> (InvalidArgument, s, set_message InvalidArgument (- 1) ''null YAML buffer'' [] diagnostics_reset)
      | Some content \<Rightarrow> guarded setup_clear (parse_setup ops) (yn_load_text ops (cstr content)))"

definition load_setup_file ::
  "'n yaml_ops \<Rightarrow> (string \<Rightarrow> open_outcome) \<Rightarrow> (int \<Rightarrow> string) \<Rightarrow> string option \<Rightarrow> deployment \<Rightarrow> diagnostics \<Rightarrow>
     status \<times> deployment \<times> diagnostics" where
  "load_setup_file ops files strerror path s d =
     (let d = diagnostics_reset
      in case path of
           None \<Rightarrow> (InvalidArgument, s, set_message InvalidArgument (- 1) ''null path'' [] d)
         | Some path \<Rightarrow>
             (case open_config files strerror path d of
                (None, d) \<Rightarrow> (diag_status d, setup_clear, d)
              | (Some content, d) \<Rightarrow> guarded setup_clear (parse_setup ops) (yn_load_stream ops content)))"

definition load_machine_string ::
  "'n yaml_ops \<Rightarrow> string option \<Rightarrow> model \<Rightarrow> diagnostics \<Rightarrow> status \<times> model \<times> diagnostics" where
  "load_machine_string ops yaml m d =
     (case yaml of
        None \<Rightarrow> (InvalidArgument, m, set_message InvalidArgument (- 1) ''null YAML buffer'' [] diagnostics_reset)
      | Some content \<Rightarrow> guarded model_clear (parse_machine ops) (yn_load_text ops (cstr content)))"

definition load_machine_file ::
  "'n yaml_ops \<Rightarrow> (string \<Rightarrow> open_outcome) \<Rightarrow> (int \<Rightarrow> string) \<Rightarrow> string option \<Rightarrow> model \<Rightarrow> diagnostics \<Rightarrow>
     status \<times> model \<times> diagnostics" where
  "load_machine_file ops files strerror path m d =
     (let d = diagnostics_reset
      in case path of
           None \<Rightarrow> (InvalidArgument, m, set_message InvalidArgument (- 1) ''null path'' [] d)
         | Some path \<Rightarrow>
             (case open_config files strerror path d of
                (None, d) \<Rightarrow> (diag_status d, model_clear, d)
              | (Some content, d) \<Rightarrow> guarded model_clear (parse_machine ops) (yn_load_stream ops content)))"

section \<open>Exceptions and early returns\<close>

lemma attempt_simps [simp]:
  "attempt (Inl e) f = Inl e" "attempt (Inr v) f = f v" "attempt x Inr = x"
  by (simp_all add: attempt_def split: sum.splits)

lemma attempt_Inr_iff: "attempt x f = Inr y \<longleftrightarrow> (\<exists>v. x = Inr v \<and> f v = Inr y)"
  by (cases x) simp_all

lemma and_then_simps [simp]:
  "and_then (Inr (Ok, t, d)) rest = rest t d" "status \<noteq> Ok \<Longrightarrow> and_then (Inr (status, t, d)) rest = Inr (status, t, d)"
  "and_then (Inl e) rest = Inl e"
  by (simp_all add: and_then_def)

lemma set_message_fields [simp]:
  "diag_status (set_message status line fmt args d) = status"
  "diag_line (set_message status line fmt args d) = line"
  "length (diag_message (set_message status line fmt args d)) \<le> kMaxMessageLength"
  by (auto simp: set_message_def Let_def)

text \<open>
  \<open>keeps I d r\<close>: a call that returns \<open>Ok\<close> leaves the target in the condition \<open>I\<close> and
  the diagnostics alone; one that returns an error leaves that error in the diagnostics. An
  exception is not its concern.
\<close>

definition keeps :: "('t \<Rightarrow> bool) \<Rightarrow> diagnostics \<Rightarrow> failure + status \<times> 't \<times> diagnostics \<Rightarrow> bool" where
  "keeps I d r \<longleftrightarrow>
     (case r of Inl e \<Rightarrow> True
      | Inr (status, target, d') \<Rightarrow>
          (if status = Ok then I target \<and> d' = d
           else diag_status d' = status \<and> length (diag_message d') \<le> kMaxMessageLength))"

named_theorems keeps_intros \<open>what the loader's steps establish\<close>

lemma keeps_Inl [keeps_intros]: "keeps I d (Inl e)"
  by (simp add: keeps_def)

lemma keeps_Ok [keeps_intros]: "I target \<Longrightarrow> keeps I d (Inr (Ok, target, d))"
  by (simp add: keeps_def)

lemma keeps_failed:
  "status \<noteq> Ok \<Longrightarrow> diag_status d' = status \<Longrightarrow> length (diag_message d') \<le> kMaxMessageLength \<Longrightarrow>
    keeps I d (Inr (status, target, d'))"
  by (simp add: keeps_def)

lemma keeps_report [keeps_intros]: "status \<noteq> Ok \<Longrightarrow> keeps I d (report_at ops status node fmt args target d)"
  by (cases "line_of_node ops node") (simp_all add: report_at_def keeps_def)

lemma keeps_attempt [keeps_intros]: "(\<And>v. x = Inr v \<Longrightarrow> keeps I d (f v)) \<Longrightarrow> keeps I d (attempt x f)"
  by (cases x) (simp_all add: keeps_Inl)

lemma keeps_and_then [keeps_intros]:
  assumes "keeps I d r" and "\<And>target. I target \<Longrightarrow> keeps J d (rest target d)"
  shows "keeps J d (and_then r rest)"
proof (cases r)
  case (Inr y)
  then obtain status target d' where r: "r = Inr (status, target, d')" by (cases y) auto
  with assms show ?thesis by (cases "status = Ok") (simp_all add: keeps_def)
qed (simp add: keeps_Inl)

lemma keeps_if [keeps_intros]:
  "(b \<Longrightarrow> keeps I d r) \<Longrightarrow> (\<not> b \<Longrightarrow> keeps I d r') \<Longrightarrow> keeps I d (if b then r else r')"
  by simp

lemma keeps_mono: "keeps I d r \<Longrightarrow> (\<And>target. I target \<Longrightarrow> J target) \<Longrightarrow> keeps J d r"
  by (cases r) (auto simp: keeps_def)

section \<open>The machine loader keeps the invariant of the model\<close>

text \<open>A model the build operations produce, with guards only from \<open>parse_condition\<close>.\<close>

definition loadable :: "model \<Rightarrow> bool" where
  "loadable m \<longleftrightarrow> built m \<and> list_all condition_wf (conditions m)"

lemma loadable_clear: "loadable model_clear"
  by (simp add: loadable_def built.intros) (simp add: model_clear_def)

lemma loadable_set_name: "loadable m \<Longrightarrow> loadable (snd (model_set_name name m))"
  by (simp add: loadable_def built.intros) (simp add: model_set_name_def split_beta)

lemma conditions_declare:
  "conditions (fst (snd (declare_trigger name channel m))) = conditions m"
  "conditions (fst (snd (declare_state name m))) = conditions m"
  by (simp_all add: declare_trigger_def declare_state_def Let_def split_beta)

lemma loadable_declare:
  "loadable m \<Longrightarrow> loadable (fst (snd (declare_trigger name channel m)))"
  "loadable m \<Longrightarrow> loadable (fst (snd (declare_state name m)))"
  by (simp_all add: loadable_def built.intros conditions_declare)

lemma loadable_add_transition:
  assumes "loadable m" and "length guard \<le> kMaxConditionsPerGuard" and "list_all condition_wf guard"
  shows "loadable (snd (add_transition from trigger target guard m))"
proof -
  have "conditions (snd (add_transition from trigger target guard m)) \<in> {conditions m, conditions m @ guard}"
    by (auto simp: add_transition_def alternatives_for_def push_alternative_def Let_def split: option.splits)
  with assms show ?thesis
    by (auto simp: loadable_def intro: built.intros)
qed

lemma keeps_triggers: "loadable m \<Longrightarrow> keeps loadable d (declare_triggers ops entries m d)"
proof (induction entries arbitrary: m)
  case (Cons entry entries)
  show ?case
    using Cons loadable_declare(1) [OF Cons(2)]
    by (auto simp: Let_def split_beta intro!: keeps_intros)
qed (simp add: keeps_Ok)

lemma keeps_states: "loadable m \<Longrightarrow> keeps loadable d (declare_states ops entries m d)"
proof (induction entries arbitrary: m)
  case (Cons entry entries)
  show ?case
    using Cons loadable_declare(2) [OF Cons(2)]
    by (auto simp: Let_def split_beta intro!: keeps_intros)
qed (simp add: keeps_Ok)

text \<open>What a list of conditions satisfies while a guard is read.\<close>

definition guard_wf :: "condition_list \<Rightarrow> bool" where
  "guard_wf g \<longleftrightarrow> length g \<le> kMaxConditionsPerGuard \<and> list_all condition_wf g"

lemma parse_condition_snd: "fst (parse_condition t) = Ok \<Longrightarrow> condition_wf (snd (parse_condition t))"
  by (rule parse_condition_wf [of t]) (simp add: prod_eq_iff)

lemma keeps_read_one: "guard_wf out \<Longrightarrow> keeps guard_wf d (read_one ops called scalar out d)"
  unfolding read_one_def Let_def
  by (intro keeps_intros) (auto simp: guard_wf_def split_beta intro!: keeps_intros parse_condition_snd)

lemma keeps_read_all: "guard_wf out \<Longrightarrow> keeps guard_wf d (read_all ops called scalars out d)"
  by (induction scalars arbitrary: out) (auto intro!: keeps_intros keeps_and_then keeps_read_one)

lemma keeps_parse_when: "guard_wf out \<Longrightarrow> keeps guard_wf d (parse_when ops node called out d)"
  unfolding parse_when_def
  by (auto intro!: keeps_intros keeps_read_one keeps_read_all)

lemma parse_when_result:
  assumes "parse_when ops node called [] d = Inr (status, g, d')"
  shows "(if status = Ok then length g \<le> kMaxConditionsPerGuard \<and> list_all condition_wf g \<and> d' = d
     else diag_status d' = status \<and> length (diag_message d') \<le> kMaxMessageLength)"
  using keeps_parse_when [of "[]" d ops node called] assms by (auto simp: keeps_def guard_wf_def)

lemma keeps_parse_alternative:
  "loadable m \<Longrightarrow> keeps loadable d (parse_alternative ops node s t called m d)"
  unfolding parse_alternative_def Let_def
  by (auto simp: split_beta dest!: parse_when_result
      intro!: keeps_intros keeps_failed loadable_add_transition split: if_splits)

lemma keeps_parse_alternatives:
  "loadable m \<Longrightarrow> keeps loadable d (parse_alternatives ops nodes from trigger called m d)"
  by (induction nodes arbitrary: m) (auto intro!: keeps_intros keeps_parse_alternative)

lemma keeps_link_outcome:
  "loadable m \<Longrightarrow> keeps loadable d (link_outcome ops key outcome from trigger called m d)"
  using loadable_add_transition [of m "[]" _ trigger]
  unfolding link_outcome_def add_unguarded_transition_def Let_def
  by (auto simp: split_beta intro!: keeps_intros keeps_parse_alternative keeps_parse_alternatives)

lemma keeps_link_transitions:
  "loadable m \<Longrightarrow> keeps loadable d (link_transitions ops pairs from m d)"
proof (induction pairs arbitrary: m)
  case (Cons pair pairs)
  then show ?case
    by (cases pair) (auto simp: Let_def intro!: keeps_intros keeps_link_outcome)
qed (simp add: keeps_Ok)

lemma keeps_link_states: "loadable m \<Longrightarrow> keeps loadable d (link_states ops entries m d)"
  by (induction entries arbitrary: m) (auto simp: Let_def intro!: keeps_intros keeps_link_transitions)

lemma loadable_validate: "loadable m \<Longrightarrow> states m \<noteq> [] \<Longrightarrow> validate m = Ok"
  using model_ok_validate [OF built_model_ok] by (simp add: loadable_def)

lemma reject_result:
  "reject_foreign_section ops root key home d = Inr (foreign, d') \<Longrightarrow>
    (if foreign then diag_status d' = SchemaError \<and> length (diag_message d') \<le> kMaxMessageLength else d' = d)"
  by (auto simp: reject_foreign_section_def attempt_Inr_iff split: if_splits)

lemma keeps_parse_triggers: "loadable m \<Longrightarrow> keeps loadable d (parse_triggers ops root m d)"
  by (auto simp: parse_triggers_def intro!: keeps_intros keeps_triggers)

text \<open>What the machine file is loaded into.\<close>

definition loaded :: "model \<Rightarrow> bool" where
  "loaded m \<longleftrightarrow> loadable m \<and> states m \<noteq> [] \<and> validate m = Ok"

lemma validated_nonempty: "validate m = Ok \<Longrightarrow> states m \<noteq> []"
  by (auto simp: validate_def)

lemma keeps_validated:
  "loadable m \<Longrightarrow> keeps loaded d (Inr (validate m, m, if is_ok (validate m) then d
     else set_message (validate m) line fmt args d))"
  by (simp add: keeps_def loaded_def validated_nonempty)

lemma keeps_reject:
  assumes "keeps I d (rest d)"
  shows "keeps I d (attempt (reject_foreign_section ops root key home d) (\<lambda>(foreign, d).
     if foreign then Inr (SchemaError, target, d) else rest d))"
proof (cases "reject_foreign_section ops root key home d")
  case (Inr r)
  obtain foreign d' where "r = (foreign, d')" by (cases r)
  with Inr reject_result [of ops root key home d foreign d'] assms show ?thesis
    by (cases foreign) (auto intro: keeps_failed)
qed (simp add: keeps_Inl)

lemma keeps_parse_machine:
  assumes "loadable m"
  shows "keeps loaded d (parse_machine ops root m d)"
  unfolding parse_machine_def Let_def
  using loadable_set_name [OF assms]
  by (intro keeps_reject keeps_attempt keeps_if keeps_Ok keeps_report keeps_and_then [where I = loadable]
      keeps_validated assms; (assumption | simp)?)
    (auto simp: assms split_beta intro!: keeps_intros keeps_parse_triggers keeps_states keeps_link_states)

section \<open>The setup loader keeps the capacities of the setup\<close>

definition setup_ok :: "deployment \<Rightarrow> bool" where
  "setup_ok s \<longleftrightarrow> length (setup_name s) \<le> kMaxNameLength \<and> length (initial_name s) \<le> kMaxNameLength \<and>
     length (state_channel (setup_io s)) \<le> kMaxChannelLength \<and>
     length (error_channel (setup_io s)) \<le> kMaxChannelLength \<and>
     length (endpoint (setup_io s)) \<le> kMaxChannelLength \<and>
     length (identity (setup_io s)) \<le> kMaxNameLength"

text \<open>\<dots> and with the initial state named.\<close>

definition setup_named :: "deployment \<Rightarrow> bool" where
  "setup_named s \<longleftrightarrow> setup_ok s \<and> initial_name s \<noteq> []"

lemma setup_ok_clear: "setup_ok setup_clear"
  by (simp add: setup_ok_def setup_clear_def empty_io_def)

lemma setup_ok_set:
  "setup_ok s \<Longrightarrow> setup_ok (snd (setup_set_name name s))"
  "setup_ok s \<Longrightarrow> setup_ok (snd (setup_set_initial name s))"
  "fst (setup_set_initial name s) = Ok \<Longrightarrow> initial_name (snd (setup_set_initial name s)) \<noteq> []"
  by (auto simp: setup_ok_def setup_set_name_def setup_set_initial_def assign_checked_eq Let_def split: if_splits)

lemma keeps_io_field:
  assumes "I s" and "status \<noteq> Ok"
    and "\<And>stored. length stored \<le> cap \<Longrightarrow> I (s\<lparr>setup_io := update (\<lambda>_. stored) (setup_io s)\<rparr>)"
    and "I (s\<lparr>setup_io := update (\<lambda>_. field (setup_io s)) (setup_io s)\<rparr>)"
  shows "keeps I d (read_io_field ops node key cap status field update s d)"
  using assms unfolding read_io_field_def read_string_def Let_def
  by (auto simp: attempt_Inr_iff intro!: keeps_intros split: if_splits)

lemma setup_named_io:
  assumes "setup_named s"
  shows "length x \<le> kMaxChannelLength \<Longrightarrow> setup_named (s\<lparr>setup_io := state_channel_update (\<lambda>_. x) (setup_io s)\<rparr>)"
    "length x \<le> kMaxChannelLength \<Longrightarrow> setup_named (s\<lparr>setup_io := error_channel_update (\<lambda>_. x) (setup_io s)\<rparr>)"
    "length x \<le> kMaxChannelLength \<Longrightarrow> setup_named (s\<lparr>setup_io := endpoint_update (\<lambda>_. x) (setup_io s)\<rparr>)"
    "length x \<le> kMaxNameLength \<Longrightarrow> setup_named (s\<lparr>setup_io := identity_update (\<lambda>_. x) (setup_io s)\<rparr>)"
    "length (state_channel (setup_io s)) \<le> kMaxChannelLength" "length (error_channel (setup_io s)) \<le> kMaxChannelLength"
    "length (endpoint (setup_io s)) \<le> kMaxChannelLength" "length (identity (setup_io s)) \<le> kMaxNameLength"
  using assms by (simp_all add: setup_named_def setup_ok_def)

lemma keeps_parse_io: "setup_named s \<Longrightarrow> keeps setup_named d (parse_io ops root s d)"
  unfolding parse_io_def
  by (intro keeps_attempt keeps_if keeps_Ok keeps_report keeps_and_then [where I = setup_named]
      keeps_io_field setup_named_io; (assumption | simp add: setup_named_io)?)

lemma keeps_set_initial:
  assumes "setup_ok s"
  shows "keeps setup_named d (case setup_set_initial initial s of (status, s) \<Rightarrow>
     if \<not> is_ok status
     then attempt (yn_get ops fsm ''initial'') (\<lambda>node.
       report_at ops status node ''fsm.initial: %s'' [status_to_string status] s d)
     else parse_io ops root s d)"
  using setup_ok_set(2) [OF assms, of initial] setup_ok_set(3) [of initial s]
  by (auto simp: split_beta setup_named_def intro!: keeps_intros keeps_parse_io)

lemma keeps_parse_setup:
  assumes "setup_ok s"
  shows "keeps setup_named d (parse_setup ops root s d)"
  unfolding parse_setup_def Let_def
  using setup_ok_set(1) [OF assms]
  by (intro keeps_reject keeps_attempt keeps_if keeps_Ok keeps_report keeps_and_then [where I = setup_ok]
      keeps_set_initial assms; (assumption | simp)?)
    (auto simp: assms split_beta intro!: keeps_intros)

section \<open>All or nothing\<close>

text \<open>
  What a loader comes back with: the target in the condition \<open>I\<close> and clean diagnostics, or
  the cleared target and diagnostics that carry the status.
\<close>

definition all_or_nothing :: "('t \<Rightarrow> bool) \<Rightarrow> 't \<Rightarrow> status \<times> 't \<times> diagnostics \<Rightarrow> bool" where
  "all_or_nothing I cleared result =
     (case result of (status, target, d) \<Rightarrow>
        if status = Ok then I target \<and> d = diagnostics_reset
        else target = cleared \<and> diag_status d = status \<and> length (diag_message d) \<le> kMaxMessageLength)"

lemma guarded_all_or_nothing:
  assumes "\<And>root. keeps I diagnostics_reset (parse root cleared diagnostics_reset)"
  shows "all_or_nothing I cleared (guarded cleared parse produced)"
proof (cases produced)
  case (Inl e)
  then show ?thesis
    by (cases e) (simp_all add: guarded_def all_or_nothing_def)
next
  case (Inr root)
  show ?thesis
  proof (cases "parse root cleared diagnostics_reset")
    case (Inl e)
    with Inr show ?thesis by (cases e) (simp_all add: guarded_def all_or_nothing_def)
  next
    case (Inr r)
    with \<open>produced = Inr root\<close> assms [of root] show ?thesis
      by (cases r) (auto simp: guarded_def all_or_nothing_def keeps_def)
  qed
qed

lemma not_opened:
  assumes "open_config files strerror path diagnostics_reset = (None, d)"
  shows "all_or_nothing I cleared (diag_status d, cleared, d)"
  using assms by (auto simp: open_config_def all_or_nothing_def Let_def split: open_outcome.splits)

text \<open>The two inner functions are free of a choice between their callers.\<close>

lemma load_machine_source:
  "load_machine_string ops (Some content) m d = guarded model_clear (parse_machine ops) (yn_load_text ops (cstr content))"
  "files path = Opened content \<Longrightarrow>
     load_machine_file ops files strerror (Some path) m d = guarded model_clear (parse_machine ops) (yn_load_stream ops content)"
  by (simp_all add: load_machine_string_def load_machine_file_def open_config_def Let_def)

lemma guarded_machine_all: "all_or_nothing loaded model_clear (guarded model_clear (parse_machine ops) produced)"
  by (rule guarded_all_or_nothing) (rule keeps_parse_machine [OF loadable_clear])

lemma guarded_setup_all: "all_or_nothing setup_named setup_clear (guarded setup_clear (parse_setup ops) produced)"
  by (rule guarded_all_or_nothing) (rule keeps_parse_setup [OF setup_ok_clear])

lemma loaded_from_files:
  "load_machine_file ops files strerror (Some path) m d = (Ok, m', d') \<Longrightarrow> loaded m'"
  "load_setup_file ops files strerror (Some path) s d = (Ok, s', d') \<Longrightarrow> setup_named s'"
  using guarded_machine_all guarded_setup_all
  by (fastforce simp: load_machine_file_def load_setup_file_def all_or_nothing_def open_config_def Let_def
      split: prod.splits option.splits open_outcome.splits)+

text \<open>C6: whatever the YAML library makes of the source and whatever it throws, a machine
  loader returns all or nothing: with \<open>Ok\<close>, a valid model with at least one state that the
  build operations can produce, every guard in it well formed, and clean diagnostics;
  otherwise the empty model and diagnostics with the returned status and a bounded message.\<close>

theorem load_machine_all_or_nothing:
  "all_or_nothing loaded model_clear (load_machine_string ops (Some yaml) m d) \<and>
   all_or_nothing loaded model_clear (load_machine_file ops files strerror (Some path) m d)"
  by (auto simp: load_machine_string_def load_machine_file_def Let_def not_opened guarded_machine_all
      split: prod.splits option.splits)

text \<open>C27: a setup loader returns all or nothing too: with \<open>Ok\<close>, a setup that names an
  initial state and keeps every capacity; otherwise the empty setup.\<close>

theorem load_setup_all_or_nothing:
  "all_or_nothing setup_named setup_clear (load_setup_string ops (Some yaml) s d) \<and>
   all_or_nothing setup_named setup_clear (load_setup_file ops files strerror (Some path) s d)"
  by (auto simp: load_setup_string_def load_setup_file_def Let_def not_opened guarded_setup_all
      split: prod.splits option.splits)

text \<open>
  A null pointer is refused before anything else: with the status \<open>InvalidArgument\<close>, and,
  unlike every other failure, with the target as it was.
\<close>

theorem null_source_keeps_target:
  "fst (load_machine_string ops None m d) = InvalidArgument"
  "fst (snd (load_machine_string ops None m d)) = m"
  "fst (load_machine_file ops files strerror None m d) = InvalidArgument"
  "fst (snd (load_machine_file ops files strerror None m d)) = m"
  "fst (snd (load_setup_string ops None s d)) = s"
  "fst (snd (load_setup_file ops files strerror None s d)) = s"
  by (simp_all add: load_machine_string_def load_machine_file_def load_setup_string_def load_setup_file_def Let_def)

end
