(* ===== verification/YamlDocuments.thy ===== *)
theory YamlDocuments
  imports YamlLoader "HOL-Library.Monad_Syntax"
begin

text \<open>
  YAML documents as trees, and what the loader's questions about a node come to.
  \<open>reads ops node doc\<close> states that the YAML library shows a node as the tree \<open>doc\<close>, as
  yaml-cpp documents its node operations. Any document may stand here: no shape is assumed, keys
  may come in any order, more than once or without a use. \<open>agrees\<close> relates a function of the
  loader to a plain computation on the tree, errors included; a conversion to text that the
  library refuses is the status \<open>ParseError\<close>, which is what the loaders make of an exception.
\<close>

section \<open>Documents and how the library shows them\<close>

text \<open>
  A null node converts to a text or not, by the version of the library: its constructor says.
\<close>

datatype ydoc = YScalar string | YNull "string option" | YSeq "ydoc list" | YMap "(string \<times> ydoc) list"

definition kind_is :: "'n yaml_ops \<Rightarrow> 'n \<Rightarrow> bool \<Rightarrow> bool \<Rightarrow> bool \<Rightarrow> bool" where
  "kind_is ops node scalar sequence mapping \<longleftrightarrow>
     yn_defined ops node \<and> yn_is_scalar ops node = Inr scalar \<and> yn_is_sequence ops node = Inr sequence \<and>
     yn_is_map ops node = Inr mapping \<and> \<not> isl (yn_line ops node)"

text \<open>The text of a node, where it has one.\<close>

fun text_of :: "ydoc \<Rightarrow> string option" where
  "text_of (YScalar s) = Some s"
| "text_of (YNull t) = t"
| "text_of (YSeq docs) = None"
| "text_of (YMap entries) = None"

definition converts :: "'n yaml_ops \<Rightarrow> 'n \<Rightarrow> string option \<Rightarrow> bool" where
  "converts ops node t \<longleftrightarrow> (case t of None \<Rightarrow> isl (yn_string ops node) | Some s \<Rightarrow> yn_string ops node = Inr s)"

inductive reads :: "'n yaml_ops \<Rightarrow> 'n \<Rightarrow> ydoc \<Rightarrow> bool" for ops where
  reads_scalar: "kind_is ops node True False False \<Longrightarrow> converts ops node (Some s) \<Longrightarrow> reads ops node (YScalar s)"
| reads_null: "kind_is ops node False False False \<Longrightarrow> converts ops node t \<Longrightarrow> reads ops node (YNull t)"
| reads_seq: "kind_is ops node False True False \<Longrightarrow> converts ops node None \<Longrightarrow>
    yn_size ops node = Inr (length docs) \<Longrightarrow>
    yn_elements ops node = Inr nodes \<Longrightarrow> list_all2 (reads ops) nodes docs \<Longrightarrow> reads ops node (YSeq docs)"
| reads_map: "kind_is ops node False False True \<Longrightarrow> converts ops node None \<Longrightarrow>
    yn_pairs ops node = Inr pairs \<Longrightarrow>
    list_all2 (reads ops) (map fst pairs) (map (\<lambda>e. YScalar (fst e)) entries) \<Longrightarrow>
    list_all2 (reads ops) (map snd pairs) (map snd entries) \<Longrightarrow>
    (\<And>key doc. map_of entries key = Some doc \<Longrightarrow> \<exists>child. yn_get ops node key = Inr child \<and> reads ops child doc) \<Longrightarrow>
    (\<And>key. map_of entries key = None \<Longrightarrow> \<exists>child. yn_get ops node key = Inr child \<and> \<not> yn_defined ops child) \<Longrightarrow>
    reads ops node (YMap entries)"

inductive_cases reads_scalarE: "reads ops node (YScalar s)"
inductive_cases reads_seqE: "reads ops node (YSeq docs)"
inductive_cases reads_mapE: "reads ops node (YMap entries)"

section \<open>A library that shows documents\<close>

text \<open>Nodes are documents, or nothing.\<close>

definition shown_get :: "ydoc option \<Rightarrow> string \<Rightarrow> failure + ydoc option" where
  "shown_get node key =
     (case node of Some (YMap entries) \<Rightarrow> Inr (map_of entries key) | _ \<Rightarrow> Inl OtherError)"

definition shown_string :: "ydoc option \<Rightarrow> failure + string" where
  "shown_string node =
     (case node of None \<Rightarrow> Inl OtherError
      | Some doc \<Rightarrow> (case text_of doc of None \<Rightarrow> Inl (YamlError 0 ''bad conversion'') | Some s \<Rightarrow> Inr s))"

definition document_ops :: "ydoc \<Rightarrow> ydoc option yaml_ops" where
  "document_ops root =
     \<lparr>yn_defined = (\<lambda>node. node \<noteq> None),
      yn_is_map = (\<lambda>node. case node of None \<Rightarrow> Inl OtherError | Some (YMap _) \<Rightarrow> Inr True | _ \<Rightarrow> Inr False),
      yn_is_sequence = (\<lambda>node. case node of None \<Rightarrow> Inl OtherError | Some (YSeq _) \<Rightarrow> Inr True | _ \<Rightarrow> Inr False),
      yn_is_scalar = (\<lambda>node. case node of None \<Rightarrow> Inl OtherError | Some (YScalar _) \<Rightarrow> Inr True | _ \<Rightarrow> Inr False),
      yn_size = (\<lambda>node. case node of Some (YSeq docs) \<Rightarrow> Inr (length docs) | _ \<Rightarrow> Inr 0),
      yn_get = shown_get,
      yn_string = shown_string,
      yn_line = (\<lambda>node. Inr 0),
      yn_elements = (\<lambda>node. case node of Some (YSeq docs) \<Rightarrow> Inr (map Some docs) | _ \<Rightarrow> Inr []),
      yn_pairs = (\<lambda>node. case node of
         Some (YMap entries) \<Rightarrow> Inr (map (\<lambda>(key, doc). (Some (YScalar key), Some doc)) entries) | _ \<Rightarrow> Inr []),
      yn_load_text = (\<lambda>text. Inr (Some root)),
      yn_load_stream = (\<lambda>text. Inr (Some root))\<rparr>"

lemma shown_converts: "converts (document_ops root) (Some doc) (text_of doc)"
  by (simp add: converts_def document_ops_def shown_string_def split: option.split)

lemma document_ops_reads: "reads (document_ops root) (Some doc) doc"
proof (induction doc)
  case (YScalar s)
  then show ?case
    using shown_converts [of root "YScalar s"] by (simp add: reads_scalar kind_is_def document_ops_def)
next
  case (YNull t)
  then show ?case
    using shown_converts [of root "YNull t"] by (simp add: reads_null kind_is_def document_ops_def)
next
  case (YSeq docs)
  then show ?case
    using shown_converts [of root "YSeq docs"]
    by (intro reads_seq [where nodes = "map Some docs"])
      (simp_all add: kind_is_def document_ops_def list_all2_conv_all_nth)
next
  case (YMap entries)
  let ?pairs = "map (\<lambda>(key, doc). (Some (YScalar key), Some doc)) entries"
  have key: "reads (document_ops root) (Some (YScalar key)) (YScalar key)" for key
    using shown_converts [of root "YScalar key"] by (simp add: reads_scalar kind_is_def document_ops_def)
  have shown: "reads (document_ops root) (Some doc) doc" if "(key, doc) \<in> set entries" for key doc
    using YMap [of "(key, doc)" doc] that by simp
  show ?case
  proof (rule reads_map [where pairs = ?pairs])
    show "list_all2 (reads (document_ops root)) (map fst ?pairs) (map (\<lambda>e. YScalar (fst e)) entries)"
      by (simp add: list_all2_conv_all_nth split_beta key)
    show "list_all2 (reads (document_ops root)) (map snd ?pairs) (map snd entries)"
      using shown by (auto simp: list_all2_conv_all_nth split_beta in_set_conv_nth prod_eq_iff)
    show "\<exists>child. yn_get (document_ops root) (Some (YMap entries)) key = Inr child \<and> reads (document_ops root) child doc"
      if "map_of entries key = Some doc" for key doc
      using shown [OF map_of_SomeD [OF that]] that by (simp add: document_ops_def shown_get_def)
  qed (use shown_converts [of root "YMap entries"] in \<open>simp_all add: kind_is_def document_ops_def shown_get_def\<close>)
qed

text \<open>What the nodes show does not depend on how the document was loaded.\<close>

lemma reads_any_source: "reads ops node doc \<Longrightarrow> reads (ops\<lparr>yn_load_stream := source\<rparr>) node doc"
proof (induction rule: reads.induct)
  case (reads_seq node docs nodes)
  then show ?case
    by (intro reads.reads_seq [where nodes = nodes]) (auto simp: kind_is_def converts_def elim: list_all2_mono)
next
  case (reads_map node pairs entries)
  then show ?case
    by (intro reads.reads_map [where pairs = pairs]) (auto simp: kind_is_def converts_def elim: list_all2_mono, blast)
qed (auto intro: reads.intros simp: kind_is_def converts_def split: option.splits)

section \<open>What the loader's questions come to\<close>

text \<open>A child by its key, and the text of a child, which the library may refuse to give.\<close>

definition entry :: "ydoc \<Rightarrow> string \<Rightarrow> ydoc option" where
  "entry doc key = (case doc of YMap entries \<Rightarrow> map_of entries key | _ \<Rightarrow> None)"

definition text_in :: "ydoc \<Rightarrow> status + string" where
  "text_in doc = (case text_of doc of None \<Rightarrow> Inl ParseError | Some t \<Rightarrow> Inr t)"

lemma text_decoded: "text_of doc = Some t \<Longrightarrow> text_in doc = Inr t" "text_of doc = None \<Longrightarrow> text_in doc = Inl ParseError"
  by (simp_all add: text_in_def)

lemma entry_simps [simp]:
  "entry (YMap entries) key = map_of entries key" "entry (YScalar s) key = None" "entry (YNull t) key = None"
  "entry (YSeq docs) key = None"
  by (simp_all add: entry_def)

lemma reads_kind:
  assumes "reads ops node doc"
  shows "yn_defined ops node" "\<not> isl (yn_line ops node)"
    "yn_is_scalar ops node = Inr (case doc of YScalar _ \<Rightarrow> True | _ \<Rightarrow> False)"
    "yn_is_sequence ops node = Inr (case doc of YSeq _ \<Rightarrow> True | _ \<Rightarrow> False)"
    "yn_is_map ops node = Inr (case doc of YMap _ \<Rightarrow> True | _ \<Rightarrow> False)"
    "converts ops node (text_of doc)"
  using assms by (cases; simp add: kind_is_def)+

lemma reads_text:
  assumes "reads ops node doc"
  shows "text_in doc = Inr t \<Longrightarrow> yn_string ops node = Inr t"
    and "text_in doc = Inl e \<Longrightarrow> e = ParseError \<and> isl (yn_string ops node)"
  using reads_kind(6) [OF assms] by (auto simp: converts_def text_in_def split: option.splits)

lemma reads_string: "reads ops node (YScalar s) \<Longrightarrow> yn_string ops node = Inr s"
  by (rule reads_text(1) [of _ _ "YScalar s"]) (simp_all add: text_in_def)

lemma reads_child:
  assumes "reads ops node (YMap entries)" and "map_of entries key = Some doc"
  obtains child where "yn_get ops node key = Inr child" "reads ops child doc"
  by (rule reads_mapE [OF assms(1)]) (use assms(2) that in blast)

lemma reads_no_child:
  assumes "reads ops node (YMap entries)" and "map_of entries key = None"
  obtains child where "yn_get ops node key = Inr child" "\<not> yn_defined ops child"
  by (rule reads_mapE [OF assms(1)]) (use assms(2) that in blast)

lemma reads_has_key:
  assumes "reads ops node (YMap entries)"
  shows "has_key ops node key = Inr (map_of entries key \<noteq> None)"
proof (cases "map_of entries key")
  case None
  obtain child where "yn_get ops node key = Inr child" "\<not> yn_defined ops child"
    by (rule reads_no_child [OF assms None])
  with None show ?thesis by (simp add: has_key_def)
next
  case (Some doc)
  obtain child where "yn_get ops node key = Inr child" "reads ops child doc"
    by (rule reads_child [OF assms Some])
  with Some reads_kind(1) [of ops child doc] show ?thesis by (simp add: has_key_def)
qed

lemma reads_is_map_with:
  "reads ops node doc \<Longrightarrow> is_map_with ops node key = Inr (entry doc key \<noteq> None)"
  by (cases doc) (simp_all add: is_map_with_def reads_kind reads_has_key)

lemma reads_report:
  assumes "yn_defined ops node \<Longrightarrow> \<not> isl (yn_line ops node)"
  shows "\<exists>d'. report_at ops status node fmt args target d = Inr (status, target, d')"
  using assms by (cases "yn_line ops node") (auto simp: report_at_def line_of_node_def)

section \<open>Sequences of steps\<close>

text \<open>The first operation that fails ends the sequence with its status.\<close>

fun each_step :: "('a \<Rightarrow> 'm \<Rightarrow> 'e + 'm) \<Rightarrow> 'a list \<Rightarrow> 'm \<Rightarrow> 'e + 'm" where
  "each_step step [] m = Inr m"
| "each_step step (x # xs) m = attempt (step x m) (each_step step xs)"

lemma attempt_each_Nil [simp]: "attempt x (each_step step []) = x"
  by (cases x) simp_all

definition checked :: "status \<times> 'm \<Rightarrow> status + 'm" where
  "checked result = (case result of (status, m) \<Rightarrow> if is_ok status then Inr m else Inl status)"

lemma each_step_inv:
  "(\<And>x m m'. I m \<Longrightarrow> step x m = Inr m' \<Longrightarrow> I m') \<Longrightarrow> I m \<Longrightarrow> each_step step xs m = Inr m' \<Longrightarrow> I m'"
  by (induction xs arbitrary: m) (auto simp: attempt_Inr_iff)

lemma isl_attempt: "isl x \<or> (\<forall>v. x = Inr v \<longrightarrow> isl (f v)) \<Longrightarrow> isl (attempt x f)"
  by (cases x) auto

text \<open>Decoding every element, where each can be.\<close>

fun traverse :: "('a \<Rightarrow> 'b option) \<Rightarrow> 'a list \<Rightarrow> 'b list option" where
  "traverse f [] = Some []"
| "traverse f (x # xs) = do { y \<leftarrow> f x; ys \<leftarrow> traverse f xs; Some (y # ys) }"

lemma traverse_Some_iff: "traverse f xs = Some ys \<longleftrightarrow> list_all2 (\<lambda>x y. f x = Some y) xs ys"
  by (induction xs arbitrary: ys) (auto simp: list_all2_Cons1 bind_eq_Some_conv)

lemma traverse_None_iff: "traverse f xs = None \<longleftrightarrow> (\<exists>x \<in> set xs. f x = None)"
  by (induction xs) (auto split: Option.bind_splits)

lemma traverse_map: "(\<And>y. y \<in> set ys \<Longrightarrow> f (g y) = Some y) \<Longrightarrow> traverse f (map g ys) = Some ys"
  by (induction ys) simp_all

text \<open>A part that may be missing.\<close>

definition optionally :: "('a \<Rightarrow> 'b option) \<Rightarrow> 'a option \<Rightarrow> 'b option option" where
  "optionally f x = (case x of None \<Rightarrow> Some None | Some y \<Rightarrow> map_option Some (f y))"

lemma each_step_decoded:
  assumes "traverse f xs = Some ys" and "\<And>x y m. f x = Some y \<Longrightarrow> step x m = step' y m"
  shows "each_step step xs m = each_step step' ys m"
  using assms(1) unfolding traverse_Some_iff
proof (induction xs ys arbitrary: m rule: list_all2_induct)
  case (Cons x xs y ys)
  then show ?case
    using assms(2) [OF Cons(1)] by (cases "step' y m") simp_all
qed simp

lemma each_step_stops:
  assumes "x \<in> set xs" and "\<And>m. I m \<Longrightarrow> isl (step x m)"
    and "\<And>x m m'. I m \<Longrightarrow> step x m = Inr m' \<Longrightarrow> I m'" and "I m"
  shows "isl (each_step step xs m)"
  using assms(1,4)
proof (induction xs arbitrary: m)
  case (Cons y ys)
  show ?case
  proof (cases "step y m")
    case (Inr m1)
    with assms(2) Cons(2,3) have "x \<in> set ys" by (cases "x = y") fastforce+
    with Cons(1) assms(3) [OF Cons(3) Inr] Inr show ?thesis by simp
  qed simp
qed simp

lemma each_step_refused:
  assumes "traverse f xs = None" and "\<And>x m. f x = None \<Longrightarrow> isl (step x m)"
  shows "isl (each_step step xs m)"
proof -
  from assms(1) obtain x where "x \<in> set xs" "f x = None"
    by (auto simp: traverse_None_iff)
  with assms(2) show ?thesis
    by (intro each_step_stops [where I = "\<lambda>m. True"]) simp_all
qed

section \<open>Loading agrees with a computation on the document\<close>

definition agrees :: "diagnostics \<Rightarrow> failure + status \<times> 'm \<times> diagnostics \<Rightarrow> status + 'm \<Rightarrow> bool" where
  "agrees d r b \<longleftrightarrow>
     (case b of
        Inr m \<Rightarrow> r = Inr (Ok, m, d)
      | Inl e \<Rightarrow> e \<noteq> Ok \<and> (case r of Inl failure \<Rightarrow> e = ParseError | Inr (status, m, d') \<Rightarrow> status = e))"

lemma agrees_Ok: "agrees d (Inr (Ok, m, d)) (Inr m)"
  by (simp add: agrees_def)

lemma agrees_report:
  "(yn_defined ops node \<Longrightarrow> \<not> isl (yn_line ops node)) \<Longrightarrow> status \<noteq> Ok \<Longrightarrow>
    agrees d (report_at ops status node fmt args m d) (Inl status)"
  using reads_report [of ops node status fmt args m d] by (auto simp: agrees_def)

lemma agrees_and_then:
  assumes "agrees d r b" and "\<And>m. b = Inr m \<Longrightarrow> agrees d (rest m d) (cont m)"
  shows "agrees d (and_then r rest) (attempt b cont)"
proof (cases b)
  case (Inl e)
  with assms(1) show ?thesis
    by (cases r) (auto simp: agrees_def split: prod.splits)
next
  case (Inr m)
  with assms(1) have "r = Inr (Ok, m, d)" by (auto simp: agrees_def)
  with Inr assms(2) show ?thesis by simp
qed

lemma agrees_text:
  assumes "reads ops node doc" and "\<And>t. text_in doc = Inr t \<Longrightarrow> agrees d (rest t) (cont t)"
  shows "agrees d (attempt (yn_string ops node) rest) (attempt (text_in doc) cont)"
proof (cases "text_in doc")
  case (Inl e)
  with reads_text(2) [OF assms(1) Inl] show ?thesis
    by (cases "yn_string ops node") (simp_all add: agrees_def)
next
  case (Inr t)
  with reads_text(1) [OF assms(1) Inr] assms(2) show ?thesis by simp
qed

lemma agrees_text_at:
  assumes "reads ops node (YMap entries)" and "map_of entries key = Some doc"
    and "\<And>t. text_in doc = Inr t \<Longrightarrow> agrees d (rest t) (cont t)"
  shows "agrees d (attempt (string_at ops node key) rest) (attempt (text_in doc) cont)"
proof -
  obtain child where child: "yn_get ops node key = Inr child" "reads ops child doc"
    by (rule reads_child [OF assms(1,2)])
  from agrees_text [OF child(2), of d rest cont] assms(3) child(1) show ?thesis
    by (simp add: string_at_def)
qed

lemma agrees_checked:
  "agrees d (if \<not> is_ok (fst r) then report_at ops (fst r) node fmt args m' d else rest (snd r)) (attempt (checked r) cont)"
  if "yn_defined ops node \<Longrightarrow> \<not> isl (yn_line ops node)" "\<And>m. r = (Ok, m) \<Longrightarrow> agrees d (rest m) (cont m)"
  using that by (cases r) (auto simp: checked_def intro: agrees_report)

text \<open>The sequences of the document, and how the loader finds them.\<close>

definition doc_sequence :: "ydoc \<Rightarrow> string \<Rightarrow> status + ydoc list" where
  "doc_sequence doc key =
     (case entry doc key of Some (YSeq docs) \<Rightarrow> if docs = [] then Inl SchemaError else Inr docs | _ \<Rightarrow> Inl SchemaError)"

lemma agrees_sequence:
  assumes "reads ops root (YMap entries)"
    and "\<And>node nodes docs. doc_sequence (YMap entries) key = Inr docs \<Longrightarrow> list_all2 (reads ops) nodes docs \<Longrightarrow>
      agrees d (rest nodes) (cont docs)"
  shows "agrees d (attempt (yn_get ops root key) (\<lambda>node. attempt (nonempty_sequence ops node) (\<lambda>usable.
      if \<not> usable then report_at ops SchemaError node fmt args m d
      else attempt (yn_elements ops node) rest)))
    (attempt (doc_sequence (YMap entries) key) cont)"
proof (cases "map_of entries key")
  case None
  obtain node where "yn_get ops root key = Inr node" "\<not> yn_defined ops node"
    by (rule reads_no_child [OF assms(1) None])
  with None show ?thesis
    by (auto simp: nonempty_sequence_def doc_sequence_def intro!: agrees_report)
next
  case (Some doc)
  obtain node where node: "yn_get ops root key = Inr node" "reads ops node doc"
    by (rule reads_child [OF assms(1) Some])
  show ?thesis
  proof (cases doc)
    case (YSeq docs)
    with node(2) obtain nodes where "yn_elements ops node = Inr nodes" "list_all2 (reads ops) nodes docs"
        "yn_size ops node = Inr (length docs)"
      by (auto elim: reads_seqE)
    with node(1) reads_kind [OF node(2)] YSeq Some assms(2) [of docs nodes] show ?thesis
      by (auto simp: nonempty_sequence_def doc_sequence_def intro!: agrees_report)
  qed (use node(1) reads_kind [OF node(2)] Some in \<open>simp_all add: nonempty_sequence_def doc_sequence_def agrees_report\<close>)
qed

text \<open>A section that belongs in the other file.\<close>

lemma agrees_foreign:
  assumes root: "reads ops root (YMap entries)" and rest: "agrees d (rest d) b"
  shows "agrees d (attempt (reject_foreign_section ops root key belongs d) (\<lambda>(foreign, d).
      if foreign then Inr (SchemaError, m, d) else rest d))
    (if map_of entries key \<noteq> None then Inl SchemaError else b)"
proof (cases "map_of entries key")
  case None
  obtain node where "yn_get ops root key = Inr node" "\<not> yn_defined ops node"
    by (rule reads_no_child [OF root None])
  with None rest show ?thesis
    by (simp add: reject_foreign_section_def)
next
  case (Some doc)
  obtain node where node: "yn_get ops root key = Inr node" "reads ops node doc"
    by (rule reads_child [OF root Some])
  with Some reads_kind(1,2) [OF node(2)] show ?thesis
    by (cases "yn_line ops node") (simp_all add: reject_foreign_section_def line_of_node_def agrees_def)
qed


text \<open>Behind the exception boundary the status is exact whatever ended the load.\<close>

lemma guarded_agrees:
  assumes "agrees diagnostics_reset (parse root cleared diagnostics_reset) b"
    and "keeps I diagnostics_reset (parse root cleared diagnostics_reset)"
  shows "case b of
       Inr m \<Rightarrow> guarded cleared parse (Inr root) = (Ok, m, diagnostics_reset)
     | Inl e \<Rightarrow> e \<noteq> Ok \<and> (\<exists>d. guarded cleared parse (Inr root) = (e, cleared, d) \<and> diag_status d = e)"
proof (cases b)
  case (Inl e)
  with assms show ?thesis
    by (cases "parse root cleared diagnostics_reset")
      (auto simp: agrees_def guarded_def keeps_def set_message_def Let_def split: failure.split prod.split)
next
  case (Inr m)
  with assms(1) show ?thesis
    by (simp add: agrees_def guarded_def)
qed

end
