(* ===== verification/MachineSpec.thy ===== *)
theory MachineSpec
  imports YamlDocuments
begin

text \<open>
  What the machine loader makes of a document (src/config/yaml_loader.cpp against
  docs/schema.md). A machine file is a \<open>machine_spec\<close>, with the spellings the schema allows;
  \<open>machine_doc\<close> is its plainest document and \<open>machine_of\<close> reads any document, which it refuses
  when something has the wrong kind, is missing or is in the wrong file. \<open>build_machine\<close> is the
  plain sequence of model operations a machine file stands for, \<open>doc_machine\<close> the same on a
  document: the loader agrees with \<open>doc_machine\<close> on every document, and \<open>doc_machine\<close> with
  \<open>build_machine\<close> where the document can be read. The behaviour of the model is then what the
  file says, state by state and trigger by trigger.
\<close>

section \<open>What a machine file says\<close>

text \<open>A guard: none, one comparison, or a list of them.\<close>

datatype when_spec = NoWhen | OneWhen string | ManyWhen "string list"

record alternative_spec =
  as_when :: when_spec
  as_target :: string

text \<open>The three spellings of a transition.\<close>

datatype outcome_spec = Target string | OneAlternative alternative_spec | Alternatives "alternative_spec list"

record state_spec =
  ss_name :: string
  ss_transitions :: "(string \<times> outcome_spec) list option"

record machine_spec =
  ms_name :: "string option"
  ms_triggers :: "(string \<times> string option) list"
  ms_states :: "state_spec list"

section \<open>The document of a machine file\<close>

definition when_entries :: "when_spec \<Rightarrow> (string \<times> ydoc) list" where
  "when_entries w =
     (case w of NoWhen \<Rightarrow> []
      | OneWhen t \<Rightarrow> [(''when'', YScalar t)]
      | ManyWhen ts \<Rightarrow> [(''when'', YSeq (map YScalar ts))])"

definition alternative_doc :: "alternative_spec \<Rightarrow> ydoc" where
  "alternative_doc a = YMap (when_entries (as_when a) @ [(''target'', YScalar (as_target a))])"

definition outcome_doc :: "outcome_spec \<Rightarrow> ydoc" where
  "outcome_doc outcome =
     (case outcome of Target t \<Rightarrow> YScalar t
      | OneAlternative a \<Rightarrow> alternative_doc a
      | Alternatives alts \<Rightarrow> YSeq (map alternative_doc alts))"

definition state_doc :: "state_spec \<Rightarrow> ydoc" where
  "state_doc s = YMap ((''name'', YScalar (ss_name s)) #
     (case ss_transitions s of None \<Rightarrow> []
      | Some ts \<Rightarrow> [(''transitions'', YMap (map (\<lambda>(t, outcome). (t, outcome_doc outcome)) ts))]))"

definition trigger_doc :: "string \<times> string option \<Rightarrow> ydoc" where
  "trigger_doc t = YMap ((''name'', YScalar (fst t)) #
     (case snd t of None \<Rightarrow> [] | Some channel \<Rightarrow> [(''channel'', YScalar channel)]))"

definition machine_doc :: "machine_spec \<Rightarrow> ydoc" where
  "machine_doc spec = YMap
     ((case ms_name spec of None \<Rightarrow> [] | Some name \<Rightarrow> [(''fsm'', YMap [(''name'', YScalar name)])]) @
      [(''triggers'', YSeq (map trigger_doc (ms_triggers spec))), (''states'', YSeq (map state_doc (ms_states spec)))])"

section \<open>Reading a document\<close>

definition trigger_of :: "ydoc \<Rightarrow> (string \<times> string option) option" where
  "trigger_of doc = do {
     name \<leftarrow> entry doc ''name''; name \<leftarrow> text_of name;
     channel \<leftarrow> optionally text_of (entry doc ''channel'');
     Some (name, channel) }"

definition when_of :: "ydoc option \<Rightarrow> when_spec option" where
  "when_of w =
     (case w of None \<Rightarrow> Some NoWhen
      | Some (YSeq docs) \<Rightarrow> map_option ManyWhen (traverse text_of docs)
      | Some doc \<Rightarrow> map_option OneWhen (text_of doc))"

definition alternative_of :: "ydoc \<Rightarrow> alternative_spec option" where
  "alternative_of doc = do {
     target \<leftarrow> entry doc ''target''; target \<leftarrow> text_of target;
     w \<leftarrow> when_of (entry doc ''when'');
     Some \<lparr>as_when = w, as_target = target\<rparr> }"

definition outcome_of :: "ydoc \<Rightarrow> outcome_spec option" where
  "outcome_of doc =
     (case doc of YScalar name \<Rightarrow> Some (Target name)
      | YNull t \<Rightarrow> None
      | YSeq docs \<Rightarrow> map_option Alternatives (traverse alternative_of docs)
      | YMap entries \<Rightarrow> map_option OneAlternative (alternative_of doc))"

definition transition_of :: "string \<times> ydoc \<Rightarrow> (string \<times> outcome_spec) option" where
  "transition_of e = map_option (Pair (fst e)) (outcome_of (snd e))"

definition transitions_in :: "ydoc \<Rightarrow> (string \<times> outcome_spec) list option" where
  "transitions_in doc = (case doc of YMap entries \<Rightarrow> traverse transition_of entries | _ \<Rightarrow> None)"

definition state_of :: "ydoc \<Rightarrow> state_spec option" where
  "state_of doc = do {
     name \<leftarrow> entry doc ''name''; name \<leftarrow> text_of name;
     trs \<leftarrow> optionally transitions_in (entry doc ''transitions'');
     Some \<lparr>ss_name = name, ss_transitions = trs\<rparr> }"

definition sequence_of :: "(ydoc \<Rightarrow> 'a option) \<Rightarrow> ydoc \<Rightarrow> 'a list option" where
  "sequence_of f doc = (case doc of YSeq docs \<Rightarrow> traverse f docs | _ \<Rightarrow> None)"

text \<open>A label, and no initial state: that one belongs in the setup file.\<close>

definition machine_label_of :: "ydoc option \<Rightarrow> string option option" where
  "machine_label_of fsm =
     (case fsm of None \<Rightarrow> Some None
      | Some doc \<Rightarrow> if entry doc ''initial'' \<noteq> None then None else optionally text_of (entry doc ''name''))"

definition machine_of :: "ydoc \<Rightarrow> machine_spec option" where
  "machine_of doc = (if entry doc ''io'' \<noteq> None then None else do {
     name \<leftarrow> machine_label_of (entry doc ''fsm'');
     ts \<leftarrow> entry doc ''triggers''; ts \<leftarrow> sequence_of trigger_of ts;
     ss \<leftarrow> entry doc ''states''; ss \<leftarrow> sequence_of state_of ss;
     Some \<lparr>ms_name = name, ms_triggers = ts, ms_states = ss\<rparr> })"

text \<open>The plainest document of a machine file reads as the file.\<close>

lemma when_of_entries: "when_of (map_of (when_entries w) ''when'') = Some w"
  by (cases w) (simp_all add: when_of_def when_entries_def traverse_map)

lemma alternative_of_doc: "alternative_of (alternative_doc a) = Some a"
proof -
  have "map_of (when_entries (as_when a) @ [(''target'', YScalar (as_target a))]) ''when'' = map_of (when_entries (as_when a)) ''when''"
    "map_of (when_entries (as_when a) @ [(''target'', YScalar (as_target a))]) ''target'' = Some (YScalar (as_target a))"
    by (simp_all add: when_entries_def split: when_spec.split)
  then show ?thesis
    by (simp add: alternative_of_def alternative_doc_def when_of_entries)
qed

lemma outcome_of_doc: "outcome_of (outcome_doc outcome) = Some outcome"
proof (cases outcome)
  case (OneAlternative a)
  then show ?thesis
    using alternative_of_doc [of a] by (simp add: outcome_of_def outcome_doc_def alternative_doc_def)
qed (simp_all add: outcome_of_def outcome_doc_def traverse_map alternative_of_doc)

lemma state_of_doc: "state_of (state_doc s) = Some s"
  by (cases s) (simp add: state_of_def state_doc_def optionally_def transitions_in_def transition_of_def outcome_of_doc
      traverse_map split_beta split: option.split)

lemma trigger_of_doc: "trigger_of (trigger_doc t) = Some t"
  by (cases t) (simp add: trigger_of_def trigger_doc_def optionally_def split: option.split)

lemma machine_of_doc: "machine_of (machine_doc spec) = Some spec"
  by (cases "ms_name spec") (simp_all add: machine_of_def machine_doc_def machine_label_of_def optionally_def
      sequence_of_def traverse_map trigger_of_doc state_of_doc)

section \<open>The operations a machine file stands for\<close>

definition one_condition :: "string \<Rightarrow> condition_list \<Rightarrow> status + condition_list" where
  "one_condition t g =
     (if kMaxConditionsPerGuard \<le> length g then Inl CapacityExceeded
      else checked (case parse_condition t of (status, c) \<Rightarrow> (status, g @ [c])))"

definition guard_of_spec :: "when_spec \<Rightarrow> status + condition_list" where
  "guard_of_spec w =
     (case w of NoWhen \<Rightarrow> Inr []
      | OneWhen t \<Rightarrow> one_condition t []
      | ManyWhen ts \<Rightarrow> if ts = [] then Inl SchemaError else each_step one_condition ts [])"

definition build_alternative :: "state_id \<Rightarrow> trigger_id \<Rightarrow> alternative_spec \<Rightarrow> model \<Rightarrow> status + model" where
  "build_alternative s t a m =
     (let target = find_state m (as_target a)
      in if target = kNoState then Inl UnknownState
         else attempt (guard_of_spec (as_when a)) (\<lambda>g. checked (add_transition s t target g m)))"

text \<open>The alternatives a transition has, whatever its spelling; \<open>None\<close> for an empty list.\<close>

definition alternatives_spec :: "outcome_spec \<Rightarrow> alternative_spec list" where
  "alternatives_spec outcome =
     (case outcome of Target t \<Rightarrow> [\<lparr>as_when = NoWhen, as_target = t\<rparr>]
      | OneAlternative a \<Rightarrow> [a]
      | Alternatives alts \<Rightarrow> alts)"

definition build_transition :: "state_id \<Rightarrow> string \<times> outcome_spec \<Rightarrow> model \<Rightarrow> status + model" where
  "build_transition s tr m =
     (let t = find_trigger m (fst tr)
      in if t = kNoTrigger then Inl UnknownTrigger
         else if alternatives_spec (snd tr) = [] then Inl SchemaError
         else each_step (build_alternative s t) (alternatives_spec (snd tr)) m)"

definition build_state :: "state_spec \<Rightarrow> model \<Rightarrow> status + model" where
  "build_state s m =
     (case ss_transitions s of None \<Rightarrow> Inr m
      | Some ts \<Rightarrow> each_step (build_transition (find_state m (ss_name s))) ts m)"

definition build_machine :: "machine_spec \<Rightarrow> status + model" where
  "build_machine spec =
     attempt (case ms_name spec of None \<Rightarrow> Inr model_clear
              | Some name \<Rightarrow> checked (model_set_name name model_clear)) (\<lambda>m.
     if ms_triggers spec = [] then Inl SchemaError
     else attempt (each_step (\<lambda>(name, channel) m.
            checked (case declare_trigger name (case channel of None \<Rightarrow> [] | Some c \<Rightarrow> c) m of
                       (status, m, i) \<Rightarrow> (status, m))) (ms_triggers spec) m) (\<lambda>m.
     if ms_states spec = [] then Inl SchemaError
     else attempt (each_step (\<lambda>s m.
            checked (case declare_state (ss_name s) m of (status, m, i) \<Rightarrow> (status, m))) (ms_states spec) m) (\<lambda>m.
     attempt (each_step build_state (ms_states spec) m) (\<lambda>m.
     if validate m = Ok then Inr m else Inl (validate m)))))"

lemma one_condition_length: "one_condition t g = Inr g' \<Longrightarrow> length g' = Suc (length g)"
  by (auto simp: one_condition_def checked_def split: if_splits prod.splits)

lemma each_condition_length: "each_step one_condition ts g = Inr g' \<Longrightarrow> length g' = length g + length ts"
  by (induction ts arbitrary: g) (auto simp: attempt_Inr_iff dest!: one_condition_length)

section \<open>The operations a document stands for\<close>

text \<open>Each of the parts above on the document itself, in the order the loader takes them.\<close>

definition doc_trigger :: "ydoc \<Rightarrow> model \<Rightarrow> status + model" where
  "doc_trigger doc m =
     (case entry doc ''name'' of None \<Rightarrow> Inl SchemaError
      | Some name \<Rightarrow> attempt (text_in name) (\<lambda>name.
          attempt (case entry doc ''channel'' of None \<Rightarrow> Inr [] | Some channel \<Rightarrow> text_in channel) (\<lambda>channel.
          checked (case declare_trigger name channel m of (status, m, i) \<Rightarrow> (status, m)))))"

definition doc_state :: "ydoc \<Rightarrow> model \<Rightarrow> status + model" where
  "doc_state doc m =
     (case entry doc ''name'' of None \<Rightarrow> Inl SchemaError
      | Some name \<Rightarrow> attempt (text_in name) (\<lambda>name.
          checked (case declare_state name m of (status, m, i) \<Rightarrow> (status, m))))"

definition doc_condition :: "ydoc \<Rightarrow> condition_list \<Rightarrow> status + condition_list" where
  "doc_condition doc g = attempt (text_in doc) (\<lambda>t. one_condition t g)"

definition doc_guard :: "ydoc option \<Rightarrow> status + condition_list" where
  "doc_guard w =
     (case w of None \<Rightarrow> Inr []
      | Some (YSeq docs) \<Rightarrow> if docs = [] then Inl SchemaError else each_step doc_condition docs []
      | Some doc \<Rightarrow> doc_condition doc [])"

definition doc_alternative :: "state_id \<Rightarrow> trigger_id \<Rightarrow> ydoc \<Rightarrow> model \<Rightarrow> status + model" where
  "doc_alternative s t doc m =
     (case entry doc ''target'' of None \<Rightarrow> Inl SchemaError
      | Some target \<Rightarrow> attempt (text_in target) (\<lambda>target.
          let i = find_state m target
          in if i = kNoState then Inl UnknownState
             else attempt (doc_guard (entry doc ''when'')) (\<lambda>g. checked (add_transition s t i g m))))"

definition doc_outcome :: "state_id \<Rightarrow> trigger_id \<Rightarrow> ydoc \<Rightarrow> model \<Rightarrow> status + model" where
  "doc_outcome s t doc m =
     (case doc of
        YScalar target \<Rightarrow>
          let i = find_state m target
          in if i = kNoState then Inl UnknownState else checked (add_transition s t i [] m)
      | YNull text \<Rightarrow> Inl SchemaError
      | YSeq docs \<Rightarrow> if docs = [] then Inl SchemaError else each_step (doc_alternative s t) docs m
      | YMap entries \<Rightarrow> doc_alternative s t doc m)"

definition doc_transition :: "state_id \<Rightarrow> string \<times> ydoc \<Rightarrow> model \<Rightarrow> status + model" where
  "doc_transition s e m =
     (let t = find_trigger m (fst e) in if t = kNoTrigger then Inl UnknownTrigger else doc_outcome s t (snd e) m)"

definition doc_links :: "ydoc \<Rightarrow> model \<Rightarrow> status + model" where
  "doc_links doc m =
     (case entry doc ''name'' of None \<Rightarrow> Inl SchemaError
      | Some name \<Rightarrow> attempt (text_in name) (\<lambda>name.
          case entry doc ''transitions'' of None \<Rightarrow> Inr m
          | Some (YMap entries) \<Rightarrow> each_step (doc_transition (find_state m name)) entries m
          | Some other \<Rightarrow> Inl SchemaError))"

definition doc_label :: "ydoc option \<Rightarrow> status + model" where
  "doc_label fsm =
     (case fsm of None \<Rightarrow> Inr model_clear
      | Some doc \<Rightarrow>
          if entry doc ''initial'' \<noteq> None then Inl SchemaError
          else case entry doc ''name'' of None \<Rightarrow> Inr model_clear
               | Some name \<Rightarrow> attempt (text_in name) (\<lambda>name. checked (model_set_name name model_clear)))"

definition doc_machine :: "ydoc \<Rightarrow> status + model" where
  "doc_machine doc =
     (case doc of
        YMap entries \<Rightarrow>
          if entry doc ''io'' \<noteq> None then Inl SchemaError
          else attempt (doc_label (entry doc ''fsm'')) (\<lambda>m.
               attempt (attempt (doc_sequence doc ''triggers'') (\<lambda>ts. each_step doc_trigger ts m)) (\<lambda>m.
               attempt (doc_sequence doc ''states'') (\<lambda>ss.
               attempt (each_step doc_state ss m) (\<lambda>m.
               attempt (each_step doc_links ss m) (\<lambda>m.
               if validate m = Ok then Inr m else Inl (validate m))))))
      | _ \<Rightarrow> Inl SchemaError)"

definition named :: "ydoc \<Rightarrow> bool" where
  "named doc \<longleftrightarrow> (\<exists>name t. entry doc ''name'' = Some name \<and> text_in name = Inr t)"

lemma named_states: "each_step doc_state docs m = Inr m' \<Longrightarrow> list_all named docs"
  by (induction docs arbitrary: m) (auto simp: doc_state_def named_def attempt_Inr_iff split: option.splits)

section \<open>A document that can be read is its machine file\<close>

lemma trigger_decoded:
  "trigger_of doc = Some t \<Longrightarrow> doc_trigger doc m =
     checked (case declare_trigger (fst t) (case snd t of None \<Rightarrow> [] | Some c \<Rightarrow> c) m of (status, m, i) \<Rightarrow> (status, m))"
  "trigger_of doc = None \<Longrightarrow> isl (doc_trigger doc m)"
  by (auto simp: trigger_of_def doc_trigger_def optionally_def text_in_def bind_eq_Some_conv bind_eq_None_conv
      split: option.splits)

lemma condition_decoded:
  "text_of doc = Some t \<Longrightarrow> doc_condition doc g = one_condition t g"
  "text_of doc = None \<Longrightarrow> isl (doc_condition doc g)"
  by (simp_all add: doc_condition_def text_in_def)

lemma guard_decoded:
  "when_of w = Some spec \<Longrightarrow> doc_guard w = guard_of_spec spec"
  "when_of w = None \<Longrightarrow> isl (doc_guard w)"
proof -
  have list: "each_step doc_condition docs g = each_step one_condition ts g" "docs = [] \<longleftrightarrow> ts = []"
    if "traverse text_of docs = Some ts" for docs ts g
    using each_step_decoded [OF that condition_decoded(1)] that by (auto simp: traverse_Some_iff)
  have refused: "isl (each_step doc_condition docs g)" if "traverse text_of docs = None" for docs g
    by (rule each_step_refused [OF that condition_decoded(2)])
  show "when_of w = Some spec \<Longrightarrow> doc_guard w = guard_of_spec spec"
    by (auto simp: when_of_def doc_guard_def guard_of_spec_def list condition_decoded split: option.splits ydoc.splits)
  show "when_of w = None \<Longrightarrow> isl (doc_guard w)"
    by (auto simp: when_of_def doc_guard_def refused condition_decoded split: option.splits ydoc.splits)
qed

lemma alternative_decoded:
  "alternative_of doc = Some a \<Longrightarrow> doc_alternative s t doc m = build_alternative s t a m"
  "alternative_of doc = None \<Longrightarrow> isl (doc_alternative s t doc m)"
proof -
  show "alternative_of doc = Some a \<Longrightarrow> doc_alternative s t doc m = build_alternative s t a m"
    by (auto simp: alternative_of_def doc_alternative_def build_alternative_def text_decoded guard_decoded
        bind_eq_Some_conv Let_def)
  assume none: "alternative_of doc = None"
  show "isl (doc_alternative s t doc m)"
  proof (cases "entry doc ''target''")
    case (Some target)
    have "isl (attempt (doc_guard (entry doc ''when'')) f)" if "text_of target \<noteq> None" for f :: "condition_list \<Rightarrow> status + model"
    proof -
      have "when_of (entry doc ''when'') = None"
        using none that by (auto simp: alternative_of_def Some bind_eq_None_conv)
      from guard_decoded(2) [OF this] show ?thesis
        by (intro isl_attempt) simp
    qed
    then show ?thesis
      by (cases "text_of target") (simp_all add: doc_alternative_def Some text_decoded Let_def)
  qed (simp add: doc_alternative_def)
qed

lemma outcome_decoded:
  "outcome_of doc = Some outcome \<Longrightarrow> doc_outcome s t doc m =
     (if alternatives_spec outcome = [] then Inl SchemaError
      else each_step (build_alternative s t) (alternatives_spec outcome) m)"
  "outcome_of doc = None \<Longrightarrow> isl (doc_outcome s t doc m)"
proof -
  have list: "each_step (doc_alternative s t) docs m = each_step (build_alternative s t) alts m" "docs = [] \<longleftrightarrow> alts = []"
    if "traverse alternative_of docs = Some alts" for docs alts
    using each_step_decoded [OF that alternative_decoded(1)] that by (auto simp: traverse_Some_iff)
  show "outcome_of doc = Some outcome \<Longrightarrow> doc_outcome s t doc m =
     (if alternatives_spec outcome = [] then Inl SchemaError
      else each_step (build_alternative s t) (alternatives_spec outcome) m)"
    by (auto simp: outcome_of_def doc_outcome_def alternatives_spec_def list alternative_decoded
        build_alternative_def guard_of_spec_def Let_def split: ydoc.splits)
  have "isl (each_step (doc_alternative s t) docs m)" if "traverse alternative_of docs = None" for docs
    by (rule each_step_refused [OF that alternative_decoded(2)])
  then show "outcome_of doc = None \<Longrightarrow> isl (doc_outcome s t doc m)"
    by (auto simp: outcome_of_def doc_outcome_def alternative_decoded split: ydoc.splits)
qed

lemma transition_decoded:
  "transition_of e = Some tr \<Longrightarrow> doc_transition s e m = build_transition s tr m"
  "transition_of e = None \<Longrightarrow> isl (doc_transition s e m)"
  by (auto simp: transition_of_def doc_transition_def build_transition_def outcome_decoded Let_def)

lemma state_decoded:
  "state_of doc = Some s \<Longrightarrow> doc_state doc m = checked (case declare_state (ss_name s) m of (status, m, i) \<Rightarrow> (status, m))"
  "state_of doc = Some s \<Longrightarrow> doc_links doc m = build_state s m"
  "state_of doc = None \<Longrightarrow> named doc \<Longrightarrow> isl (doc_links doc m)"
  "\<not> named doc \<Longrightarrow> isl (doc_state doc m)"
proof -
  show "state_of doc = Some s \<Longrightarrow> doc_state doc m = checked (case declare_state (ss_name s) m of (status, m, i) \<Rightarrow> (status, m))"
    by (auto simp: state_of_def doc_state_def text_decoded bind_eq_Some_conv)
  show "state_of doc = Some s \<Longrightarrow> doc_links doc m = build_state s m"
    by (auto simp: state_of_def doc_links_def build_state_def optionally_def transitions_in_def text_decoded
        bind_eq_Some_conv each_step_decoded [OF _ transition_decoded(1)] split: option.splits ydoc.splits)
  show "state_of doc = None \<Longrightarrow> named doc \<Longrightarrow> isl (doc_links doc m)"
    by (auto simp: state_of_def named_def doc_links_def optionally_def transitions_in_def text_in_def
        bind_eq_None_conv each_step_refused [OF _ transition_decoded(2)] split: option.splits ydoc.splits)
  show "\<not> named doc \<Longrightarrow> isl (doc_state doc m)"
    by (cases "entry doc ''name''") (auto simp: named_def doc_state_def text_in_def split: option.split)
qed

lemma label_decoded:
  "machine_label_of fsm = Some name \<Longrightarrow> doc_label fsm =
     (case name of None \<Rightarrow> Inr model_clear | Some name \<Rightarrow> checked (model_set_name name model_clear))"
  "machine_label_of fsm = None \<Longrightarrow> isl (doc_label fsm)"
  by (auto simp: machine_label_of_def doc_label_def optionally_def text_in_def split: option.splits if_splits)

text \<open>A sequence of the document, read or refused.\<close>

lemma sequence_decoded:
  assumes "entry doc key = Some sd"
  shows "sequence_of f sd = Some xs \<Longrightarrow> \<exists>docs. traverse f docs = Some xs \<and>
      doc_sequence doc key = (if xs = [] then Inl SchemaError else Inr docs)"
    and "sequence_of f sd = None \<Longrightarrow> isl (doc_sequence doc key) \<or>
      (\<exists>docs. traverse f docs = None \<and> doc_sequence doc key = Inr docs)"
  using assms by (auto simp: sequence_of_def doc_sequence_def traverse_Some_iff split: ydoc.splits)

lemma states_refused:
  assumes "traverse state_of docs = None" and "each_step doc_state docs m = Inr m1"
  shows "each_step doc_links docs m1 \<noteq> Inr m2"
proof -
  have named: "list_all named docs"
    by (rule named_states [OF assms(2)])
  from assms(1) obtain doc where "doc \<in> set docs" "state_of doc = None"
    by (auto simp: traverse_None_iff)
  with named state_decoded(3) have "isl (each_step doc_links docs m1)"
    by (intro each_step_stops [where I = "\<lambda>m. True" and x = doc]) (auto simp: list_all_iff)
  then show ?thesis by auto
qed

lemma machine_decoded:
  "machine_of doc = Some spec \<Longrightarrow> doc_machine doc = build_machine spec"
  "machine_of doc = None \<Longrightarrow> isl (doc_machine doc)"
proof -
  assume some: "machine_of doc = Some spec"
  then obtain tsd ssd where parts: "entry doc ''io'' = None" "machine_label_of (entry doc ''fsm'') = Some (ms_name spec)"
      "entry doc ''triggers'' = Some tsd" "sequence_of trigger_of tsd = Some (ms_triggers spec)"
      "entry doc ''states'' = Some ssd" "sequence_of state_of ssd = Some (ms_states spec)"
    by (auto simp: machine_of_def bind_eq_Some_conv split: if_splits)
  obtain ts where ts: "traverse trigger_of ts = Some (ms_triggers spec)"
      "doc_sequence doc ''triggers'' = (if ms_triggers spec = [] then Inl SchemaError else Inr ts)"
    using sequence_decoded(1) [OF parts(3,4)] by blast
  obtain ss where ss: "traverse state_of ss = Some (ms_states spec)"
      "doc_sequence doc ''states'' = (if ms_states spec = [] then Inl SchemaError else Inr ss)"
    using sequence_decoded(1) [OF parts(5,6)] by blast
  have triggers: "each_step doc_trigger ts m = each_step (\<lambda>(name, channel) m.
      checked (case declare_trigger name (case channel of None \<Rightarrow> [] | Some c \<Rightarrow> c) m of (status, m, i) \<Rightarrow> (status, m)))
        (ms_triggers spec) m" for m
    by (rule each_step_decoded [OF ts(1)]) (simp add: trigger_decoded split_beta)
  have states: "each_step doc_state ss m = each_step (\<lambda>s m.
      checked (case declare_state (ss_name s) m of (status, m, i) \<Rightarrow> (status, m))) (ms_states spec) m"
    "each_step doc_links ss m = each_step build_state (ms_states spec) m" for m
    by (rule each_step_decoded [OF ss(1)]; simp add: state_decoded)+
  from parts(3) obtain entries where "doc = YMap entries"
    by (cases doc) simp_all
  then have "doc_machine doc = attempt (doc_label (entry doc ''fsm'')) (\<lambda>m.
      attempt (attempt (doc_sequence doc ''triggers'') (\<lambda>ts. each_step doc_trigger ts m)) (\<lambda>m.
      attempt (doc_sequence doc ''states'') (\<lambda>ss. attempt (each_step doc_state ss m) (\<lambda>m.
      attempt (each_step doc_links ss m) (\<lambda>m. if validate m = Ok then Inr m else Inl (validate m))))))"
    using parts(1) by (simp add: doc_machine_def)
  then show "doc_machine doc = build_machine spec"
    unfolding build_machine_def label_decoded(1) [OF parts(2)] ts(2) ss(2)
    by (auto simp: triggers states intro!: arg_cong [of _ _ "attempt _"])
next
  assume none: "machine_of doc = None"
  show "isl (doc_machine doc)"
  proof (cases "\<exists>entries. doc = YMap entries")
    case False
    then show ?thesis
      by (cases doc) (simp_all add: doc_machine_def)
  next
    case True
    consider "entry doc ''io'' \<noteq> None" | "machine_label_of (entry doc ''fsm'') = None"
      | "isl (doc_sequence doc ''triggers'')" | "isl (doc_sequence doc ''states'')"
      | ts where "doc_sequence doc ''triggers'' = Inr ts" "traverse trigger_of ts = None"
      | ss where "doc_sequence doc ''states'' = Inr ss" "traverse state_of ss = None"
    proof (cases "entry doc ''triggers''"; cases "entry doc ''states''")
      fix tsd ssd
      assume "entry doc ''triggers'' = Some tsd" "entry doc ''states'' = Some ssd"
      with none that sequence_decoded(2) [of doc "''triggers''" tsd trigger_of]
        sequence_decoded(2) [of doc "''states''" ssd state_of] show thesis
        by (auto simp: machine_of_def bind_eq_None_conv split: if_splits)
    qed (use that in \<open>auto simp: doc_sequence_def\<close>)
    then show ?thesis
    proof cases
      case 2
      then have "isl (doc_label (entry doc ''fsm''))"
        by (rule label_decoded(2))
      with True show ?thesis
        by (cases "doc_label (entry doc ''fsm'')") (auto simp: doc_machine_def)
    next
      case (5 ts)
      have "each_step doc_trigger ts m \<noteq> Inr m'" for m m'
        using each_step_refused [where step = doc_trigger and m = m, OF 5(2) trigger_decoded(2)] by auto
      with 5 True show ?thesis
        by (auto simp: doc_machine_def intro!: isl_attempt)
    next
      case (6 ss)
      with True show ?thesis
        by (auto simp: doc_machine_def states_refused [OF 6(2)] intro!: isl_attempt)
    qed (use True in \<open>auto simp: doc_machine_def intro!: isl_attempt\<close>)
  qed
qed

section \<open>A machine file\<close>

text \<open>
  Forward references, a channel of its own, a label, and all three spellings of a transition.
\<close>

definition file_spec :: machine_spec where
  "file_spec =
     \<lparr>ms_name = Some ''demo'',
      ms_triggers = [(''go'', None), (''halt'', Some ''brakes/on'')],
      ms_states =
        [\<lparr>ss_name = ''idle'',
          ss_transitions = Some
            [(''go'', Alternatives
               [\<lparr>as_when = ManyWhen [''pedal > 5'', ''mode != eco''], as_target = ''running''\<rparr>,
                \<lparr>as_when = NoWhen, as_target = ''idle''\<rparr>])]\<rparr>,
         \<lparr>ss_name = ''running'',
          ss_transitions = Some
            [(''go'', OneAlternative \<lparr>as_when = OneWhen ''pedal == 0'', as_target = ''idle''\<rparr>),
             (''halt'', Target ''stuck'')]\<rparr>,
         \<lparr>ss_name = ''stuck'', ss_transitions = None\<rparr>]\<rparr>"

definition file_library :: "ydoc option yaml_ops" where
  "file_library = document_ops (machine_doc file_spec)"

lemma file_library_reads: "reads file_library (Some (machine_doc file_spec)) (machine_doc file_spec)"
  by (simp add: file_library_def document_ops_reads)

lemma file_library_loads: "yn_load_text file_library t = Inr (Some (machine_doc file_spec))"
  by (simp add: file_library_def document_ops_def)

end
