(* ===== verification/MachineBehaviour.thy ===== *)
theory MachineBehaviour
  imports MachineSpec
begin

text \<open>
  The behaviour a machine file describes: what the operations of \<open>build_machine\<close> make the model
  decide in every state on every trigger.
\<close>

section \<open>The behaviour a file describes\<close>

text \<open>The names a model resolves, which is all a transition depends on.\<close>

definition names_of :: "model \<Rightarrow> (string \<Rightarrow> state_id) \<times> (string \<Rightarrow> trigger_id)" where
  "names_of m = (find_state m, find_trigger m)"

definition guard_spec :: "when_spec \<Rightarrow> condition_list" where
  "guard_spec w = (case guard_of_spec w of Inl e \<Rightarrow> [] | Inr g \<Rightarrow> g)"

definition outcomes_spec ::
  "(string \<Rightarrow> state_id) \<Rightarrow> outcome_spec \<Rightarrow> (condition list \<times> state_id) list" where
  "outcomes_spec fs outcome = map (\<lambda>a. (guard_spec (as_when a), fs (as_target a))) (alternatives_spec outcome)"

definition transitions_spec ::
  "(string \<Rightarrow> state_id) \<times> (string \<Rightarrow> trigger_id) \<Rightarrow> (string \<times> outcome_spec) list \<Rightarrow> trigger_id \<Rightarrow>
     (condition list \<times> state_id) list" where
  "transitions_spec names trs t =
     concat (map (\<lambda>tr. if t = snd names (fst tr) then outcomes_spec (fst names) (snd tr) else []) trs)"

text \<open>What the file says the machine does on a trigger in a state, the names resolved.\<close>

definition behaviour_spec ::
  "(string \<Rightarrow> state_id) \<times> (string \<Rightarrow> trigger_id) \<Rightarrow> machine_spec \<Rightarrow> state_id \<Rightarrow> trigger_id \<Rightarrow>
     (condition list \<times> state_id) list" where
  "behaviour_spec names spec s t =
     concat (map (\<lambda>st. if s = fst names (ss_name st)
                       then transitions_spec names (case ss_transitions st of None \<Rightarrow> [] | Some trs \<Rightarrow> trs) t
                       else [])
       (ms_states spec))"

text \<open>A sequence of steps each of which adds to the behaviour and resolves names as before.\<close>

definition adds ::
  "((string \<Rightarrow> state_id) \<times> (string \<Rightarrow> trigger_id) \<Rightarrow> state_id \<Rightarrow> trigger_id \<Rightarrow> (condition list \<times> state_id) list) \<Rightarrow>
     model \<Rightarrow> model \<Rightarrow> bool" where
  "adds effect m m' \<longleftrightarrow> loadable m' \<and> names_of m' = names_of m \<and>
     (\<forall>u v. behaviour m' u v = behaviour m u v @ effect (names_of m) u v)"

lemma each_step_adds:
  assumes "\<And>x m m'. loadable m \<Longrightarrow> step x m = Inr m' \<Longrightarrow> adds (effect x) m m'"
  shows "loadable m \<Longrightarrow> each_step step xs m = Inr m' \<Longrightarrow>
    adds (\<lambda>names u v. concat (map (\<lambda>x. effect x names u v) xs)) m m'"
proof (induction xs arbitrary: m)
  case (Cons x xs)
  from Cons(3) obtain m1 where m1: "step x m = Inr m1" "each_step step xs m1 = Inr m'"
    by (auto simp: attempt_Inr_iff)
  with assms [OF Cons(2)] Cons(1) [of m1] show ?case
    by (simp add: adds_def)
qed (simp add: adds_def)

lemma names_of_cong:
  "state_index m' = state_index m \<Longrightarrow> trigger_index m' = trigger_index m \<Longrightarrow> names_of m' = names_of m"
  by (simp add: names_of_def find_state_def find_trigger_def assign_checked_eq fun_eq_iff)

lemma names_of_add_transition: "names_of (snd (add_transition s t target g m)) = names_of m"
  by (cases rule: add_transition_cases [of m s t target g]) (auto intro: names_of_cong)

lemma adds_transition:
  assumes "loadable m" and "guard_wf g" and "checked (add_transition s t target g m) = Inr m'"
  shows "adds (\<lambda>names u v. if u = s \<and> v = t then [(g, target)] else []) m m'"
proof -
  from assms(3) have m': "fst (add_transition s t target g m) = Ok" "m' = snd (add_transition s t target g m)"
    by (auto simp: checked_def split: prod.splits if_splits)
  have ok: "model_ok m" and len: "length g \<le> kMaxConditionsPerGuard"
    using assms(1,2) built_model_ok by (auto simp: loadable_def guard_wf_def)
  have "transition_fits m s t target g"
    using m'(1) by (cases rule: add_transition_cases [of m s t target g]) auto
  from behaviour_add_transition [OF ok len this] loadable_add_transition [OF assms(1) len] assms(2) show ?thesis
    by (simp add: adds_def m'(2) names_of_add_transition guard_wf_def)
qed

lemma guard_wf_each:
  "guard_wf g \<Longrightarrow> each_step one_condition ts g = Inr g' \<Longrightarrow> guard_wf g'"
proof (induction ts arbitrary: g)
  case (Cons t ts)
  then obtain g1 where g1: "one_condition t g = Inr g1" "each_step one_condition ts g1 = Inr g'"
    by (auto simp: attempt_Inr_iff)
  with Cons(2) parse_condition_snd [of t] have "guard_wf g1"
    by (auto simp: one_condition_def checked_def guard_wf_def split: if_splits prod.splits)
  with g1 Cons(1) show ?case by blast
qed simp

lemma guard_wf_spec: "guard_of_spec w = Inr g \<Longrightarrow> guard_wf g"
  using guard_wf_each [of "[]" _ g] guard_wf_each [of "[]" "[t]" g for t]
  by (auto simp: guard_of_spec_def guard_wf_def split: when_spec.splits if_splits)

lemma adds_alternative:
  assumes "loadable m" and "build_alternative s t a m = Inr m'"
  shows "adds (\<lambda>names u v. if u = s \<and> v = t then [(guard_spec (as_when a), fst names (as_target a))] else []) m m'"
proof -
  from assms(2) obtain g where "guard_of_spec (as_when a) = Inr g"
      "checked (add_transition s t (find_state m (as_target a)) g m) = Inr m'"
    by (auto simp: build_alternative_def Let_def attempt_Inr_iff split: if_splits)
  with adds_transition [OF assms(1) guard_wf_spec [of "as_when a" g]] show ?thesis
    by (simp add: adds_def guard_spec_def names_of_def)
qed

lemma adds_outcome:
  assumes "loadable m" and "build_transition s tr m = Inr m'"
  shows "adds (\<lambda>names u v. if u = s \<and> v = snd names (fst tr) then outcomes_spec (fst names) (snd tr) else []) m m'"
proof -
  have "each_step (build_alternative s (find_trigger m (fst tr))) (alternatives_spec (snd tr)) m = Inr m'"
    using assms(2) by (auto simp: build_transition_def Let_def split: if_splits)
  from each_step_adds [OF adds_alternative assms(1) this] show ?thesis
    by (auto simp: adds_def names_of_def outcomes_spec_def)
qed

lemma adds_state:
  assumes "loadable m" and "build_state st m = Inr m'"
  shows "adds (\<lambda>names u v. if u = fst names (ss_name st)
      then transitions_spec names (case ss_transitions st of None \<Rightarrow> [] | Some trs \<Rightarrow> trs) v else []) m m'"
proof (cases "ss_transitions st")
  case None
  with assms show ?thesis by (simp add: build_state_def adds_def transitions_spec_def)
next
  case (Some trs)
  with assms(2) have "each_step (build_transition (find_state m (ss_name st))) trs m = Inr m'"
    by (simp add: build_state_def)
  from each_step_adds [OF adds_outcome assms(1) this] show ?thesis
    by (auto simp: adds_def names_of_def transitions_spec_def Some intro!: arg_cong [of _ _ concat] map_cong)
qed

text \<open>Declaring leaves a machine without transitions.\<close>

definition unlinked :: "model \<Rightarrow> bool" where
  "unlinked m \<longleftrightarrow> loadable m \<and> (\<forall>u v. behaviour m u v = [])"

lemma behaviour_states: "states m' = states m \<Longrightarrow> behaviour m s t = [] \<Longrightarrow> behaviour m' s t = []"
  by (simp add: behaviour_def alternatives_of_def)

lemma unlinked_declare_trigger:
  assumes "unlinked m" and "checked (case declare_trigger name channel m of (status, m, i) \<Rightarrow> (status, m)) = Inr m'"
  shows "unlinked m'"
proof -
  have m': "m' = fst (snd (declare_trigger name channel m))"
    using assms(2) by (auto simp: checked_def split: prod.splits if_splits)
  have "states m' = states m"
    by (simp add: m' declare_trigger_def Let_def split_beta)
  with assms(1) loadable_declare(1) [of m name channel] m' show ?thesis
    by (auto simp: unlinked_def intro: behaviour_states)
qed

lemma unlinked_declare_state:
  assumes "unlinked m" and "checked (case declare_state name m of (status, m, i) \<Rightarrow> (status, m)) = Inr m'"
  shows "unlinked m'"
proof -
  have m': "m' = fst (snd (declare_state name m))"
    using assms(2) by (auto simp: checked_def split: prod.splits if_splits)
  have "states m' = states m \<or>
      states m' = fm_insert (word_of_nat (length (states m))) \<lparr>node_name = name, transitions = []\<rparr> (states m)"
    by (auto simp: m' declare_state_def Let_def assign_checked_eq)
  moreover have "fm_find (states m) (word_of_nat (length (states m))) = None"
    using assms(1) built_model_ok [of m] model_okD(1) [of m]
    by (intro fresh_id) (auto simp: unlinked_def loadable_def tables_ok_def kMaxStates_def)
  ultimately have "alternatives_of m' u v = alternatives_of m u v" for u v
    by (auto simp: alternatives_of_def fm_find_insert_new fm_find_None_iff [THEN iffD2])
  with assms(1) loadable_declare(2) [of m name] m' show ?thesis
    by (simp add: unlinked_def behaviour_def)
qed

lemma build_machine_behaviour:
  assumes "build_machine spec = Inr m"
  shows "behaviour m u v = behaviour_spec (names_of m) spec u v"
proof -
  from assms obtain m0 m1 m2 where
    m0: "(case ms_name spec of None \<Rightarrow> Inr model_clear | Some name \<Rightarrow> checked (model_set_name name model_clear)) = Inr m0" and
    m1: "each_step (\<lambda>(name, channel) m. checked (case declare_trigger name (case channel of None \<Rightarrow> [] | Some c \<Rightarrow> c) m of
           (status, m, i) \<Rightarrow> (status, m))) (ms_triggers spec) m0 = Inr m1" and
    m2: "each_step (\<lambda>s m. checked (case declare_state (ss_name s) m of (status, m, i) \<Rightarrow> (status, m))) (ms_states spec) m1 = Inr m2" and
    m: "each_step build_state (ms_states spec) m2 = Inr m"
    unfolding build_machine_def by (auto simp: attempt_Inr_iff split: if_splits)
  have "unlinked model_clear"
    by (simp add: unlinked_def loadable_clear) (simp add: behaviour_def alternatives_of_def model_clear_def fm_find_None_iff [THEN iffD2])
  moreover have "unlinked (snd (model_set_name name model_clear))" if "unlinked model_clear" for name
  proof -
    have "states (snd (model_set_name name model_clear)) = states model_clear"
      by (simp add: model_set_name_def split_beta)
    from behaviour_states [OF this] loadable_set_name [OF loadable_clear] that show ?thesis
      by (simp add: unlinked_def)
  qed
  ultimately have "unlinked m0"
    using m0 by (cases "ms_name spec") (auto simp: checked_def split_beta split: if_splits)
  then have "unlinked m1"
    using m1 by (rule each_step_inv [rotated]) (auto intro: unlinked_declare_trigger)
  then have "unlinked m2"
    using m2 by (rule each_step_inv [rotated]) (rule unlinked_declare_state)
  with each_step_adds [OF adds_state _ m] show ?thesis
    by (simp add: adds_def unlinked_def behaviour_spec_def)
qed

end
