(* ===== verification/MachineDocuments.thy ===== *)
theory MachineDocuments
  imports MachineBehaviour
begin

text \<open>
  The machine loader (parse_machine and the functions under it, src/config/yaml_loader.cpp) on
  any document: it agrees with \<open>doc_machine\<close>, and on a document that can be read as a machine
  file with \<open>build_machine\<close>, so that the loaded machine behaves as the file says.
\<close>

section \<open>The loader is that sequence\<close>

lemma agrees_read_one:
  assumes "reads ops node doc"
  shows "agrees d (read_one ops called node g d) (doc_condition doc g)"
  unfolding read_one_def doc_condition_def
  by (rule agrees_text [OF assms])
    (use reads_kind(2) [OF assms] in
      \<open>auto simp: one_condition_def checked_def split_beta Let_def intro!: agrees_report agrees_Ok\<close>)

lemma agrees_read_all:
  "list_all2 (reads ops) nodes docs \<Longrightarrow>
    agrees d (read_all ops called nodes g d) (each_step doc_condition docs g)"
proof (induction docs arbitrary: nodes g)
  case (Cons t ts)
  then show ?case
    by (auto simp: list_all2_Cons2 intro!: agrees_and_then agrees_read_one)
qed (simp add: agrees_Ok)

lemma doc_condition_length: "each_step doc_condition docs g = Inr g' \<Longrightarrow> length g' = length g + length docs"
  by (induction docs arbitrary: g) (auto simp: doc_condition_def attempt_Inr_iff dest!: one_condition_length)

lemma agrees_parse_when:
  assumes "reads ops node doc"
  shows "agrees d (parse_when ops node called [] d) (doc_guard (Some doc))"
proof (cases "\<exists>docs. doc = YSeq docs")
  case False
  then have "doc_guard (Some doc) = doc_condition doc []"
    by (cases doc) (simp_all add: doc_guard_def)
  with False agrees_read_one [OF assms] reads_kind [OF assms] show ?thesis
    by (cases doc) (simp_all add: parse_when_def)
next
  case True
  then obtain docs where doc: "doc = YSeq docs" by blast
  from assms [unfolded doc] obtain nodes where
    nodes: "yn_elements ops node = Inr nodes" "list_all2 (reads ops) nodes docs"
    by (auto elim: reads_seqE)
  have "agrees d (and_then (read_all ops called nodes [] d) (\<lambda>g d.
        if g = [] then report_at ops SchemaError node (quote @ ''%s': empty 'when'' @ quote) [called] g d
        else Inr (Ok, g, d)))
      (attempt (each_step doc_condition docs []) (\<lambda>g. if g = [] then Inl SchemaError else Inr g))"
    by (rule agrees_and_then [OF agrees_read_all [OF nodes(2)]])
      (use reads_kind(2) [OF assms(1)] in \<open>simp add: agrees_Ok agrees_report\<close>)
  then have "agrees d (parse_when ops node called [] d)
      (attempt (each_step doc_condition docs []) (\<lambda>g. if g = [] then Inl SchemaError else Inr g))"
    using nodes(1) reads_kind [OF assms(1)] by (simp add: parse_when_def doc)
  moreover have "attempt (each_step doc_condition docs []) (\<lambda>g. if g = [] then Inl SchemaError else Inr g) = doc_guard (Some doc)"
    using doc_condition_length [of docs "[]"] doc
    by (cases "each_step doc_condition docs []") (auto simp: doc_guard_def)
  ultimately show ?thesis by simp
qed

text \<open>A guard that may be missing.\<close>

lemma agrees_when_child:
  assumes "reads ops node (YMap entries)"
  obtains w where "yn_get ops node ''when'' = Inr w"
    "\<forall>d called. agrees d (parse_when ops w called [] d) (doc_guard (map_of entries ''when''))"
proof (cases "map_of entries ''when''")
  case None
  obtain w where "yn_get ops node ''when'' = Inr w" "\<not> yn_defined ops w"
    by (rule reads_no_child [OF assms None])
  with that None show ?thesis by (simp add: parse_when_def doc_guard_def agrees_Ok)
next
  case (Some doc)
  obtain w where "yn_get ops node ''when'' = Inr w" "reads ops w doc"
    by (rule reads_child [OF assms Some])
  with that Some show ?thesis by (simp add: agrees_parse_when)
qed

lemma agrees_add:
  assumes "\<not> isl (yn_line ops node)"
  shows "agrees d
    (case add_transition s t target g m of (status, m) \<Rightarrow>
       if \<not> is_ok status then report_at ops status node fmt (args status) m d else Inr (status, m, d))
    (checked (add_transition s t target g m))"
  using assms by (auto simp: checked_def split_beta intro!: agrees_report agrees_Ok)

lemma agrees_parse_alternative:
  assumes "reads ops node doc"
  shows "agrees d (parse_alternative ops node s t called m d) (doc_alternative s t doc m)"
proof (cases "entry doc ''target''")
  case None
  with reads_is_map_with [OF assms, of "''target''"] reads_kind(2) [OF assms] show ?thesis
    by (simp add: parse_alternative_def doc_alternative_def agrees_report)
next
  case (Some target)
  then obtain entries where doc: "doc = YMap entries" and target: "map_of entries ''target'' = Some target"
    by (cases doc) simp_all
  note node = assms [unfolded doc]
  obtain child where child: "yn_get ops node ''target'' = Inr child" "reads ops child target"
    by (rule reads_child [OF node target])
  obtain w where w: "yn_get ops node ''when'' = Inr w"
    "\<forall>d called. agrees d (parse_when ops w called [] d) (doc_guard (map_of entries ''when''))"
    by (rule agrees_when_child [OF node])
  have rest: "agrees d (attempt (parse_when ops w called [] d) (\<lambda>(guard, g, d).
          if \<not> is_ok guard then Inr (guard, m, d)
          else let (status, m) = add_transition s t i g m in
            if \<not> is_ok status
            then report_at ops status node ''transition on '%s': %s'' [called, status_to_string status] m d
            else Inr (status, m, d)))
        (attempt (doc_guard (map_of entries ''when'')) (\<lambda>g. checked (add_transition s t i g m)))" for i
  proof (cases "doc_guard (map_of entries ''when'')")
    case (Inl e)
    with spec [OF spec [OF w(2), of d], of called] show ?thesis
      by (cases "parse_when ops w called [] d") (auto simp: agrees_def split: prod.splits)
  next
    case (Inr g)
    with spec [OF spec [OF w(2), of d], of called] have "parse_when ops w called [] d = Inr (Ok, g, d)"
      by (auto simp: agrees_def)
    with Inr agrees_add [OF reads_kind(2) [OF assms]] show ?thesis
      unfolding Let_def by simp
  qed
  have "agrees d (attempt (string_at ops node ''target'') (\<lambda>target_name.
       let target = find_state m target_name
       in if target = kNoState
          then attempt (yn_get ops node ''target'') (\<lambda>child.
            report_at ops UnknownState child ''target state '%s' does not exist'' [target_name] m d)
          else attempt (yn_get ops node ''when'') (\<lambda>when.
            attempt (parse_when ops when called [] d) (\<lambda>(guard, guard_conditions, d).
              if \<not> is_ok guard then Inr (guard, m, d)
              else
                let (status, m) = add_transition s t target guard_conditions m
                in if \<not> is_ok status
                   then report_at ops status node ''transition on '%s': %s'' [called, status_to_string status] m d
                   else Inr (status, m, d)))))
     (attempt (text_in target) (\<lambda>target.
          let i = find_state m target
          in if i = kNoState then Inl UnknownState
             else attempt (doc_guard (entry doc ''when'')) (\<lambda>g. checked (add_transition s t i g m))))"
    using child(1) reads_kind(2) [OF child(2)] w(1) rest
    by (intro agrees_text_at [OF node target]) (simp add: doc agrees_report Let_def)
  with reads_is_map_with [OF node, of "''target''"] target Some show ?thesis
    by (simp add: parse_alternative_def doc_alternative_def)
qed

lemma agrees_parse_alternatives:
  "list_all2 (reads ops) nodes docs \<Longrightarrow>
    agrees d (parse_alternatives ops nodes s t called m d) (each_step (doc_alternative s t) docs m)"
proof (induction docs arbitrary: nodes m)
  case (Cons a alts)
  then show ?case
    by (auto simp: list_all2_Cons2 intro!: agrees_and_then agrees_parse_alternative)
qed (simp add: agrees_Ok)

lemma agrees_link_outcome:
  assumes "reads ops node doc" and "reads ops key (YScalar called)"
  shows "agrees d (link_outcome ops key node s t called m d) (doc_outcome s t doc m)"
proof (cases doc)
  case (YScalar target)
  note node = assms(1) [unfolded YScalar]
  have "agrees d
      (case add_transition s t i [] m of (status, m) \<Rightarrow>
         if status \<noteq> Ok then report_at ops status key fmt (args status) m d else Inr (Ok, m, d))
      (checked (add_transition s t i [] m))" for i fmt args
    using reads_kind(2) [OF assms(2)]
    by (auto simp: checked_def split_beta intro!: agrees_report agrees_Ok)
  with reads_kind [OF node] reads_string [OF node] show ?thesis
    by (auto simp: YScalar link_outcome_def doc_outcome_def Let_def add_unguarded_transition_def intro!: agrees_report)
next
  case (YNull t)
  with reads_kind [OF assms(1)] show ?thesis
    by (simp add: link_outcome_def doc_outcome_def agrees_report)
next
  case (YSeq docs)
  with assms(1) obtain nodes where nodes: "yn_elements ops node = Inr nodes" "list_all2 (reads ops) nodes docs"
      "yn_size ops node = Inr (length docs)"
    by (auto elim: reads_seqE)
  with agrees_parse_alternatives [OF nodes(2)] reads_kind [OF assms(1)] YSeq show ?thesis
    by (auto simp: link_outcome_def doc_outcome_def intro!: agrees_report)
next
  case (YMap entries)
  with agrees_parse_alternative [OF assms(1)] reads_kind [OF assms(1)] show ?thesis
    by (simp add: link_outcome_def doc_outcome_def)
qed

lemma agrees_link_transitions:
  "list_all2 (reads ops) (map fst pairs) (map (\<lambda>e. YScalar (fst e)) entries) \<Longrightarrow>
   list_all2 (reads ops) (map snd pairs) (map snd entries) \<Longrightarrow>
    agrees d (link_transitions ops pairs s m d) (each_step (doc_transition s) entries m)"
proof (induction entries arbitrary: pairs m)
  case (Cons e entries)
  then obtain key node pairs' where pairs: "pairs = (key, node) # pairs'"
    by (cases pairs) auto
  with Cons(2,3) have key: "reads ops key (YScalar (fst e))" and node: "reads ops node (snd e)"
    and rest: "list_all2 (reads ops) (map fst pairs') (map (\<lambda>e. YScalar (fst e)) entries)"
      "list_all2 (reads ops) (map snd pairs') (map snd entries)"
    by simp_all
  have "agrees d (and_then (link_outcome ops key node s (find_trigger m (fst e)) (fst e) m d)
        (link_transitions ops pairs' s))
      (attempt (doc_outcome s (find_trigger m (fst e)) (snd e) m) (each_step (doc_transition s) entries))"
    by (rule agrees_and_then [OF agrees_link_outcome [OF node key]]) (rule Cons(1) [OF rest])
  with reads_kind(2) [OF key] show ?case
    by (simp add: pairs reads_string [OF key] doc_transition_def [of s e] Let_def agrees_report)
qed (simp add: agrees_Ok)

text \<open>The second pass relies on the first: every state has a name.\<close>

lemma agrees_link_states:
  "list_all2 (reads ops) nodes docs \<Longrightarrow> list_all named docs \<Longrightarrow>
    agrees d (link_states ops nodes m d) (each_step doc_links docs m)"
proof (induction docs arbitrary: nodes m)
  case (Cons doc docs)
  then obtain node nodes' where nodes: "nodes = node # nodes'" and node: "reads ops node doc"
      and rest: "list_all2 (reads ops) nodes' docs"
    by (auto simp: list_all2_Cons2)
  from Cons(3) obtain entries name_doc name where doc: "doc = YMap entries"
    and name_doc: "map_of entries ''name'' = Some name_doc" and name: "text_in name_doc = Inr name"
    by (cases doc) (auto simp: named_def)
  note map = node [unfolded doc]
  obtain child where "yn_get ops node ''name'' = Inr child" "reads ops child name_doc"
    by (rule reads_child [OF map name_doc])
  with reads_text(1) [of ops child name_doc] name have called: "string_at ops node ''name'' = Inr name"
    by (simp add: string_at_def)
  note again = Cons(1) [OF rest]
  show ?case
  proof (cases "map_of entries ''transitions''")
    case None
    obtain child where "yn_get ops node ''transitions'' = Inr child" "\<not> yn_defined ops child"
      by (rule reads_no_child [OF map None])
    with again [of m] Cons(3) None name name_doc called show ?thesis
      by (simp add: nodes doc_links_def [of "YMap entries"] doc Let_def)
  next
    case (Some trs)
    obtain child where child: "yn_get ops node ''transitions'' = Inr child" "reads ops child trs"
      by (rule reads_child [OF map Some])
    show ?thesis
    proof (cases "\<exists>es. trs = YMap es")
      case True
      then obtain es where es: "trs = YMap es" by blast
      from child(2) [unfolded es] obtain pairs where pairs: "yn_pairs ops child = Inr pairs"
        "list_all2 (reads ops) (map fst pairs) (map (\<lambda>e. YScalar (fst e)) es)"
        "list_all2 (reads ops) (map snd pairs) (map snd es)"
        by (rule reads_mapE)
      have "agrees d (and_then (link_transitions ops pairs (find_state m name) m d) (link_states ops nodes'))
          (attempt (each_step (doc_transition (find_state m name)) es m) (each_step doc_links docs))"
        by (rule agrees_and_then [OF agrees_link_transitions [OF pairs(2,3)]]) (use again Cons(3) in simp_all)
      with child(1) called pairs(1) reads_kind [OF child(2)] Some name name_doc es show ?thesis
        by (simp add: nodes doc_links_def [of "YMap entries"] doc Let_def)
    next
      case False
      then have "doc_links doc m = Inl SchemaError"
        using Some name name_doc by (cases trs) (simp_all add: doc_links_def doc)
      with False child(1) called reads_kind [OF child(2)] Some show ?thesis
        by (cases trs) (simp_all add: nodes agrees_report Let_def)
    qed
  qed
qed (simp add: agrees_Ok)

lemma agrees_declare_states:
  "list_all2 (reads ops) nodes docs \<Longrightarrow> agrees d (declare_states ops nodes m d) (each_step doc_state docs m)"
proof (induction docs arbitrary: nodes m)
  case (Cons doc docs)
  then obtain node nodes' where nodes: "nodes = node # nodes'" and node: "reads ops node doc"
      and rest: "list_all2 (reads ops) nodes' docs"
    by (auto simp: list_all2_Cons2)
  show ?case
  proof (cases "entry doc ''name''")
    case None
    with reads_is_map_with [OF node, of "''name''"] reads_kind(2) [OF node] show ?thesis
      by (simp add: nodes doc_state_def agrees_report)
  next
    case (Some name)
    then obtain entries where doc: "doc = YMap entries" and name: "map_of entries ''name'' = Some name"
      by (cases doc) simp_all
    note map = node [unfolded doc]
    have "agrees d (attempt (string_at ops node ''name'') (\<lambda>name.
         let (status, m, i) = declare_state name m
         in if \<not> is_ok status
            then report_at ops status node ''state '%s': %s'' [name, status_to_string status] m d
            else declare_states ops nodes' m d))
       (attempt (text_in name) (\<lambda>name. attempt (checked (case declare_state name m of (status, m, i) \<Rightarrow> (status, m)))
          (each_step doc_state docs)))"
      using Cons(1) [OF rest] reads_kind(2) [OF node]
      by (intro agrees_text_at [OF map name]) (auto simp: checked_def split_beta Let_def intro: agrees_report)
    moreover have "each_step doc_state (doc # docs) m =
        attempt (text_in name) (\<lambda>name. attempt (checked (case declare_state name m of (status, m, i) \<Rightarrow> (status, m)))
          (each_step doc_state docs))"
      using Some by (cases "text_in name") (simp_all add: doc_state_def)
    ultimately show ?thesis
      using reads_is_map_with [OF node, of "''name''"] Some by (simp add: nodes)
  qed
qed (simp add: agrees_Ok)

lemma agrees_declare_triggers:
  "list_all2 (reads ops) nodes docs \<Longrightarrow> agrees d (declare_triggers ops nodes m d) (each_step doc_trigger docs m)"
proof (induction docs arbitrary: nodes m)
  case (Cons doc docs)
  then obtain node nodes' where nodes: "nodes = node # nodes'" and node: "reads ops node doc"
      and rest: "list_all2 (reads ops) nodes' docs"
    by (auto simp: list_all2_Cons2)
  show ?case
  proof (cases "entry doc ''name''")
    case None
    with reads_is_map_with [OF node, of "''name''"] reads_kind(2) [OF node] show ?thesis
      by (simp add: nodes doc_trigger_def agrees_report)
  next
    case (Some name)
    then obtain entries where doc: "doc = YMap entries" and name: "map_of entries ''name'' = Some name"
      by (cases doc) simp_all
    note map = node [unfolded doc]
    let ?put = "\<lambda>name channel. checked (case declare_trigger name channel m of (status, m, i) \<Rightarrow> (status, m))"
    have put: "agrees d (let (status, m, i) = declare_trigger name channel m
         in if \<not> is_ok status
            then report_at ops status node ''trigger '%s': %s'' [name, status_to_string status] m d
            else declare_triggers ops nodes' m d)
        (attempt (?put name channel) (each_step doc_trigger docs))" for name channel
      using Cons(1) [OF rest] reads_kind(2) [OF node]
      by (auto simp: checked_def split_beta Let_def intro: agrees_report)
    have channel: "agrees d (attempt (has_key ops node ''channel'') (\<lambda>present.
         attempt (if present then string_at ops node ''channel'' else Inr []) (\<lambda>channel.
         let (status, m, i) = declare_trigger name channel m
         in if \<not> is_ok status
            then report_at ops status node ''trigger '%s': %s'' [name, status_to_string status] m d
            else declare_triggers ops nodes' m d)))
       (attempt (case map_of entries ''channel'' of None \<Rightarrow> Inr [] | Some channel \<Rightarrow> text_in channel)
          (\<lambda>channel. attempt (?put name channel) (each_step doc_trigger docs)))" for name
    proof (cases "map_of entries ''channel''")
      case None
      then show ?thesis
        using put by (simp add: reads_has_key [OF map])
    next
      case (Some channel)
      with agrees_text_at [OF map Some put] show ?thesis
        by (simp add: reads_has_key [OF map])
    qed
    have "agrees d (attempt (string_at ops node ''name'') (\<lambda>name. attempt (has_key ops node ''channel'') (\<lambda>present.
         attempt (if present then string_at ops node ''channel'' else Inr []) (\<lambda>channel.
         let (status, m, i) = declare_trigger name channel m
         in if \<not> is_ok status
            then report_at ops status node ''trigger '%s': %s'' [name, status_to_string status] m d
            else declare_triggers ops nodes' m d))))
       (attempt (text_in name) (\<lambda>name.
          attempt (case map_of entries ''channel'' of None \<Rightarrow> Inr [] | Some channel \<Rightarrow> text_in channel)
          (\<lambda>channel. attempt (?put name channel) (each_step doc_trigger docs))))"
      by (rule agrees_text_at [OF map name channel])
    moreover have "each_step doc_trigger (doc # docs) m =
        attempt (text_in name) (\<lambda>name.
          attempt (case map_of entries ''channel'' of None \<Rightarrow> Inr [] | Some channel \<Rightarrow> text_in channel)
          (\<lambda>channel. attempt (?put name channel) (each_step doc_trigger docs)))"
      using name by (simp add: doc_trigger_def doc attempt_def split: sum.split)
    ultimately show ?thesis
      using reads_is_map_with [OF node, of "''name''"] Some by (simp add: nodes)
  qed
qed (simp add: agrees_Ok)

lemma agrees_label:
  assumes root: "reads ops root (YMap entries)" and rest: "\<And>m. agrees d (rest m d) (cont m)"
  shows "agrees d (attempt (yn_get ops root ''fsm'') (\<lambda>fsm.
     attempt (if yn_defined ops fsm then is_map_with ops fsm ''initial'' else Inr False) (\<lambda>misplaced.
     if misplaced
     then attempt (yn_get ops fsm ''initial'') (\<lambda>node. report_at ops SchemaError node fmt args model_clear d)
     else attempt (if yn_defined ops fsm then is_map_with ops fsm ''name'' else Inr False) (\<lambda>named.
     and_then
       (if \<not> named then Inr (Ok, model_clear, d)
        else attempt (string_at ops fsm ''name'') (\<lambda>name.
          let (status, m) = model_set_name name model_clear
          in if is_ok status then Inr (Ok, m, d)
             else attempt (yn_get ops fsm ''name'') (\<lambda>node. report_at ops NameTooLong node fmt' args' m d)))
       rest))))
    (attempt (doc_label (map_of entries ''fsm'')) cont)"
proof (cases "map_of entries ''fsm''")
  case None
  obtain fsm where "yn_get ops root ''fsm'' = Inr fsm" "\<not> yn_defined ops fsm"
    by (rule reads_no_child [OF root None])
  with None rest show ?thesis
    by (simp add: doc_label_def)
next
  case (Some doc)
  obtain fsm where fsm: "yn_get ops root ''fsm'' = Inr fsm" "reads ops fsm doc"
    by (rule reads_child [OF root Some])
  note found = fsm(1) Some reads_kind(1) [OF fsm(2)] reads_is_map_with [OF fsm(2)]
  consider (misplaced) es i where "doc = YMap es" "map_of es ''initial'' = Some i"
    | (unnamed) "entry doc ''initial'' = None" "entry doc ''name'' = None"
    | (label) es name where "doc = YMap es" "map_of es ''initial'' = None" "map_of es ''name'' = Some name"
  proof (cases doc)
    case (YMap es)
    then show thesis
      using misplaced unnamed label by (cases "map_of es ''initial''"; cases "map_of es ''name''") simp_all
  qed (use unnamed in simp_all)
  then show ?thesis
  proof cases
    case misplaced
    obtain child where "yn_get ops fsm ''initial'' = Inr child" "reads ops child i"
      by (rule reads_child [OF fsm(2) [unfolded misplaced(1)] misplaced(2)])
    with misplaced found reads_kind(2) [of ops child i] show ?thesis
      by (simp add: doc_label_def agrees_report)
  next
    case unnamed
    with found rest show ?thesis
      by (simp add: doc_label_def)
  next
    case label
    note map = fsm(2) [unfolded label(1)]
    obtain child where child: "yn_get ops fsm ''name'' = Inr child" "reads ops child name"
      by (rule reads_child [OF map label(3)])
    have "agrees d (attempt (string_at ops fsm ''name'') (\<lambda>name.
          let (status, m) = model_set_name name model_clear
          in if is_ok status then Inr (Ok, m, d)
             else attempt (yn_get ops fsm ''name'') (\<lambda>node. report_at ops NameTooLong node fmt' args' m d)))
        (attempt (text_in name) (\<lambda>name. checked (model_set_name name model_clear)))"
      using child(1) reads_kind(2) [OF child(2)]
      by (intro agrees_text_at [OF map label(3)])
        (auto simp: checked_def model_set_name_def split_beta Let_def intro!: agrees_Ok agrees_report)
    from agrees_and_then [OF this, of rest cont] rest label found show ?thesis
      by (simp add: doc_label_def)
  qed
qed

lemma agrees_validate:
  "agrees d (Inr (validate m, m, if is_ok (validate m) then d else set_message (validate m) line fmt args d))
     (if validate m = Ok then Inr m else Inl (validate m))"
  by (simp add: agrees_def)

lemma agrees_parse_machine:
  assumes "reads ops root doc"
  shows "agrees d (parse_machine ops root model_clear d) (doc_machine doc)"
proof (cases "\<exists>entries. doc = YMap entries")
  case False
  with reads_kind [OF assms] show ?thesis
    by (cases doc) (simp_all add: parse_machine_def doc_machine_def agrees_report)
next
  case True
  then obtain entries where doc: "doc = YMap entries" by blast
  note root = assms [unfolded doc]
  let ?linked = "\<lambda>nodes m d. and_then (link_states ops nodes m d) (\<lambda>m d.
      let status = validate m
      in Inr (status, m, if is_ok status then d
                         else set_message status (- 1) ''validation failed: %s'' [status_to_string status] d))"
  let ?link = "\<lambda>docs m. attempt (each_step doc_links docs m) (\<lambda>m. if validate m = Ok then Inr m else Inl (validate m))"
  have linked: "agrees d (?linked nodes m d) (?link docs m)"
    if "list_all2 (reads ops) nodes docs" "list_all named docs" for nodes docs m
    unfolding Let_def by (rule agrees_and_then [OF agrees_link_states [OF that]]) (rule agrees_validate)
  have declared: "agrees d (and_then (declare_states ops nodes m d) (?linked nodes)) (attempt (each_step doc_state docs m) (?link docs))"
    if "list_all2 (reads ops) nodes docs" for nodes docs m
    by (rule agrees_and_then [OF agrees_declare_states [OF that]]) (rule linked [OF that named_states])
  have states: "agrees d (attempt (yn_get ops root ''states'') (\<lambda>states_node.
         attempt (nonempty_sequence ops states_node) (\<lambda>usable.
         if \<not> usable
         then report_at ops SchemaError states_node (quote @ ''states' must be a non-empty sequence'') [] m d
         else attempt (yn_elements ops states_node) (\<lambda>entries. and_then (declare_states ops entries m d) (?linked entries)))))
      (attempt (doc_sequence doc ''states'') (\<lambda>ss. attempt (each_step doc_state ss m) (?link ss)))" for m
    unfolding doc by (rule agrees_sequence [OF root declared])
  have triggers: "agrees d (parse_triggers ops root m d)
      (attempt (doc_sequence doc ''triggers'') (\<lambda>ts. each_step doc_trigger ts m))" for m
    unfolding doc parse_triggers_def by (rule agrees_sequence [OF root agrees_declare_triggers])
  show ?thesis
    unfolding doc parse_machine_def doc_machine_def reads_kind(5) [OF root] ydoc.case attempt_simps entry_simps
      simp_thms if_False
    by (rule agrees_foreign [OF root], rule agrees_label [OF root],
        rule agrees_and_then [OF triggers [unfolded doc]], rule states [unfolded doc])
qed

section \<open>What the machine loader promises\<close>

lemmas guarded_machine = guarded_agrees [where parse = "parse_machine ops" for ops, OF agrees_parse_machine
    keeps_parse_machine [OF loadable_clear]]

lemma guarded_machine_decoded:
  assumes "reads ops root doc" and "machine_of doc = Some spec"
  shows "case build_machine spec of
       Inr m \<Rightarrow> guarded model_clear (parse_machine ops) (Inr root) = (Ok, m, diagnostics_reset)
     | Inl e \<Rightarrow> e \<noteq> Ok \<and> (\<exists>d. guarded model_clear (parse_machine ops) (Inr root) = (e, model_clear, d) \<and> diag_status d = e)"
  using guarded_machine [OF assms(1)] machine_decoded(1) [OF assms(2)] by simp

lemma guarded_machine_refused:
  assumes "reads ops root doc" and "machine_of doc = None"
  obtains e d where "guarded model_clear (parse_machine ops) (Inr root) = (e, model_clear, d)" "e \<noteq> Ok" "diag_status d = e"
  using guarded_machine [OF assms(1)] machine_decoded(2) [OF assms(2)] by (auto split: sum.splits)

text \<open>C19: whatever a YAML document says, the loader is the plain sequence of model operations
  the document stands for: the label, the triggers, all states, then every transition with its
  alternatives in order. It ends at the first operation that fails, with the status of that
  operation. A document that can be read as a machine file, in any spelling and any order of
  keys, stands for what that file says; one that cannot is refused.\<close>

theorem machine_file_is_build:
  assumes "reads ops root doc" and "yn_load_text ops (cstr yaml) = Inr root"
  shows "(case load_machine_string ops (Some yaml) m d of (status, m', d') \<Rightarrow>
      (case doc_machine doc of
         Inr m'' \<Rightarrow> status = Ok \<and> m' = m'' \<and> d' = diagnostics_reset
       | Inl e \<Rightarrow> status = e \<and> e \<noteq> Ok \<and> m' = model_clear \<and> diag_status d' = e)) \<and>
    (case machine_of doc of None \<Rightarrow> isl (doc_machine doc) | Some spec \<Rightarrow> doc_machine doc = build_machine spec)"
  using guarded_machine [OF assms(1)] machine_decoded [of doc] assms(2)
  by (auto simp: load_machine_string_def split: sum.splits option.split)

theorem machine_file_is_build_witness:
  "(case load_machine_string file_library (Some ''text'') model_clear diagnostics_reset of (status, m', d') \<Rightarrow>
      (case doc_machine (machine_doc file_spec) of
         Inr m'' \<Rightarrow> status = Ok \<and> m' = m'' \<and> d' = diagnostics_reset
       | Inl e \<Rightarrow> status = e \<and> e \<noteq> Ok \<and> m' = model_clear \<and> diag_status d' = e)) \<and>
    (case machine_of (machine_doc file_spec) of None \<Rightarrow> isl (doc_machine (machine_doc file_spec))
     | Some spec \<Rightarrow> doc_machine (machine_doc file_spec) = build_machine spec)"
  by (rule machine_file_is_build [OF file_library_reads file_library_loads])

text \<open>A machine that loads does what its file says: in every state, on every trigger and
  with every arguments, it decides as the alternatives listed there do, in the order of the
  file, first match wins, with the guards and targets they name.\<close>

theorem machine_file_behaviour:
  assumes "reads ops root doc" and "yn_load_text ops (cstr yaml) = Inr root" and "machine_of doc = Some spec"
    and "load_machine_string ops (Some yaml) m0 d0 = (Ok, m, d)"
  shows "model_evaluate m s t a = decide (behaviour_spec (names_of m) spec s t) a"
proof -
  have load: "guarded model_clear (parse_machine ops) (Inr root) = (Ok, m, d)"
    using assms(2,4) by (simp add: load_machine_string_def)
  then have "build_machine spec = Inr m"
    using guarded_machine_decoded [OF assms(1,3)] by (auto split: sum.splits)
  moreover have "model_ok m"
    using guarded_machine_all [of ops "Inr root"] built_model_ok load
    by (simp add: all_or_nothing_def loaded_def loadable_def)
  ultimately show ?thesis
    using evaluate_decide build_machine_behaviour by simp
qed

lemma file_spec_loads:
  "fst (load_machine_string file_library (Some ''text'') model_clear diagnostics_reset) = Ok"
  by code_simp

theorem machine_file_behaviour_witness:
  "case load_machine_string file_library (Some ''text'') model_clear diagnostics_reset of (status, m, d) \<Rightarrow>
    status = Ok \<and> model_evaluate m 0 0 args_none = decide (behaviour_spec (names_of m) file_spec 0 0) args_none"
proof -
  obtain m d where load: "load_machine_string file_library (Some ''text'') model_clear diagnostics_reset = (Ok, m, d)"
    using file_spec_loads by (metis prod.collapse)
  from machine_file_behaviour [OF file_library_reads file_library_loads machine_of_doc this] show ?thesis
    by (simp add: load)
qed

end
