(* ===== verification/MachineFiles.thy ===== *)
theory MachineFiles
  imports MachineDocuments
begin

text \<open>
  Which machine files load, stated on the file alone. \<open>machine_file_ok\<close> is the list of things a
  file has to satisfy: no identifiers, no tables, no operations. The steps the loader takes are
  three interpretations of \<open>accepting_step\<close>, the locale of a step that is accepted or refused by
  what it has taken so far: declaring a trigger, declaring a state, linking an alternative.
  \<open>linked\<close> says what the model has after some of the links of the file.
\<close>

section \<open>Sequences of steps that are accepted\<close>

text \<open>Every element is acceptable after the ones before it.\<close>

fun all_after :: "('x list \<Rightarrow> 'x \<Rightarrow> bool) \<Rightarrow> 'x list \<Rightarrow> 'x list \<Rightarrow> bool" where
  "all_after ok seen [] = True"
| "all_after ok seen (x # xs) \<longleftrightarrow> ok seen x \<and> all_after ok (seen @ [x]) xs"

lemma all_after_snoc: "all_after ok seen (xs @ [x]) \<longleftrightarrow> all_after ok seen xs \<and> ok (seen @ xs) x"
  by (induction xs arbitrary: seen) auto

lemma each_step_append:
  "each_step step (xs @ ys) m = attempt (each_step step xs m) (each_step step ys)"
  by (induction xs arbitrary: m) (auto simp: attempt_def split: sum.split)

text \<open>A step on a model, the elements it has taken so far, and when it takes the next one.\<close>

locale accepting_step =
  fixes step :: "'x \<Rightarrow> 'm \<Rightarrow> status + 'm"
    and log :: "'m \<Rightarrow> 'x list \<Rightarrow> bool"
    and ok :: "'x list \<Rightarrow> 'x \<Rightarrow> bool"
  assumes accepts: "log m seen \<Longrightarrow> ok seen x \<Longrightarrow> \<exists>m'. step x m = Inr m' \<and> log m' (seen @ [x])"
    and refuses: "log m seen \<Longrightarrow> \<not> ok seen x \<Longrightarrow> isl (step x m)"
begin

lemma steps_accept:
  "log m seen \<Longrightarrow> all_after ok seen xs \<Longrightarrow> \<exists>m'. each_step step xs m = Inr m' \<and> log m' (seen @ xs)"
proof (induction xs arbitrary: m seen)
  case (Cons x xs)
  then obtain m1 where "step x m = Inr m1" "log m1 (seen @ [x])"
    using accepts [of m seen x] by auto
  with Cons(1) [of m1 "seen @ [x]"] Cons(3) show ?case
    by simp
qed simp

lemma steps_refuse: "log m seen \<Longrightarrow> \<not> all_after ok seen xs \<Longrightarrow> isl (each_step step xs m)"
proof (induction xs arbitrary: m seen)
  case (Cons x xs)
  show ?case
  proof (cases "ok seen x")
    case True
    then obtain m1 where "step x m = Inr m1" "log m1 (seen @ [x])"
      using accepts [OF Cons(2)] by blast
    with Cons(1) [of m1 "seen @ [x]"] Cons(3) True show ?thesis
      by simp
  next
    case False
    with refuses [OF Cons(2) False] show ?thesis
      by (cases "step x m") simp_all
  qed
qed simp

lemma steps_logged:
  assumes "log m seen" and "each_step step xs m = Inr m'"
  shows "all_after ok seen xs" "log m' (seen @ xs)"
  using steps_accept [OF assms(1), of xs] steps_refuse [OF assms(1), of xs] assms(2) by fastforce+

end

section \<open>The names in the tables\<close>

definition state_names :: "model \<Rightarrow> string list" where
  "state_names m = map (\<lambda>e. node_name (snd e)) (states m)"

definition trigger_names :: "model \<Rightarrow> (string \<times> string) list" where
  "trigger_names m = map (\<lambda>e. (td_name (snd e), td_channel (snd e))) (triggers m)"

lemma index_names:
  assumes "indexes f defs index" and "fm_ok defs"
  shows "fm_find index n = None \<longleftrightarrow> n \<notin> (\<lambda>e. f (snd e)) ` set defs"
proof -
  have "fm_find defs i = Some d \<longleftrightarrow> (i, d) \<in> set defs" for i d
    using assms(2) by (rule fm_find_iff)
  then show ?thesis
    using assms(1) unfolding indexes_def by (cases "fm_find index n") (force simp: image_iff)+
qed

lemma names_known:
  assumes "model_ok m"
  shows "fm_find (state_index m) n = None \<longleftrightarrow> n \<notin> set (state_names m)"
    and "fm_find (trigger_index m) n = None \<longleftrightarrow> n \<notin> fst ` set (trigger_names m)"
    and "fm_find (channel_index m) n = None \<longleftrightarrow> n \<notin> snd ` set (trigger_names m)"
    and "length (state_names m) = length (states m)" "length (trigger_names m) = length (triggers m)"
  using model_okD(1) [OF assms] index_names [of node_name "states m" "state_index m" n]
    index_names [of td_name "triggers m" "trigger_index m" n]
    index_names [of td_channel "triggers m" "channel_index m" n]
  by (auto simp: tables_ok_def dense_fm_ok state_names_def trigger_names_def image_image)

lemma names_in_tables:
  assumes "model_ok m"
  shows "n \<in> set (state_names m) \<longleftrightarrow> (\<exists>i d. model_state m i = Some d \<and> node_name d = n)"
    and "nc \<in> set (trigger_names m) \<longleftrightarrow> (\<exists>i d. model_trigger m i = Some d \<and> (td_name d, td_channel d) = nc)"
proof -
  have "fm_ok (states m)" "fm_ok (triggers m)"
    using model_okD(1) [OF assms] by (simp_all add: tables_ok_def dense_fm_ok)
  then have "model_state m i = Some d \<longleftrightarrow> (i, d) \<in> set (states m)"
    "model_trigger m i = Some e \<longleftrightarrow> (i, e) \<in> set (triggers m)" for i d e
    by (simp_all add: model_state_def model_trigger_def fm_find_iff)
  then show "n \<in> set (state_names m) \<longleftrightarrow> (\<exists>i d. model_state m i = Some d \<and> node_name d = n)"
    and "nc \<in> set (trigger_names m) \<longleftrightarrow> (\<exists>i d. model_trigger m i = Some d \<and> (td_name d, td_channel d) = nc)"
    by (auto simp: state_names_def trigger_names_def image_iff Bex_def split_paired_Ex)
qed

lemma find_known:
  assumes "model_ok m"
  shows "find_state m n = kNoState \<longleftrightarrow> n \<notin> set (state_names m)"
    and "find_trigger m n = kNoTrigger \<longleftrightarrow> n \<notin> fst ` set (trigger_names m)"
    and "find_trigger_for_channel m n = kNoTrigger \<longleftrightarrow> n \<notin> snd ` set (trigger_names m)"
proof -
  have ids: "model_state m i = Some d \<Longrightarrow> i \<noteq> kNoState" "model_trigger m i = Some e \<Longrightarrow> i \<noteq> kNoTrigger" for i d e
    using model_okD(1) [OF assms] state_id_not_none trigger_id_not_none
    by (auto simp: model_state_def model_trigger_def)
  show "find_state m n = kNoState \<longleftrightarrow> n \<notin> set (state_names m)"
    using find_state_iff [OF assms] ids(1) unfolding names_in_tables(1) [OF assms] by metis
  show "find_trigger m n = kNoTrigger \<longleftrightarrow> n \<notin> fst ` set (trigger_names m)"
    using find_trigger_iff [OF assms] ids(2) names_in_tables(2) [OF assms] unfolding image_iff by (metis fst_conv)
  show "find_trigger_for_channel m n = kNoTrigger \<longleftrightarrow> n \<notin> snd ` set (trigger_names m)"
    using find_trigger_for_channel_iff [OF assms] ids(2) names_in_tables(2) [OF assms] unfolding image_iff by (metis snd_conv)
qed

section \<open>Declaring\<close>

text \<open>The channel of a trigger is its name unless the file gives another.\<close>

definition channel_of_spec :: "string \<times> string option \<Rightarrow> string" where
  "channel_of_spec t = (case snd t of None \<Rightarrow> fst t | Some c \<Rightarrow> if c = [] then fst t else c)"

definition trigger_step :: "string \<times> string option \<Rightarrow> model \<Rightarrow> status + model" where
  "trigger_step t m =
     checked (case declare_trigger (fst t) (case snd t of None \<Rightarrow> [] | Some c \<Rightarrow> c) m of (status, m, i) \<Rightarrow> (status, m))"

definition state_step :: "state_spec \<Rightarrow> model \<Rightarrow> status + model" where
  "state_step s m = checked (case declare_state (ss_name s) m of (status, m, i) \<Rightarrow> (status, m))"

definition trigger_fits :: "(string \<times> string option) list \<Rightarrow> string \<times> string option \<Rightarrow> bool" where
  "trigger_fits seen t \<longleftrightarrow> fst t \<noteq> [] \<and> length (fst t) \<le> kMaxNameLength \<and>
     length (channel_of_spec t) \<le> kMaxChannelLength \<and> length seen < kMaxTriggers \<and>
     fst t \<notin> set (map fst seen) \<and> channel_of_spec t \<notin> set (map channel_of_spec seen)"

definition state_fits :: "state_spec list \<Rightarrow> state_spec \<Rightarrow> bool" where
  "state_fits seen s \<longleftrightarrow> ss_name s \<noteq> [] \<and> length (ss_name s) \<le> kMaxNameLength \<and>
     length seen < kMaxStates \<and> ss_name s \<notin> set (map ss_name seen)"

definition declared_triggers :: "model \<Rightarrow> (string \<times> string option) list \<Rightarrow> bool" where
  "declared_triggers m seen \<longleftrightarrow> unlinked m \<and> conditions m = [] \<and> states m = [] \<and>
     trigger_names m = map (\<lambda>t. (fst t, channel_of_spec t)) seen"

definition declared_states :: "(string \<times> string) list \<Rightarrow> model \<Rightarrow> state_spec list \<Rightarrow> bool" where
  "declared_states known m seen \<longleftrightarrow> unlinked m \<and> conditions m = [] \<and>
     trigger_names m = known \<and> state_names m = map ss_name seen"

lemma unlinked_ok: "unlinked m \<Longrightarrow> model_ok m"
  by (simp add: unlinked_def loadable_def built_model_ok)

lemma declared_names:
  assumes "declared_triggers m seen"
  shows "fst ` set (trigger_names m) = set (map fst seen)"
    and "snd ` set (trigger_names m) = set (map channel_of_spec seen)"
    and "length (trigger_names m) = length seen"
  using assms by (simp_all add: declared_triggers_def image_image)

lemma trigger_step_accepts:
  assumes "declared_triggers m seen" and "trigger_fits seen t"
  shows "\<exists>m'. trigger_step t m = Inr m' \<and> declared_triggers m' (seen @ [t])"
proof -
  have ok: "model_ok m"
    using assms(1) unlinked_ok by (simp add: declared_triggers_def)
  let ?d = "declare_trigger (fst t) (case snd t of None \<Rightarrow> [] | Some c \<Rightarrow> c) m"
  have ch: "(if (case snd t of None \<Rightarrow> [] | Some c \<Rightarrow> c) = [] then fst t else case snd t of None \<Rightarrow> [] | Some c \<Rightarrow> c) = channel_of_spec t"
    by (simp add: channel_of_spec_def split: option.split)
  have new: "fm_find (trigger_index m) (fst t) = None" "fm_find (channel_index m) (channel_of_spec t) = None"
    and size: "length (triggers m) < kMaxTriggers" "length (trigger_index m) < kMaxTriggers" "length (channel_index m) < kMaxTriggers"
    using assms names_known [OF ok] model_okD(1) [OF ok] declared_names [OF assms(1)]
    by (simp_all add: trigger_fits_def tables_ok_def indexes_def)
  have d: "?d = (Ok, m\<lparr>triggers := fm_insert (word_of_nat (length (triggers m)))
        \<lparr>td_name = fst t, td_channel = channel_of_spec t\<rparr> (triggers m),
      trigger_index := fm_insert (fst t) (word_of_nat (length (triggers m))) (trigger_index m),
      channel_index := fm_insert (channel_of_spec t) (word_of_nat (length (triggers m))) (channel_index m)\<rparr>,
      word_of_nat (length (triggers m)))"
    using assms(2) new size unfolding declare_trigger_def ch
    by (simp add: trigger_fits_def fm_full_def text_simps Let_def)
  then have step: "trigger_step t m = Inr (fst (snd ?d))"
    by (simp add: trigger_step_def checked_def)
  then have "unlinked (fst (snd ?d))"
    using assms(1) unlinked_declare_trigger [of m "fst t"] by (simp add: declared_triggers_def trigger_step_def)
  moreover have "triggers (fst (snd ?d)) = triggers m @ [(word_of_nat (length (triggers m)),
      \<lparr>td_name = fst t, td_channel = channel_of_spec t\<rparr>)]"
    using dense_insert(1) [of "triggers m"] model_okD(1) [OF ok] size(1) unfolding d
    by (simp add: tables_ok_def kMaxTriggers_def)
  ultimately show ?thesis
    using assms(1) step d by (simp add: declared_triggers_def trigger_names_def)
qed

lemma trigger_step_refuses:
  assumes "declared_triggers m seen" and "\<not> trigger_fits seen t"
  shows "isl (trigger_step t m)"
proof (cases rule: declare_trigger_cases [of "fst t" "case snd t of None \<Rightarrow> [] | Some c \<Rightarrow> c" m])
  case (ok ch)
  have mok: "model_ok m"
    using assms(1) unlinked_ok by (simp add: declared_triggers_def)
  have "ch = channel_of_spec t"
    using ok(1) by (simp add: channel_of_spec_def split: option.split)
  with ok(2-7) names_known [OF mok] declared_names [OF assms(1)] assms(2) show ?thesis
    by (simp add: trigger_fits_def)
qed (simp add: trigger_step_def checked_def)

interpretation trigger_steps: accepting_step trigger_step declared_triggers trigger_fits
  by unfold_locales (rule trigger_step_accepts trigger_step_refuses; assumption)+

lemma state_step_accepts:
  assumes "declared_states known m seen" and "state_fits seen s"
  shows "\<exists>m'. state_step s m = Inr m' \<and> declared_states known m' (seen @ [s])"
proof -
  have ok: "model_ok m"
    using assms(1) unlinked_ok by (simp add: declared_states_def)
  let ?d = "declare_state (ss_name s) m"
  have new: "fm_find (state_index m) (ss_name s) = None"
    and size: "length (states m) < kMaxStates" "length (state_index m) < kMaxStates"
    using assms names_known [OF ok] model_okD(1) [OF ok]
    by (auto simp: declared_states_def state_fits_def tables_ok_def indexes_def)
  have d: "?d = (Ok, m\<lparr>states := fm_insert (word_of_nat (length (states m))) \<lparr>node_name = ss_name s, transitions = []\<rparr> (states m),
      state_index := fm_insert (ss_name s) (word_of_nat (length (states m))) (state_index m)\<rparr>,
      word_of_nat (length (states m)))"
    using assms(2) new size unfolding declare_state_def
    by (simp add: state_fits_def fm_full_def text_simps Let_def)
  then have step: "state_step s m = Inr (fst (snd ?d))"
    by (simp add: state_step_def checked_def)
  then have "unlinked (fst (snd ?d))"
    using assms(1) unlinked_declare_state [of m "ss_name s"] by (simp add: declared_states_def state_step_def)
  moreover have "states (fst (snd ?d)) = states m @ [(word_of_nat (length (states m)), \<lparr>node_name = ss_name s, transitions = []\<rparr>)]"
    using dense_insert(1) [of "states m"] model_okD(1) [OF ok] size(1) unfolding d
    by (simp add: tables_ok_def kMaxStates_def)
  ultimately show ?thesis
    using assms(1) step d by (simp add: declared_states_def state_names_def trigger_names_def)
qed

lemma state_step_refuses:
  assumes "declared_states known m seen" and "\<not> state_fits seen s"
  shows "isl (state_step s m)"
proof (cases rule: declare_state_cases [of "ss_name s" m])
  case ok
  have mok: "model_ok m"
    using assms(1) unlinked_ok by (simp add: declared_states_def)
  from ok(1-4) names_known [OF mok] assms show ?thesis
    by (auto simp: declared_states_def state_fits_def)
qed (simp add: state_step_def checked_def)

interpretation state_steps: accepting_step state_step "declared_states known" state_fits for known
  by unfold_locales (rule state_step_accepts state_step_refuses; assumption)+

section \<open>Linking\<close>

text \<open>The guards a file may give.\<close>

definition when_ok :: "when_spec \<Rightarrow> bool" where
  "when_ok w \<longleftrightarrow>
     (case w of NoWhen \<Rightarrow> True
      | OneWhen t \<Rightarrow> fst (parse_condition t) = Ok
      | ManyWhen ts \<Rightarrow> ts \<noteq> [] \<and> length ts \<le> kMaxConditionsPerGuard \<and> list_all (\<lambda>t. fst (parse_condition t) = Ok) ts)"

lemma each_condition_iff:
  "isl (each_step one_condition ts g) \<longleftrightarrow>
     \<not> ((ts = [] \<or> length g + length ts \<le> kMaxConditionsPerGuard) \<and> list_all (\<lambda>t. fst (parse_condition t) = Ok) ts)"
proof (induction ts arbitrary: g)
  case (Cons t ts)
  show ?case
  proof (cases "one_condition t g")
    case (Inl e)
    then show ?thesis
      by (auto simp: one_condition_def checked_def split: if_splits prod.splits)
  next
    case (Inr g')
    then have "length g < kMaxConditionsPerGuard" "fst (parse_condition t) = Ok"
      by (auto simp: one_condition_def checked_def split: if_splits prod.splits)
    with Inr Cons [of g'] one_condition_length [OF Inr] show ?thesis
      by (cases ts) auto
  qed
qed simp

lemma when_ok_iff: "when_ok w \<longleftrightarrow> guard_of_spec w = Inr (guard_spec w)"
proof -
  have "when_ok w \<longleftrightarrow> \<not> isl (guard_of_spec w)"
    using each_condition_iff [of "[t]" "[]" for t]
    by (cases w) (auto simp: when_ok_def guard_of_spec_def each_condition_iff kMaxConditionsPerGuard_def)
  then show ?thesis
    by (cases "guard_of_spec w") (auto simp: guard_spec_def)
qed

text \<open>The alternatives of a file, each with the names of its state and its trigger, in file order.\<close>

type_synonym link = "string \<times> string \<times> alternative_spec"

definition transitions_of :: "state_spec \<Rightarrow> (string \<times> outcome_spec) list" where
  "transitions_of s = (case ss_transitions s of None \<Rightarrow> [] | Some trs \<Rightarrow> trs)"

definition outcome_links :: "string \<Rightarrow> string \<times> outcome_spec \<Rightarrow> link list" where
  "outcome_links s tr = map (\<lambda>a. (s, fst tr, a)) (alternatives_spec (snd tr))"

definition state_links :: "state_spec \<Rightarrow> link list" where
  "state_links s = concat (map (outcome_links (ss_name s)) (transitions_of s))"

definition links_of :: "machine_spec \<Rightarrow> link list" where
  "links_of spec = concat (map state_links (ms_states spec))"

definition at :: "string \<Rightarrow> string \<Rightarrow> link \<Rightarrow> bool" where
  "at s t l \<longleftrightarrow> fst l = s \<and> fst (snd l) = t"

definition triggers_at :: "string \<Rightarrow> link list \<Rightarrow> string list" where
  "triggers_at s links = map (\<lambda>l. fst (snd l)) (filter (\<lambda>l. fst l = s) links)"

definition conditions_in :: "link list \<Rightarrow> nat" where
  "conditions_in links = sum_list (map (\<lambda>l. length (guard_spec (as_when (snd (snd l))))) links)"

definition link_step :: "link \<Rightarrow> model \<Rightarrow> status + model" where
  "link_step l m =
     (let t = find_trigger m (fst (snd l))
      in if t = kNoTrigger then Inl UnknownTrigger else build_alternative (find_state m (fst l)) t (snd (snd l)) m)"

definition link_known :: "string list \<Rightarrow> string list \<Rightarrow> link \<Rightarrow> bool" where
  "link_known snames tnames l \<longleftrightarrow> fst l \<in> set snames \<and> fst (snd l) \<in> set tnames \<and>
     as_target (snd (snd l)) \<in> set snames \<and> when_ok (as_when (snd (snd l)))"

definition link_fits :: "string list \<Rightarrow> string list \<Rightarrow> link list \<Rightarrow> link \<Rightarrow> bool" where
  "link_fits snames tnames seen l \<longleftrightarrow> link_known snames tnames l \<and>
     conditions_in seen + length (guard_spec (as_when (snd (snd l)))) \<le> kMaxConditions \<and>
     (fst (snd l) \<in> set (triggers_at (fst l) seen) \<or>
        length (remdups (triggers_at (fst l) seen)) < kMaxTransitionsPerState) \<and>
     length (filter (at (fst l) (fst (snd l))) seen) < kMaxAlternatives"

text \<open>What a model has when the links seen so far are in it.\<close>

definition linked :: "string list \<Rightarrow> string list \<Rightarrow> model \<Rightarrow> link list \<Rightarrow> bool" where
  "linked snames tnames m seen \<longleftrightarrow> loadable m \<and> state_names m = snames \<and> map fst (trigger_names m) = tnames \<and>
     length (conditions m) = conditions_in seen \<and> list_all (link_known snames tnames) seen \<and>
     (\<forall>s t. s \<in> set snames \<longrightarrow> t \<in> set tnames \<longrightarrow> behaviour m (find_state m s) (find_trigger m t) =
        map (\<lambda>l. (guard_spec (as_when (snd (snd l))), find_state m (as_target (snd (snd l))))) (filter (at s t) seen))"

lemma linkedD:
  assumes "linked snames tnames m seen"
  shows "model_ok m" "find_state m s = kNoState \<longleftrightarrow> s \<notin> set snames"
    "find_trigger m t = kNoTrigger \<longleftrightarrow> t \<notin> set tnames"
    "s \<in> set snames \<Longrightarrow> t \<in> set tnames \<Longrightarrow>
      length (alternatives_of m (find_state m s) (find_trigger m t)) = length (filter (at s t) seen)"
proof -
  show ok: "model_ok m"
    using assms by (simp add: linked_def loadable_def built_model_ok)
  show "find_state m s = kNoState \<longleftrightarrow> s \<notin> set snames" "find_trigger m t = kNoTrigger \<longleftrightarrow> t \<notin> set tnames"
    using assms find_known [OF ok] by (simp_all add: linked_def) (metis image_set)
  assume "s \<in> set snames" "t \<in> set tnames"
  with assms have "length (behaviour m (find_state m s) (find_trigger m t)) = length (filter (at s t) seen)"
    by (simp add: linked_def)
  then show "length (alternatives_of m (find_state m s) (find_trigger m t)) = length (filter (at s t) seen)"
    by (simp add: behaviour_def)
qed

lemma known_trigger:
  assumes "model_ok m" and "fm_find (triggers m) i \<noteq> None"
  obtains t where "t \<in> fst ` set (trigger_names m)" "find_trigger m t = i"
proof -
  from assms(2) obtain d where d: "model_trigger m i = Some d"
    by (auto simp: model_trigger_def)
  have "i \<noteq> kNoTrigger"
    using trigger_id_not_none [OF model_okD(1) [OF assms(1)]] d by (auto simp: model_trigger_def)
  with d find_trigger_iff [OF assms(1), of i "td_name d"] have "find_trigger m (td_name d) = i"
    by auto
  moreover have "(td_name d, td_channel d) \<in> set (trigger_names m)"
    using names_in_tables(2) [OF assms(1)] d by blast
  ultimately show thesis
    using that [of "td_name d"] by force
qed

lemma find_trigger_inj:
  assumes "model_ok m" and "find_trigger m t = find_trigger m u" and "find_trigger m t \<noteq> kNoTrigger"
  shows "t = u"
  using find_trigger_iff [OF assms(1,3)] assms(2) by (metis option.inject)

lemma find_state_inj:
  assumes "model_ok m" and "find_state m s = find_state m u" and "find_state m s \<noteq> kNoState"
  shows "s = u"
  using find_state_iff [OF assms(1,3)] assms(2) by (metis option.inject)

text \<open>The transitions of a state are as many as the triggers that are linked there.\<close>

lemma linked_triggers:
  assumes "linked snames tnames m seen" and "s \<in> set snames" and "fm_find (states m) (find_state m s) = Some n"
  shows "fst ` set (transitions n) = find_trigger m ` set (triggers_at s seen)"
    and "length (transitions n) = length (remdups (triggers_at s seen))"
proof -
  note facts = linkedD [OF assms(1)]
  have node: "node_ok m n"
    using model_okD(3) [OF facts(1) assms(3)] .
  have listed: "i \<in> fst ` set (transitions n) \<longleftrightarrow> alternatives_of m (find_state m s) i \<noteq> []" for i
    using alternatives_of_ok(3) [OF facts(1) assms(3), of i] fm_find_None_iff [of "transitions n" i] assms(3)
    by (auto simp: alternatives_of_def)
  have known: "set (triggers_at s seen) \<subseteq> set tnames"
    using assms(1) by (auto simp: linked_def triggers_at_def link_known_def list_all_iff)
  show keys: "fst ` set (transitions n) = find_trigger m ` set (triggers_at s seen)"
  proof (intro set_eqI iffI)
    fix i
    assume i: "i \<in> fst ` set (transitions n)"
    then have "fm_find (transitions n) i \<noteq> None"
      by (simp add: fm_find_None_iff)
    then have "fm_find (triggers m) i \<noteq> None"
      using node by (auto simp: node_ok_def)
    with facts(1) obtain t where t: "t \<in> fst ` set (trigger_names m)" "find_trigger m t = i"
      by (rule known_trigger)
    then have "t \<in> set tnames"
      using assms(1) unfolding linked_def by (metis image_set)
    with facts(4) [OF assms(2)] i t(2) listed [of i] have "filter (at s t) seen \<noteq> []"
      by force
    then have "t \<in> set (triggers_at s seen)"
      by (auto simp: triggers_at_def at_def filter_empty_conv)
    with t(2) show "i \<in> find_trigger m ` set (triggers_at s seen)"
      by blast
  next
    fix i
    assume "i \<in> find_trigger m ` set (triggers_at s seen)"
    then obtain t where t: "t \<in> set (triggers_at s seen)" "find_trigger m t = i"
      by blast
    then have "filter (at s t) seen \<noteq> []"
      by (auto simp: triggers_at_def at_def filter_empty_conv)
    moreover have "t \<in> set tnames"
      using known t(1) by blast
    ultimately have "alternatives_of m (find_state m s) i \<noteq> []"
      using facts(4) [OF assms(2), of t] t(2) by force
    then show "i \<in> fst ` set (transitions n)"
      using listed by blast
  qed
  have "inj_on (find_trigger m) (set (triggers_at s seen))"
    using known find_trigger_inj [OF facts(1)] facts(3) by (intro inj_onI) blast
  then have "card (fst ` set (transitions n)) = card (set (triggers_at s seen))"
    unfolding keys by (rule card_image)
  moreover have "distinct (map fst (transitions n))"
    using node by (simp add: node_ok_def fm_ok_distinct)
  then have "length (transitions n) = card (fst ` set (transitions n))"
    by (metis distinct_card length_map set_map)
  ultimately show "length (transitions n) = length (remdups (triggers_at s seen))"
    by (simp add: length_remdups_card_conv)
qed

lemma names_modify:
  "(\<And>n. node_name (f n) = node_name n) \<Longrightarrow>
    map (\<lambda>e. node_name (snd e)) (fm_modify i f es) = map (\<lambda>e. node_name (snd e)) es"
  by (induction i f es rule: fm_modify.induct) auto

lemma names_add_transition:
  "state_names (snd (add_transition s t target g m)) = state_names m \<and>
   trigger_names (snd (add_transition s t target g m)) = trigger_names m"
proof (cases rule: add_transition_cases [of m s t target g])
  case (ok node alt)
  then show ?thesis
    by (simp add: state_names_def trigger_names_def names_modify)
qed simp

text \<open>A link that is known fits into the model exactly if the counts say so.\<close>

lemma link_room:
  assumes "linked snames tnames m seen" and "link_known snames tnames l"
  shows "transition_fits m (find_state m (fst l)) (find_trigger m (fst (snd l)))
      (find_state m (as_target (snd (snd l)))) (guard_spec (as_when (snd (snd l)))) \<longleftrightarrow>
    link_fits snames tnames seen l"
proof -
  note facts = linkedD [OF assms(1)]
  let ?s = "find_state m (fst l)" and ?t = "find_trigger m (fst (snd l))"
  have known: "fst l \<in> set snames" "fst (snd l) \<in> set tnames" "as_target (snd (snd l)) \<in> set snames"
    using assms(2) by (simp_all add: link_known_def)
  then have "?s \<noteq> kNoState" "find_state m (as_target (snd (snd l))) \<noteq> kNoState" "?t \<noteq> kNoTrigger"
    by (simp_all add: facts(2,3))
  then have has: "has_state m ?s" "has_state m (find_state m (as_target (snd (snd l))))" "fm_find (triggers m) ?t \<noteq> None"
    using find_state_has [OF facts(1)] find_trigger_has [OF facts(1)] by blast+
  then obtain n where n: "fm_find (states m) ?s = Some n"
    by (auto simp: has_state_def)
  note keys = linked_triggers [OF assms(1) known(1) n]
  have "fm_find (transitions n) ?t = None \<longleftrightarrow> fst (snd l) \<notin> set (triggers_at (fst l) seen)"
  proof -
    have "set (triggers_at (fst l) seen) \<subseteq> set tnames"
      using assms(1) by (auto simp: linked_def triggers_at_def link_known_def list_all_iff)
    then have "?t \<in> find_trigger m ` set (triggers_at (fst l) seen) \<longleftrightarrow> fst (snd l) \<in> set (triggers_at (fst l) seen)"
      using find_trigger_inj [OF facts(1)] facts(3) known(2) by blast
    then show ?thesis
      by (simp add: fm_find_None_iff keys(1))
  qed
  then have "room_for m ?s ?t \<longleftrightarrow>
      (fst (snd l) \<in> set (triggers_at (fst l) seen) \<or>
        length (remdups (triggers_at (fst l) seen)) < kMaxTransitionsPerState) \<and>
      length (filter (at (fst l) (fst (snd l))) seen) < kMaxAlternatives"
    using n facts(4) [OF known(1,2)] keys(2) by (auto simp: room_for_def)
  moreover have "length (conditions m) = conditions_in seen"
    using assms(1) by (simp add: linked_def)
  ultimately show ?thesis
    using has assms(2) by (simp add: transition_fits_def link_fits_def conj_ac)
qed

lemma link_step_known:
  assumes "linked snames tnames m seen"
  shows "link_known snames tnames l \<Longrightarrow> link_step l m =
      checked (add_transition (find_state m (fst l)) (find_trigger m (fst (snd l)))
        (find_state m (as_target (snd (snd l)))) (guard_spec (as_when (snd (snd l)))) m)"
    and "\<not> link_known snames tnames l \<Longrightarrow> isl (link_step l m)"
proof -
  note facts = linkedD [OF assms]
  show "link_step l m = checked (add_transition (find_state m (fst l)) (find_trigger m (fst (snd l)))
      (find_state m (as_target (snd (snd l)))) (guard_spec (as_when (snd (snd l)))) m)"
    if "link_known snames tnames l"
    using that facts(2,3) by (auto simp: link_known_def link_step_def build_alternative_def when_ok_iff Let_def)
  assume un: "\<not> link_known snames tnames l"
  show "isl (link_step l m)"
  proof (cases "fst l \<in> set snames")
    case False
    then have "find_state m (fst l) = kNoState"
      by (simp add: facts(2))
    then have "\<not> has_state m (find_state m (fst l))"
      using no_such_state [OF model_okD(1) [OF facts(1)]] by simp
    then show ?thesis
      by (auto simp: link_step_def build_alternative_def add_transition_def checked_def attempt_def Let_def split: sum.split)
  next
    case True
    with un facts(2,3) have "find_trigger m (fst (snd l)) = kNoTrigger \<or>
        find_state m (as_target (snd (snd l))) = kNoState \<or> guard_of_spec (as_when (snd (snd l))) \<noteq> Inr (guard_spec (as_when (snd (snd l))))"
      by (auto simp: link_known_def when_ok_iff)
    moreover have "isl (attempt (guard_of_spec w) f)" if "guard_of_spec w \<noteq> Inr (guard_spec w)" for w and f :: "_ \<Rightarrow> status + model"
      using that by (cases "guard_of_spec w") (simp_all add: guard_spec_def)
    ultimately show ?thesis
      by (auto simp: link_step_def build_alternative_def Let_def)
  qed
qed

lemma link_step_accepts:
  assumes "linked snames tnames m seen" and "link_fits snames tnames seen l"
  shows "\<exists>m'. link_step l m = Inr m' \<and> linked snames tnames m' (seen @ [l])"
proof -
  have known: "link_known snames tnames l"
    using assms(2) by (simp add: link_fits_def)
  note facts = linkedD [OF assms(1)]
  let ?s = "find_state m (fst l)" and ?t = "find_trigger m (fst (snd l))"
  let ?g = "guard_spec (as_when (snd (snd l)))" and ?target = "find_state m (as_target (snd (snd l)))"
  let ?m = "snd (add_transition ?s ?t ?target ?g m)"
  have fits: "transition_fits m ?s ?t ?target ?g"
    using link_room [OF assms(1) known] assms(2) by simp
  then have "fst (add_transition ?s ?t ?target ?g m) = Ok" and conds: "conditions ?m = conditions m @ ?g"
    by (simp_all add: add_transition_ok)
  then have step: "link_step l m = Inr ?m"
    using link_step_known(1) [OF assms(1) known] by (simp add: checked_def split_beta)
  have wf: "guard_wf ?g"
    using known guard_wf_spec [of "as_when (snd (snd l))"] by (simp add: link_known_def when_ok_iff)
  have load: "loadable m"
    using assms(1) by (simp add: linked_def)
  then have adds: "adds (\<lambda>names u v. if u = ?s \<and> v = ?t then [(?g, ?target)] else []) m ?m"
    using adds_transition [OF load wf] step link_step_known(1) [OF assms(1) known] by simp
  have names: "find_state ?m = find_state m" "find_trigger ?m = find_trigger m"
    using adds by (simp_all add: adds_def names_of_def)
  have "behaviour ?m (find_state m s) (find_trigger m t) =
      map (\<lambda>l. (guard_spec (as_when (snd (snd l))), find_state m (as_target (snd (snd l))))) (filter (at s t) (seen @ [l]))"
    if st: "s \<in> set snames" "t \<in> set tnames" for s t
  proof -
    have "find_state m s = ?s \<longleftrightarrow> s = fst l" "find_trigger m t = ?t \<longleftrightarrow> t = fst (snd l)"
      using st facts(2,3) find_state_inj [OF facts(1)] find_trigger_inj [OF facts(1)] by metis+
    then show ?thesis
      using adds st assms(1) by (auto simp: adds_def linked_def at_def)
  qed
  moreover have "state_names ?m = snames" "map fst (trigger_names ?m) = tnames"
    using assms(1) by (simp_all add: names_add_transition linked_def)
  moreover have "length (conditions ?m) = conditions_in (seen @ [l])" "list_all (link_known snames tnames) (seen @ [l])"
    using assms(1) known conds by (simp_all add: linked_def conditions_in_def)
  moreover have "loadable ?m"
    using adds by (simp add: adds_def)
  ultimately have "linked snames tnames ?m (seen @ [l])"
    unfolding linked_def names by blast
  with step show ?thesis
    by blast
qed

lemma link_step_refuses:
  assumes "linked snames tnames m seen" and "\<not> link_fits snames tnames seen l"
  shows "isl (link_step l m)"
proof (cases "link_known snames tnames l")
  case True
  from link_room [OF assms(1) True] assms(2) link_step_known(1) [OF assms(1) True] show ?thesis
    using add_transition_fail [of m "find_state m (fst l)" "find_trigger m (fst (snd l))"
        "find_state m (as_target (snd (snd l)))" "guard_spec (as_when (snd (snd l)))"]
    by (auto simp: checked_def)
qed (rule link_step_known(2) [OF assms(1)])

interpretation link_steps: accepting_step link_step "linked snames tnames" "link_fits snames tnames" for snames tnames
  by unfold_locales (rule link_step_accepts link_step_refuses; assumption)+

section \<open>The transitions of a file are its links\<close>

lemma each_step_concat:
  assumes "\<And>x m. x \<in> set xs \<Longrightarrow> I m \<Longrightarrow> step x m = each_step step' (f x) m"
    and "\<And>x m m'. I m \<Longrightarrow> step x m = Inr m' \<Longrightarrow> I m'" and "I m"
  shows "each_step step xs m = each_step step' (concat (map f xs)) m"
  using assms(1,3)
proof (induction xs arbitrary: m)
  case (Cons x xs)
  have x: "step x m = each_step step' (f x) m"
    using Cons(2,3) by simp
  show ?case
  proof (cases "step x m")
    case (Inl e)
    with x have "each_step step' (f x) m = Inl e" by simp
    with Inl show ?thesis by (simp add: each_step_append)
  next
    case (Inr m1)
    with assms(2) Cons(3) have "I m1" by blast
    with Cons(1) [of m1] Cons(2) Inr x show ?thesis by (simp add: each_step_append)
  qed
qed simp

text \<open>Linking keeps what it resolves names in.\<close>

definition resolving :: "(string \<Rightarrow> state_id) \<times> (string \<Rightarrow> trigger_id) \<Rightarrow> model \<Rightarrow> bool" where
  "resolving names m \<longleftrightarrow> loadable m \<and> names_of m = names"

lemma resolving_steps:
  "resolving names m \<Longrightarrow> build_alternative s t a m = Inr m1 \<Longrightarrow> resolving names m1"
  "resolving names m \<Longrightarrow> build_transition s tr m = Inr m2 \<Longrightarrow> resolving names m2"
  "resolving names m \<Longrightarrow> build_state st m = Inr m3 \<Longrightarrow> resolving names m3"
  using adds_alternative [of m s t a m1] adds_outcome [of m s tr m2] adds_state [of m st m3]
  by (auto simp: resolving_def adds_def)

lemma alternatives_are_links:
  assumes "resolving names m" and "snd names t \<noteq> kNoTrigger"
  shows "each_step (build_alternative (fst names s) (snd names t)) alts m = each_step link_step (map (\<lambda>a. (s, t, a)) alts) m"
  using assms(1)
proof (induction alts arbitrary: m)
  case (Cons a alts)
  have step: "link_step (s, t, a) m = build_alternative (fst names s) (snd names t) a m"
    using Cons(2) assms(2) by (auto simp: link_step_def resolving_def names_of_def Let_def)
  then show ?case
    using Cons(1) resolving_steps(1) [OF Cons(2)]
    by (cases "build_alternative (fst names s) (snd names t) a m") simp_all
qed simp

lemma transition_is_links:
  assumes "resolving names m"
  shows "build_transition (fst names s) tr m =
    (if alternatives_spec (snd tr) = [] then Inl (if snd names (fst tr) = kNoTrigger then UnknownTrigger else SchemaError)
     else each_step link_step (outcome_links s tr) m)"
proof (cases "alternatives_spec (snd tr)")
  case Nil
  then show ?thesis
    using assms by (auto simp: build_transition_def resolving_def names_of_def Let_def)
next
  case (Cons a alts)
  then show ?thesis
    using assms alternatives_are_links [OF assms, of "fst tr" s "alternatives_spec (snd tr)"]
    by (auto simp: build_transition_def resolving_def names_of_def Let_def outcome_links_def link_step_def)
qed

definition outcomes_given :: "state_spec \<Rightarrow> bool" where
  "outcomes_given s \<longleftrightarrow> list_all (\<lambda>tr. alternatives_spec (snd tr) \<noteq> []) (transitions_of s)"

lemma state_is_links:
  assumes "resolving names m"
  shows "outcomes_given s \<Longrightarrow> build_state s m = each_step link_step (state_links s) m"
    and "\<not> outcomes_given s \<Longrightarrow> isl (build_state s m)"
proof -
  have build: "build_state s m = each_step (build_transition (fst names (ss_name s))) (transitions_of s) m"
    using assms by (auto simp: build_state_def transitions_of_def resolving_def names_of_def split: option.split)
  show "build_state s m = each_step link_step (state_links s) m" if "outcomes_given s"
    unfolding build state_links_def
  proof (rule each_step_concat [where I = "resolving names", OF _ _ assms])
    show "build_transition (fst names (ss_name s)) tr m = each_step link_step (outcome_links (ss_name s) tr) m"
      if "tr \<in> set (transitions_of s)" "resolving names m" for tr m
      using that \<open>outcomes_given s\<close> by (auto simp: transition_is_links outcomes_given_def list_all_iff)
  qed (rule resolving_steps(2))
  assume "\<not> outcomes_given s"
  then obtain tr where tr: "tr \<in> set (transitions_of s)" "alternatives_spec (snd tr) = []"
    by (auto simp: outcomes_given_def list_all_iff)
  show "isl (build_state s m)"
    unfolding build
  proof (rule each_step_stops [where I = "resolving names", OF tr(1) _ _ assms])
    show "isl (build_transition (fst names (ss_name s)) tr m)" if "resolving names m" for m
      using that tr(2) by (simp add: transition_is_links)
  qed (rule resolving_steps(2))
qed

lemma states_are_links:
  assumes "resolving names m"
  shows "list_all outcomes_given ss \<Longrightarrow> each_step build_state ss m = each_step link_step (concat (map state_links ss)) m"
    and "\<not> list_all outcomes_given ss \<Longrightarrow> isl (each_step build_state ss m)"
proof -
  show "each_step build_state ss m = each_step link_step (concat (map state_links ss)) m" if "list_all outcomes_given ss"
  proof (rule each_step_concat [where I = "resolving names", OF _ _ assms])
    show "build_state s m = each_step link_step (state_links s) m" if "s \<in> set ss" "resolving names m" for s m
      using that \<open>list_all outcomes_given ss\<close> by (auto simp: state_is_links list_all_iff)
  qed (rule resolving_steps(3))
  assume "\<not> list_all outcomes_given ss"
  then obtain s where s: "s \<in> set ss" "\<not> outcomes_given s"
    by (auto simp: list_all_iff)
  show "isl (each_step build_state ss m)"
  proof (rule each_step_stops [where I = "resolving names", OF s(1) _ _ assms])
    show "isl (build_state s m)" if "resolving names m" for m
      using that s(2) by (simp add: state_is_links)
  qed (rule resolving_steps(3))
qed

section \<open>Well-formed machine files\<close>

definition triggers_ok :: "(string \<times> string option) list \<Rightarrow> bool" where
  "triggers_ok ts \<longleftrightarrow> length ts \<le> kMaxTriggers \<and>
     list_all (\<lambda>t. fst t \<noteq> [] \<and> length (fst t) \<le> kMaxNameLength \<and> length (channel_of_spec t) \<le> kMaxChannelLength) ts \<and>
     distinct (map fst ts) \<and> distinct (map channel_of_spec ts)"

definition states_ok :: "state_spec list \<Rightarrow> bool" where
  "states_ok ss \<longleftrightarrow> length ss \<le> kMaxStates \<and>
     list_all (\<lambda>s. ss_name s \<noteq> [] \<and> length (ss_name s) \<le> kMaxNameLength) ss \<and> distinct (map ss_name ss)"

definition links_ok :: "string list \<Rightarrow> string list \<Rightarrow> link list \<Rightarrow> bool" where
  "links_ok snames tnames links \<longleftrightarrow>
     list_all (link_known snames tnames) links \<and> conditions_in links \<le> kMaxConditions \<and>
     list_all (\<lambda>s. length (remdups (triggers_at s links)) \<le> kMaxTransitionsPerState) snames \<and>
     list_all (\<lambda>l. length (filter (at (fst l) (fst (snd l))) links) \<le> kMaxAlternatives) links"

text \<open>What the loader enforces, which says nothing of a trigger listed twice in a state.\<close>

definition machine_file_ok :: "machine_spec \<Rightarrow> bool" where
  "machine_file_ok spec \<longleftrightarrow>
     (case ms_name spec of None \<Rightarrow> True | Some name \<Rightarrow> length name \<le> kMaxNameLength) \<and>
     ms_triggers spec \<noteq> [] \<and> triggers_ok (ms_triggers spec) \<and>
     ms_states spec \<noteq> [] \<and> states_ok (ms_states spec) \<and>
     list_all outcomes_given (ms_states spec) \<and>
     links_ok (map ss_name (ms_states spec)) (map fst (ms_triggers spec)) (links_of spec)"

lemma all_triggers_fit: "all_after trigger_fits [] ts \<longleftrightarrow> triggers_ok ts"
proof (induction ts rule: rev_induct)
  case (snoc t ts)
  then show ?case
    by (auto simp: all_after_snoc trigger_fits_def triggers_ok_def)
qed (simp add: triggers_ok_def)

lemma all_states_fit: "all_after state_fits [] ss \<longleftrightarrow> states_ok ss"
proof (induction ss rule: rev_induct)
  case (snoc s ss)
  then show ?case
    by (auto simp: all_after_snoc state_fits_def states_ok_def)
qed (simp add: states_ok_def)

text \<open>The counts of a list of links, for all names rather than for the listed ones.\<close>

definition counts_ok :: "link list \<Rightarrow> bool" where
  "counts_ok links \<longleftrightarrow> conditions_in links \<le> kMaxConditions \<and>
     (\<forall>s. card (set (triggers_at s links)) \<le> kMaxTransitionsPerState) \<and>
     (\<forall>s t. length (filter (at s t) links) \<le> kMaxAlternatives)"

lemma counts_snoc:
  "counts_ok (links @ [l]) \<longleftrightarrow> counts_ok links \<and>
     conditions_in links + length (guard_spec (as_when (snd (snd l)))) \<le> kMaxConditions \<and>
     (fst (snd l) \<in> set (triggers_at (fst l) links) \<or> card (set (triggers_at (fst l) links)) < kMaxTransitionsPerState) \<and>
     length (filter (at (fst l) (fst (snd l))) links) < kMaxAlternatives"
proof -
  have cond: "conditions_in (links @ [l]) = conditions_in links + length (guard_spec (as_when (snd (snd l))))"
    by (simp add: conditions_in_def)
  have trig: "set (triggers_at s (links @ [l])) = (if s = fst l then insert (fst (snd l)) (set (triggers_at s links))
      else set (triggers_at s links))" for s
    by (auto simp: triggers_at_def)
  have alt: "length (filter (at s t) (links @ [l])) =
      (if s = fst l \<and> t = fst (snd l) then Suc (length (filter (at s t) links)) else length (filter (at s t) links))" for s t
    by (auto simp: at_def)
  have bump: "(if P then Suc n else n) \<le> k \<longleftrightarrow> n \<le> k \<and> (P \<longrightarrow> n < k)" for P and n k :: nat
    by auto
  have card: "card (set (triggers_at s (links @ [l]))) = (if s = fst l \<and> fst (snd l) \<notin> set (triggers_at s links)
      then Suc (card (set (triggers_at s links))) else card (set (triggers_at s links)))" for s
    unfolding trig by (simp add: card_insert_if)
  show ?thesis
    unfolding counts_ok_def cond card alt bump by auto
qed

lemma all_links_fit:
  "all_after (link_fits snames tnames) [] links \<longleftrightarrow> list_all (link_known snames tnames) links \<and> counts_ok links"
proof (induction links rule: rev_induct)
  case Nil
  show ?case
    by (simp add: counts_ok_def conditions_in_def triggers_at_def)
next
  case (snoc l links)
  then show ?case
    by (auto simp: all_after_snoc link_fits_def counts_snoc length_remdups_card_conv)
qed

lemma links_ok_iff:
  "links_ok snames tnames links \<longleftrightarrow> list_all (link_known snames tnames) links \<and> counts_ok links"
proof (cases "list_all (link_known snames tnames) links")
  case True
  then have "s \<in> set snames \<or> triggers_at s links = []" for s
    by (auto simp: list_all_iff link_known_def triggers_at_def filter_empty_conv)
  then have "(\<forall>s. card (set (triggers_at s links)) \<le> kMaxTransitionsPerState) \<longleftrightarrow>
      list_all (\<lambda>s. length (remdups (triggers_at s links)) \<le> kMaxTransitionsPerState) snames"
    unfolding list_all_iff length_remdups_card_conv by (metis card.empty list.set(1) zero_le)
  moreover have "filter (at s t) links = [] \<or> (\<exists>l \<in> set links. s = fst l \<and> t = fst (snd l))" for s t
    by (auto simp: at_def filter_empty_conv)
  then have "(\<forall>s t. length (filter (at s t) links) \<le> kMaxAlternatives) \<longleftrightarrow>
      list_all (\<lambda>l. length (filter (at (fst l) (fst (snd l))) links) \<le> kMaxAlternatives) links"
    unfolding list_all_iff by (metis list.size(3) zero_le)
  ultimately show ?thesis
    using True by (simp add: links_ok_def counts_ok_def)
qed (simp add: links_ok_def)

section \<open>A file is built exactly if it is well formed\<close>

definition label_step :: "string option \<Rightarrow> status + model" where
  "label_step name = (case name of None \<Rightarrow> Inr model_clear | Some n \<Rightarrow> checked (model_set_name n model_clear))"

lemma build_machine_steps:
  "build_machine spec =
     attempt (label_step (ms_name spec)) (\<lambda>m.
     if ms_triggers spec = [] then Inl SchemaError
     else attempt (each_step trigger_step (ms_triggers spec) m) (\<lambda>m.
     if ms_states spec = [] then Inl SchemaError
     else attempt (each_step state_step (ms_states spec) m) (\<lambda>m.
     attempt (each_step build_state (ms_states spec) m) (\<lambda>m.
     if validate m = Ok then Inr m else Inl (validate m)))))"
proof -
  have "(\<lambda>(name, channel) m. checked (case declare_trigger name (case channel of None \<Rightarrow> [] | Some c \<Rightarrow> c) m of
      (status, m, i) \<Rightarrow> (status, m))) = trigger_step"
    "(\<lambda>s m. checked (case declare_state (ss_name s) m of (status, m, i) \<Rightarrow> (status, m))) = state_step"
    by (simp_all add: fun_eq_iff trigger_step_def state_step_def)
  then show ?thesis
    unfolding build_machine_def label_step_def by (simp only:)
qed

lemma label_step_declares:
  "(case ms_name spec of None \<Rightarrow> True | Some name \<Rightarrow> length name \<le> kMaxNameLength) \<Longrightarrow>
     \<exists>m. label_step (ms_name spec) = Inr m \<and> declared_triggers m []"
  "\<not> (case ms_name spec of None \<Rightarrow> True | Some name \<Rightarrow> length name \<le> kMaxNameLength) \<Longrightarrow>
     isl (label_step (ms_name spec))"
proof -
  have base: "declared_triggers m []" if "loadable m" "states m = []" "triggers m = []" "conditions m = []" for m
    using that by (simp add: declared_triggers_def unlinked_def trigger_names_def behaviour_def alternatives_of_def
      fm_find_None_iff [THEN iffD2])
  have clear: "states model_clear = []" "triggers model_clear = []" "conditions model_clear = []"
    by (simp_all add: model_clear_def)
  show "\<exists>m. label_step (ms_name spec) = Inr m \<and> declared_triggers m []"
    if "case ms_name spec of None \<Rightarrow> True | Some name \<Rightarrow> length name \<le> kMaxNameLength"
  proof (cases "ms_name spec")
    case None
    with base [OF loadable_clear clear] show ?thesis
      by (simp add: label_step_def)
  next
    case (Some name)
    with that have "model_set_name name model_clear = (Ok, model_clear\<lparr>mdl_name := name\<rparr>)"
      by (simp add: model_set_name_def text_simps)
    with Some base [of "snd (model_set_name name model_clear)"] loadable_set_name [OF loadable_clear, of name] clear
    show ?thesis
      by (simp add: label_step_def checked_def)
  qed
  show "isl (label_step (ms_name spec))"
    if "\<not> (case ms_name spec of None \<Rightarrow> True | Some name \<Rightarrow> length name \<le> kMaxNameLength)"
    using that by (auto simp: label_step_def checked_def model_set_name_def text_simps split: option.splits)
qed

lemma declared_start:
  "declared_triggers m ts \<Longrightarrow> declared_states (trigger_names m) m []"
  "declared_states known m ss \<Longrightarrow> linked (map ss_name ss) (map fst known) m []"
  by (simp_all add: declared_triggers_def declared_states_def state_names_def linked_def unlinked_def
      conditions_in_def)

text \<open>Linking every state of the file, once all of them are declared.\<close>

lemma link_all:
  assumes "declared_states (map (\<lambda>t. (fst t, channel_of_spec t)) ts) m ss"
  shows "list_all outcomes_given ss \<and> links_ok (map ss_name ss) (map fst ts) (concat (map state_links ss)) \<Longrightarrow>
      \<exists>m'. each_step build_state ss m = Inr m' \<and> linked (map ss_name ss) (map fst ts) m' (concat (map state_links ss))"
    and "\<not> (list_all outcomes_given ss \<and> links_ok (map ss_name ss) (map fst ts) (concat (map state_links ss))) \<Longrightarrow>
      isl (each_step build_state ss m)"
proof -
  have start: "linked (map ss_name ss) (map fst ts) m []"
    using declared_start(2) [OF assms] by (simp add: comp_def)
  have res: "resolving (names_of m) m"
    using assms by (simp add: declared_states_def unlinked_def resolving_def)
  show "\<exists>m'. each_step build_state ss m = Inr m' \<and> linked (map ss_name ss) (map fst ts) m' (concat (map state_links ss))"
    if "list_all outcomes_given ss \<and> links_ok (map ss_name ss) (map fst ts) (concat (map state_links ss))"
    using that link_steps.steps_accept [OF start, of "concat (map state_links ss)"] states_are_links(1) [OF res, of ss]
    by (simp add: all_links_fit links_ok_iff)
  show "isl (each_step build_state ss m)"
    if "\<not> (list_all outcomes_given ss \<and> links_ok (map ss_name ss) (map fst ts) (concat (map state_links ss)))"
    using that link_steps.steps_refuse [OF start, of "concat (map state_links ss)"] states_are_links [OF res, of ss]
    by (cases "list_all outcomes_given ss") (simp_all add: all_links_fit links_ok_iff)
qed

lemma build_machine_ok:
  assumes "machine_file_ok spec"
  obtains m where "build_machine spec = Inr m"
    "linked (map ss_name (ms_states spec)) (map fst (ms_triggers spec)) m (links_of spec)"
proof -
  obtain m0 where m0: "label_step (ms_name spec) = Inr m0" "declared_triggers m0 []"
    using assms label_step_declares(1) [of spec] by (auto simp: machine_file_ok_def)
  moreover obtain m1 where m1: "each_step trigger_step (ms_triggers spec) m0 = Inr m1" "declared_triggers m1 (ms_triggers spec)"
    using assms trigger_steps.steps_accept [OF m0(2), of "ms_triggers spec"]
    by (auto simp: machine_file_ok_def all_triggers_fit)
  moreover have "declared_states (map (\<lambda>t. (fst t, channel_of_spec t)) (ms_triggers spec)) m1 []"
    using declared_start(1) [OF m1(2)] m1(2) by (simp add: declared_triggers_def)
  then obtain m2 where m2: "each_step state_step (ms_states spec) m1 = Inr m2"
      "declared_states (map (\<lambda>t. (fst t, channel_of_spec t)) (ms_triggers spec)) m2 (ms_states spec)"
    using assms state_steps.steps_accept [of _ m1 "[]" "ms_states spec"]
    by (auto simp: machine_file_ok_def all_states_fit)
  moreover obtain m where m: "each_step build_state (ms_states spec) m2 = Inr m"
      "linked (map ss_name (ms_states spec)) (map fst (ms_triggers spec)) m (links_of spec)"
    using assms link_all(1) [OF m2(2)] by (auto simp: machine_file_ok_def links_of_def)
  moreover have "validate m = Ok"
  proof (rule loadable_validate)
    show "loadable m" "states m \<noteq> []"
      using m(2) assms by (auto simp: linked_def machine_file_ok_def state_names_def)
  qed
  ultimately have "build_machine spec = Inr m"
    using assms by (simp add: build_machine_steps machine_file_ok_def)
  with m(2) that show thesis by blast
qed

lemma build_machine_refuses:
  assumes "\<not> machine_file_ok spec"
  shows "isl (build_machine spec)"
proof (cases "label_step (ms_name spec)")
  case (Inr m0)
  with label_step_declares [of spec] have label: "case ms_name spec of None \<Rightarrow> True | Some name \<Rightarrow> length name \<le> kMaxNameLength"
    and d0: "declared_triggers m0 []"
    by (metis sum.disc(2), metis sum.disc(2) sum.inject(2))
  show ?thesis
  proof (cases "each_step trigger_step (ms_triggers spec) m0")
    case m1: (Inr m1)
    with trigger_steps.steps_logged [OF d0 m1] have ts: "triggers_ok (ms_triggers spec)"
      and d1: "declared_triggers m1 (ms_triggers spec)"
      by (simp_all add: all_triggers_fit)
    have d2: "declared_states (map (\<lambda>t. (fst t, channel_of_spec t)) (ms_triggers spec)) m1 []"
      using declared_start(1) [OF d1] d1 by (simp add: declared_triggers_def)
    show ?thesis
    proof (cases "each_step state_step (ms_states spec) m1")
      case m2: (Inr m2)
      with state_steps.steps_logged [OF d2 m2] have ss: "states_ok (ms_states spec)"
        and d3: "declared_states (map (\<lambda>t. (fst t, channel_of_spec t)) (ms_triggers spec)) m2 (ms_states spec)"
        by (simp_all add: all_states_fit)
      have "isl (each_step build_state (ms_states spec) m2)" if "ms_triggers spec \<noteq> []" "ms_states spec \<noteq> []"
        using link_all(2) [OF d3] assms label ts ss that by (simp add: machine_file_ok_def links_of_def)
      then show ?thesis
        by (cases "each_step build_state (ms_states spec) m2") (auto simp: build_machine_steps Inr m1 m2)
    qed (auto simp: build_machine_steps Inr m1)
  qed (auto simp: build_machine_steps Inr)
qed (simp add: build_machine_steps)

text \<open>Linking keeps what \<open>add_transition\<close> keeps.\<close>

lemma linking_keeps:
  assumes keep: "\<And>s t target g m. f (snd (add_transition s t target g m)) = f m"
  shows "each_step build_state ss m = Inr m' \<Longrightarrow> f m' = f m"
proof -
  have alternative: "f m1 = f m" if "build_alternative s t a m = Inr m1" for s t a m m1
  proof -
    from that obtain g where "checked (add_transition s t (find_state m (as_target a)) g m) = Inr m1"
      by (auto simp: build_alternative_def attempt_Inr_iff Let_def split: if_splits)
    then have "m1 = snd (add_transition s t (find_state m (as_target a)) g m)"
      by (simp add: checked_def split_beta split: if_splits)
    then show ?thesis
      by (simp add: keep)
  qed
  have transition: "f m1 = f m" if "build_transition s tr m = Inr m1" for s tr m m1
  proof (rule each_step_inv [where I = "\<lambda>m'. f m' = f m"])
    show "each_step (build_alternative s (find_trigger m (fst tr))) (alternatives_spec (snd tr)) m = Inr m1"
      using that by (simp add: build_transition_def Let_def split: if_splits)
  qed (simp_all add: alternative)
  have state: "f m1 = f m" if "build_state st m = Inr m1" for st m m1
  proof (rule each_step_inv [where I = "\<lambda>m'. f m' = f m"])
    show "each_step (build_transition (find_state m (ss_name st))) (transitions_of st) m = Inr m1"
      using that by (simp add: build_state_def transitions_of_def split: option.splits)
  qed (simp_all add: transition)
  show "f m' = f m" if "each_step build_state ss m = Inr m'"
    by (rule each_step_inv [where I = "\<lambda>m'. f m' = f m", OF _ _ that]) (simp_all add: state)
qed

lemma label_add_transition: "mdl_name (snd (add_transition s t target g m)) = mdl_name m"
  by (cases rule: add_transition_cases [of m s t target g]) simp_all

lemma label_declared:
  "trigger_step t m = Inr m1 \<Longrightarrow> mdl_name m1 = mdl_name m"
  "state_step st m = Inr m2 \<Longrightarrow> mdl_name m2 = mdl_name m"
  by (auto simp: trigger_step_def state_step_def checked_def declare_trigger_def declare_state_def Let_def
      split: prod.splits if_splits)

text \<open>The tables and the label of the built model are those of the file, in its order.\<close>

definition label_of :: "machine_spec \<Rightarrow> string" where
  "label_of spec = (case ms_name spec of None \<Rightarrow> [] | Some name \<Rightarrow> name)"

lemma built_tables:
  assumes "build_machine spec = Inr m"
  shows "machine_file_ok spec"
    and "linked (map ss_name (ms_states spec)) (map fst (ms_triggers spec)) m (links_of spec)"
    and "trigger_names m = map (\<lambda>t. (fst t, channel_of_spec t)) (ms_triggers spec)"
    and "mdl_name m = label_of spec"
proof -
  show ok: "machine_file_ok spec"
    using assms build_machine_refuses [of spec] by fastforce
  then show "linked (map ss_name (ms_states spec)) (map fst (ms_triggers spec)) m (links_of spec)"
    by (rule build_machine_ok) (use assms in simp)
  obtain m0 m1 m2 where m: "label_step (ms_name spec) = Inr m0" "each_step trigger_step (ms_triggers spec) m0 = Inr m1"
      "each_step state_step (ms_states spec) m1 = Inr m2" "each_step build_state (ms_states spec) m2 = Inr m"
    using assms unfolding build_machine_steps by (auto simp: attempt_Inr_iff split: if_splits)
  have "declared_triggers m0 []"
    using label_step_declares [of spec] m(1) by (metis sum.disc(2) sum.inject(2))
  from trigger_steps.steps_logged(2) [OF this m(2)]
  have d1: "declared_triggers m1 (ms_triggers spec)"
    by simp
  from state_steps.steps_logged(2) [OF declared_start(1) [OF this] m(3)]
  have "trigger_names m2 = trigger_names m1"
    by (simp add: declared_states_def)
  with d1 linking_keeps [where f = trigger_names, OF _ m(4)] names_add_transition
  show "trigger_names m = map (\<lambda>t. (fst t, channel_of_spec t)) (ms_triggers spec)"
    by (simp add: declared_triggers_def)
  have "mdl_name m0 = label_of spec"
    using m(1) by (auto simp: label_step_def label_of_def checked_def model_set_name_def model_clear_def text_simps
        split: option.splits prod.splits if_splits)
  moreover have "mdl_name m1 = mdl_name m0"
    by (rule each_step_inv [where I = "\<lambda>m'. mdl_name m' = mdl_name m0", OF _ _ m(2)]) (simp_all add: label_declared)
  moreover have "mdl_name m2 = mdl_name m1"
    by (rule each_step_inv [where I = "\<lambda>m'. mdl_name m' = mdl_name m1", OF _ _ m(3)]) (simp_all add: label_declared)
  ultimately show "mdl_name m = label_of spec"
    using linking_keeps [where f = mdl_name, OF label_add_transition m(4)] by simp
qed

lemma file_spec_ok: "machine_file_ok file_spec"
  by code_simp

section \<open>What the machine loader accepts\<close>

text \<open>A document loads exactly if it can be read as a machine file and the file is well formed: it
  has triggers and states, no more
  than fit, names that are distinct, not empty and short enough, distinct channels, a guard and
  a target that is a state in every alternative, a trigger in every transition, and no more
  guards, transitions of a state and alternatives of a transition than there is room for.\<close>

theorem machine_file_loads:
  assumes "reads ops root doc" and "yn_load_text ops (cstr yaml) = Inr root"
  shows "fst (load_machine_string ops (Some yaml) m d) = Ok \<longleftrightarrow>
    (case machine_of doc of None \<Rightarrow> False | Some spec \<Rightarrow> machine_file_ok spec)"
proof -
  have "fst (load_machine_string ops (Some yaml) m d) = Ok \<longleftrightarrow> \<not> isl (doc_machine doc)"
    using guarded_machine [OF assms(1)] assms(2) by (auto simp: load_machine_string_def split: sum.splits)
  also have "\<dots> \<longleftrightarrow> (case machine_of doc of None \<Rightarrow> False | Some spec \<Rightarrow> machine_file_ok spec)"
  proof (cases "machine_of doc")
    case (Some spec)
    with machine_decoded(1) [OF Some] build_machine_ok [of spec] build_machine_refuses [of spec] show ?thesis
      by (metis option.case(2) sum.disc(2))
  qed (simp add: machine_decoded(2))
  finally show ?thesis .
qed

text \<open>A file that loads, and the same file with a transition to a state it does not have.\<close>

definition lost_spec :: machine_spec where
  "lost_spec = file_spec\<lparr>ms_states :=
     [\<lparr>ss_name = ''idle'', ss_transitions = Some [(''go'', Target ''parked'')]\<rparr>]\<rparr>"

theorem machine_file_loads_witness:
  "fst (load_machine_string file_library (Some ''text'') model_clear diagnostics_reset) = Ok \<and>
   fst (load_machine_string (document_ops (machine_doc lost_spec)) (Some ''text'') model_clear diagnostics_reset) \<noteq> Ok"
proof
  show "fst (load_machine_string file_library (Some ''text'') model_clear diagnostics_reset) = Ok"
    using machine_file_loads [OF file_library_reads file_library_loads] file_spec_ok by (simp add: machine_of_doc)
  have "yn_load_text (document_ops (machine_doc lost_spec)) (cstr ''text'') = Inr (Some (machine_doc lost_spec))"
    by (simp add: document_ops_def)
  moreover have "\<not> machine_file_ok lost_spec"
    by code_simp
  ultimately show "fst (load_machine_string (document_ops (machine_doc lost_spec)) (Some ''text'') model_clear diagnostics_reset) \<noteq> Ok"
    using machine_file_loads [OF document_ops_reads] by (simp add: machine_of_doc)
qed

end
