(* ===== verification/StateMachine.thy ===== *)
theory StateMachine
  imports DeploymentSetup
begin

text \<open>
  include/fms/state_machine.hpp and src/state_machine.cpp: the running machine. The
  pointers to the model and the setup, both constant and outliving the machine, are the
  optional values they point to. The counters wrap around at 32 bits.
\<close>

section \<open>State and events\<close>

record transition_event =
  ev_from :: state_id
  ev_to :: state_id
  ev_trigger :: trigger_id
  ev_accepted :: bool
  ev_guard_rejected :: bool

definition empty_event :: transition_event where
  "empty_event = \<lparr>ev_from = kNoState, ev_to = kNoState, ev_trigger = kNoTrigger,
     ev_accepted = False, ev_guard_rejected = False\<rparr>"

record state_machine =
  sm_model :: "model option"
  sm_setup :: "deployment option"
  sm_initial :: state_id
  sm_current :: state_id
  sm_started :: bool
  transition_total :: u32
  rejection_total :: u32

definition new_machine :: state_machine where
  "new_machine = \<lparr>sm_model = None, sm_setup = None, sm_initial = kNoState, sm_current = kNoState,
     sm_started = False, transition_total = 0, rejection_total = 0\<rparr>"

section \<open>Operations\<close>

definition sm_init :: "model \<Rightarrow> deployment \<Rightarrow> state_machine \<Rightarrow> status \<times> state_machine" where
  "sm_init m s sm =
     (if sm_started sm then (AlreadyInitialised, sm)
      else
        let validation = validate m
        in if \<not> is_ok validation then (validation, sm)
           else
             let binding = validate_against s m
             in if \<not> is_ok binding then (binding, sm)
                else (Ok, sm\<lparr>sm_model := Some m, sm_setup := Some s, sm_initial := initial_in s m,
                        sm_current := kNoState, transition_total := 0, rejection_total := 0\<rparr>))"

definition sm_start :: "state_machine \<Rightarrow> status \<times> state_machine" where
  "sm_start sm =
     (case (sm_model sm, sm_setup sm) of
        (Some m, Some s) \<Rightarrow>
          if sm_started sm then (AlreadyInitialised, sm)
          else if \<not> has_state m (sm_initial sm) then (UnknownState, sm)
          else (Ok, sm\<lparr>sm_current := sm_initial sm, sm_started := True\<rparr>)
      | _ \<Rightarrow> (NotInitialised, sm))"

definition sm_fire ::
  "trigger_id \<Rightarrow> args \<Rightarrow> state_machine \<Rightarrow> status \<times> state_machine \<times> transition_event" where
  "sm_fire trigger a sm =
     (case sm_model sm of
        None \<Rightarrow> (NotInitialised, sm, empty_event)
      | Some m \<Rightarrow>
          if \<not> sm_started sm then (NotInitialised, sm, empty_event)
          else
            let out = empty_event\<lparr>ev_from := sm_current sm, ev_trigger := trigger\<rparr>;
                (decision, target) = model_evaluate m (sm_current sm) trigger a
            in if decision = DecisionAccepted then
                 (Ok,
                  sm\<lparr>sm_current := target, transition_total := transition_total sm + 1\<rparr>,
                  out\<lparr>ev_to := target, ev_accepted := True\<rparr>)
               else
                 let sm = sm\<lparr>rejection_total := rejection_total sm + 1\<rparr>
                 in if decision = DecisionGuardRejected then
                      (GuardRejected, sm, out\<lparr>ev_guard_rejected := True\<rparr>)
                    else (NoTransition, sm, out))"

text \<open>The overload that passes no arguments.\<close>

definition sm_fire_plain ::
  "trigger_id \<Rightarrow> state_machine \<Rightarrow> status \<times> state_machine \<times> transition_event" where
  "sm_fire_plain trigger sm = sm_fire trigger args_none sm"

definition current_name :: "state_machine \<Rightarrow> string" where
  "current_name sm =
     (case sm_model sm of None \<Rightarrow> ''<uninitialised>'' | Some m \<Rightarrow> state_name m (sm_current sm))"

section \<open>What an engine over a graph guarantees\<close>

text \<open>
  An engine answers events and has a position; whatever an event does, the position stays or
  follows an edge. Everything about runs follows from this one law and the invariant.
\<close>

locale transition_engine =
  fixes answer :: "'e \<Rightarrow> 's \<Rightarrow> 's"
    and pos :: "'s \<Rightarrow> 'p"
    and inv :: "'s \<Rightarrow> bool"
    and edge :: "'p \<Rightarrow> 'p \<Rightarrow> bool"
  assumes inv_answer: "inv s \<Longrightarrow> inv (answer e s)"
    and moves: "inv s \<Longrightarrow> pos (answer e s) = pos s \<or> edge (pos s) (pos (answer e s))"
begin

lemma inv_run: "inv s \<Longrightarrow> inv (fold answer es s)"
  by (induction es arbitrary: s) (auto intro: inv_answer)

lemma run_follows_edges: "inv s \<Longrightarrow> edge\<^sup>*\<^sup>* (pos s) (pos (fold answer es s))"
proof (induction es arbitrary: s)
  case (Cons e es)
  have "edge\<^sup>*\<^sup>* (pos s) (pos (answer e s))"
    using moves [OF Cons.prems, of e] by auto
  also have "edge\<^sup>*\<^sup>* (pos (answer e s)) (pos (fold answer es (answer e s)))"
    using Cons.IH [OF inv_answer [OF Cons.prems]] .
  finally show ?case
    by simp
qed simp

text \<open>A position nothing leads out of is never left.\<close>

lemma run_stuck: "inv s \<Longrightarrow> (\<And>q. edge (pos s) q \<Longrightarrow> q = pos s) \<Longrightarrow> pos (fold answer es s) = pos s"
proof (induction es arbitrary: s)
  case (Cons e es)
  have "pos (answer e s) = pos s"
    using moves [OF Cons.prems(1), of e] Cons.prems(2) by auto
  with Cons.IH [OF inv_answer [OF Cons.prems(1), of e]] Cons.prems(2) show ?case
    by simp
qed simp

end

section \<open>The machine as an engine over the graph of its model\<close>

definition edge :: "model \<Rightarrow> state_id \<Rightarrow> state_id \<Rightarrow> bool" where
  "edge m s s' \<longleftrightarrow> (\<exists>t. \<exists>alt \<in> set (alternatives_of m s t). alt_target alt = s')"

lemma edge_behaviour: "edge m s s' \<longleftrightarrow> (\<exists>t g. (g, s') \<in> set (behaviour m s t))"
  by (fastforce simp: edge_def behaviour_def)

lemma decide_accepted:
  "decide outcomes a = (DecisionAccepted, s') \<longleftrightarrow>
    (\<exists>g. first_match (\<lambda>(g, target). guard_holds a g) outcomes = Some (g, s'))"
  by (auto simp: decide_def split: option.splits)

lemma evaluate_edge:
  assumes "model_ok m" and "model_evaluate m s t a = (DecisionAccepted, s')"
  shows "edge m s s'" "has_state m s'"
proof -
  from assms obtain g where "first_match (\<lambda>(g, target). guard_holds a g) (behaviour m s t) = Some (g, s')"
    by (auto simp: evaluate_decide decide_accepted)
  then have "(g, s') \<in> set (behaviour m s t)"
    by (blast dest: first_match_SomeD)
  then show "edge m s s'"
    by (auto simp: edge_behaviour)
  then show "has_state m s'"
    using alternatives_of_ok(1) [OF assms(1)] by (auto simp: edge_def list_all_iff alternative_ok_def)
qed

definition running :: "model \<Rightarrow> state_machine \<Rightarrow> bool" where
  "running m sm \<longleftrightarrow> sm_model sm = Some m \<and> sm_started sm \<and> model_ok m \<and> has_state m (sm_current sm)"

definition fire_event :: "trigger_id \<times> args \<Rightarrow> state_machine \<Rightarrow> state_machine" where
  "fire_event e sm = fst (snd (sm_fire (fst e) (snd e) sm))"

lemma fire_event_cases:
  assumes "running m sm"
  obtains (accepted) s' where "model_evaluate m (sm_current sm) (fst e) (snd e) = (DecisionAccepted, s')"
      "fire_event e sm = sm\<lparr>sm_current := s', transition_total := transition_total sm + 1\<rparr>"
      "fst (sm_fire (fst e) (snd e) sm) = Ok"
  | (refused) "fst (model_evaluate m (sm_current sm) (fst e) (snd e)) \<noteq> DecisionAccepted"
      "fire_event e sm = sm\<lparr>rejection_total := rejection_total sm + 1\<rparr>"
      "fst (sm_fire (fst e) (snd e) sm) \<noteq> Ok"
proof (cases "model_evaluate m (sm_current sm) (fst e) (snd e)")
  case (Pair d s')
  with assms accepted refused show thesis
    by (cases d) (auto simp: running_def fire_event_def sm_fire_def Let_def)
qed

interpretation machine: transition_engine fire_event sm_current "running m" "edge m" for m
proof unfold_locales
  fix s e
  assume run: "running m s"
  show "running m (fire_event e s)"
    using run by (cases rule: fire_event_cases [OF run, of e])
      (auto simp: running_def dest: evaluate_edge(2))
  show "sm_current (fire_event e s) = sm_current s \<or> edge m (sm_current s) (sm_current (fire_event e s))"
    using run by (cases rule: fire_event_cases [OF run, of e])
      (auto simp: running_def dest: evaluate_edge(1))
qed

section \<open>Machines the operations can reach\<close>

inductive machine_reachable :: "state_machine \<Rightarrow> bool" where
  machine_new: "machine_reachable new_machine"
| machine_init: "machine_reachable sm \<Longrightarrow> model_ok m \<Longrightarrow> machine_reachable (snd (sm_init m s sm))"
| machine_start: "machine_reachable sm \<Longrightarrow> machine_reachable (snd (sm_start sm))"
| machine_fire: "machine_reachable sm \<Longrightarrow> machine_reachable (fire_event e sm)"

definition machine_ok :: "state_machine \<Rightarrow> bool" where
  "machine_ok sm \<longleftrightarrow>
     (case sm_model sm of
        None \<Rightarrow> sm = new_machine
      | Some m \<Rightarrow> model_ok m \<and> has_state m (sm_initial sm) \<and>
          (\<exists>s. sm_setup sm = Some s \<and> validate_against s m = Ok \<and> sm_initial sm = initial_in s m) \<and>
          (if sm_started sm then (edge m)\<^sup>*\<^sup>* (sm_initial sm) (sm_current sm) \<and> has_state m (sm_current sm)
           else sm_current sm = kNoState \<and> transition_total sm = 0 \<and> rejection_total sm = 0))"

lemma machine_ok_new [inv_intros]: "machine_ok new_machine"
  by (simp add: machine_ok_def new_machine_def)

lemma machine_ok_init [inv_intros]:
  assumes "machine_ok sm" and "model_ok m"
  shows "machine_ok (snd (sm_init m s sm))"
proof (cases "fst (sm_init m s sm) = Ok")
  case True
  then have "\<not> sm_started sm" "validate_against s m = Ok"
    by (auto simp: sm_init_def Let_def split: if_splits)
  with True assms(2) validate_against_has_state [OF assms(2), of s] show ?thesis
    by (auto simp: sm_init_def machine_ok_def Let_def split: if_splits)
next
  case False
  then have "snd (sm_init m s sm) = sm"
    by (auto simp: sm_init_def Let_def split: if_splits)
  with assms(1) show ?thesis
    by simp
qed

lemma machine_ok_start [inv_intros]: "machine_ok sm \<Longrightarrow> machine_ok (snd (sm_start sm))"
  by (auto simp: sm_start_def machine_ok_def split: option.splits if_splits)

lemma machine_ok_running: "machine_ok sm \<Longrightarrow> sm_started sm \<Longrightarrow> \<exists>m. running m sm"
  by (auto simp: machine_ok_def running_def new_machine_def split: option.splits)

lemma machine_ok_fire [inv_intros]: "machine_ok sm \<Longrightarrow> machine_ok (fire_event e sm)"
proof (cases "sm_started sm")
  case True
  assume ok: "machine_ok sm"
  then obtain m where run: "running m sm"
    using True machine_ok_running by blast
  then have "running m (fire_event e sm)"
    by (rule machine.inv_answer)
  moreover have "(edge m)\<^sup>*\<^sup>* (sm_current sm) (sm_current (fire_event e sm))"
    using machine.run_follows_edges [OF run, of "[e]"] by simp
  moreover have "sm_initial (fire_event e sm) = sm_initial sm" "sm_setup (fire_event e sm) = sm_setup sm"
    by (cases rule: fire_event_cases [OF run, of e]; simp)+
  ultimately show ?thesis
    using ok run by (auto simp: machine_ok_def running_def intro: rtranclp_trans)
next
  case False
  assume "machine_ok sm"
  with False show ?thesis
    by (auto simp: fire_event_def sm_fire_def split: option.splits)
qed

lemma reachable_machine_ok: "machine_reachable sm \<Longrightarrow> machine_ok sm"
  by (induction rule: machine_reachable.induct) (auto intro: inv_intros)

lemma totals_run:
  assumes "running m sm"
  shows "transition_total (fold fire_event es sm) + rejection_total (fold fire_event es sm) =
    transition_total sm + rejection_total sm + word_of_nat (length es)"
  using assms
proof (induction es arbitrary: sm)
  case (Cons e es)
  have "transition_total (fire_event e sm) + rejection_total (fire_event e sm) =
      transition_total sm + rejection_total sm + 1"
    by (cases rule: fire_event_cases [OF Cons.prems, of e]) simp_all
  with Cons.IH [OF machine.inv_answer [OF Cons.prems, of e]] show ?case
    by simp
qed simp

section \<open>The abstract machine, and that the code simulates it\<close>

inductive machine_step :: "model \<Rightarrow> state_id \<Rightarrow> trigger_id \<Rightarrow> args \<Rightarrow> status \<Rightarrow> state_id \<Rightarrow> bool" for m where
  step_accepted: "decide (behaviour m s t) a = (DecisionAccepted, s') \<Longrightarrow> machine_step m s t a Ok s'"
| step_guard: "fst (decide (behaviour m s t) a) = DecisionGuardRejected \<Longrightarrow> machine_step m s t a GuardRejected s"
| step_unlisted: "behaviour m s t = [] \<Longrightarrow> machine_step m s t a NoTransition s"

inductive_cases machine_stepE: "machine_step m s t a st s'"

inductive_simps machine_step_Ok: "machine_step m s t a Ok s'"

lemma decide_unlisted_iff: "fst (decide outcomes a) = DecisionNoTransition \<longleftrightarrow> outcomes = []"
  by (auto simp: decide_def split: option.splits)

lemma machine_step_deterministic:
  "machine_step m s t a st1 s1 \<Longrightarrow> machine_step m s t a st2 s2 \<Longrightarrow> st1 = st2 \<and> s1 = s2"
  using decide_unlisted_iff [of "behaviour m s t" a] by (auto elim!: machine_stepE)

lemma machine_step_total: "\<exists>st s'. machine_step m s t a st s'"
proof (cases "decide (behaviour m s t) a")
  case (Pair d s')
  show ?thesis
  proof (cases d)
    case DecisionAccepted
    with Pair show ?thesis
      by (blast intro: step_accepted)
  next
    case DecisionNoTransition
    with Pair decide_unlisted_iff [of "behaviour m s t" a] show ?thesis
      by (auto intro: step_unlisted)
  next
    case DecisionGuardRejected
    with Pair have "machine_step m s t a GuardRejected s"
      by (intro step_guard) simp
    then show ?thesis
      by blast
  qed
qed

lemma fire_simulates:
  assumes "running m sm"
  shows "machine_step m (sm_current sm) t a (fst (sm_fire t a sm)) (sm_current (fst (snd (sm_fire t a sm))))"
proof -
  obtain d s' where d: "model_evaluate m (sm_current sm) t a = (d, s')"
    by fastforce
  moreover from d have "decide (behaviour m (sm_current sm) t) a = (d, s')"
    using assms by (simp add: running_def evaluate_decide)
  ultimately show ?thesis
    using assms decide_unlisted_iff [of "behaviour m (sm_current sm) t" a]
    by (cases d) (auto simp: running_def sm_fire_def intro: machine_step.intros)
qed

section \<open>A machine at work\<close>

definition sample_machine :: state_machine where
  "sample_machine = snd (sm_start (snd (sm_init sample_model sample_setup new_machine)))"

lemma sample_machine_facts:
  "sm_model sample_machine = Some sample_model" "sm_started sample_machine"
  "has_state sample_model (sm_current sample_machine)"
  by code_simp+

lemma sample_machine_running: "running sample_model sample_machine"
  by (simp add: running_def sample_machine_facts sample_model_ok)

lemma sample_machine_reachable: "machine_reachable sample_machine"
  unfolding sample_machine_def by (intro machine_reachable.intros sample_model_ok)

section \<open>What the machine promises\<close>

text \<open>C5: whatever sequence of \<open>init\<close>, \<open>start\<close> and \<open>fire\<close> calls is made, successful or
  not, the machine is either unbound or bound to a model and a setup that fit, with the
  initial state the setup names; before the start it is in no state and has counted nothing,
  afterwards it is in a state of the model that a path of transitions leads to.\<close>

theorem machine_invariant: "machine_reachable sm \<Longrightarrow> machine_ok sm"
  by (rule reachable_machine_ok)

theorem machine_invariant_witness: "machine_ok sample_machine"
  by (rule machine_invariant) (rule sample_machine_reachable)

text \<open>C2: \<open>fire\<close> on a running machine simulates the abstract machine step for step: it moves
  to the target and counts a transition exactly when an outcome is accepted, otherwise it
  stays, counts a rejection and tells a guard rejection from an unlisted trigger; the event
  it reports says the same, and nothing else of the machine changes.\<close>

theorem fire_refines:
  assumes "running m sm"
  shows "case sm_fire t a sm of (status, sm', ev) \<Rightarrow>
    machine_step m (sm_current sm) t a status (sm_current sm') \<and>
    sm' = sm\<lparr>sm_current := sm_current sm',
             transition_total := transition_total sm + (if status = Ok then 1 else 0),
             rejection_total := rejection_total sm + (if status = Ok then 0 else 1)\<rparr> \<and>
    ev = \<lparr>ev_from = sm_current sm, ev_to = (if status = Ok then sm_current sm' else kNoState),
          ev_trigger = t, ev_accepted = (status = Ok), ev_guard_rejected = (status = GuardRejected)\<rparr>"
proof (cases "model_evaluate m (sm_current sm) t a")
  case (Pair d s')
  with fire_simulates [OF assms, of t a] assms show ?thesis
    by (cases d) (auto simp: running_def sm_fire_def Let_def empty_event_def)
qed

theorem fire_refines_witness:
  "case sm_fire 0 args_none sample_machine of (status, sm', ev) \<Rightarrow>
    machine_step sample_model (sm_current sample_machine) 0 args_none status (sm_current sm') \<and>
    sm' = sample_machine\<lparr>sm_current := sm_current sm',
             transition_total := transition_total sample_machine + (if status = Ok then 1 else 0),
             rejection_total := rejection_total sample_machine + (if status = Ok then 0 else 1)\<rparr> \<and>
    ev = \<lparr>ev_from = sm_current sample_machine, ev_to = (if status = Ok then sm_current sm' else kNoState),
          ev_trigger = 0, ev_accepted = (status = Ok), ev_guard_rejected = (status = GuardRejected)\<rparr>"
  by (rule fire_refines) (rule sample_machine_running)

text \<open>C20: over any run of triggers the machine only follows transitions of its model, and it
  never leaves a state none of whose alternatives leads elsewhere.\<close>

theorem run_follows_transitions:
  assumes "running m sm"
  shows "(edge m)\<^sup>*\<^sup>* (sm_current sm) (sm_current (fold fire_event es sm)) \<and>
    ((\<exists>s'. edge m (sm_current sm) s' \<and> s' \<noteq> sm_current sm) \<or>
     sm_current (fold fire_event es sm) = sm_current sm)"
  using machine.run_follows_edges [OF assms] machine.run_stuck [OF assms] by blast

theorem run_follows_transitions_witness:
  "(edge sample_model)\<^sup>*\<^sup>* (sm_current sample_machine) (sm_current (fold fire_event [(0, args_none)] sample_machine)) \<and>
    ((\<exists>s'. edge sample_model (sm_current sample_machine) s' \<and> s' \<noteq> sm_current sample_machine) \<or>
     sm_current (fold fire_event [(0, args_none)] sample_machine) = sm_current sample_machine)"
  by (rule run_follows_transitions) (rule sample_machine_running)

text \<open>Every trigger fired at a running machine is counted exactly once, as a transition or
  as a rejection, modulo the 32 bits of the counters.\<close>

theorem fire_counts_everything:
  assumes "running m sm"
  shows "transition_total (fold fire_event es sm) + rejection_total (fold fire_event es sm) =
    transition_total sm + rejection_total sm + word_of_nat (length es)"
  using assms by (rule totals_run)

theorem fire_counts_everything_witness:
  "transition_total (fold fire_event [(0, args_none), (1, args_none)] sample_machine) +
   rejection_total (fold fire_event [(0, args_none), (1, args_none)] sample_machine) =
    transition_total sample_machine + rejection_total sample_machine +
    word_of_nat (length [(0 :: trigger_id, args_none), (1, args_none)])"
  by (rule fire_counts_everything) (rule sample_machine_running)

text \<open>Binding a setup to a well-formed model succeeds exactly when the model has a state of
  the name the setup gives as initial; the start that follows then succeeds and enters the
  state of that name.\<close>

theorem init_then_start:
  assumes "model_ok m"
  shows "case sm_init m s new_machine of (status, sm) \<Rightarrow>
    (status = Ok \<longleftrightarrow> (\<exists>i n. model_state m i = Some n \<and> node_name n = initial_name s)) \<and>
    (if status = Ok
     then fst (sm_start sm) = Ok \<and> sm_started (snd (sm_start sm)) \<and>
       current_name (snd (sm_start sm)) = initial_name s
     else sm = new_machine \<and> fst (sm_start sm) = NotInitialised)"
proof (cases "validate_against s m = Ok")
  case True
  then obtain n where n: "model_state m (initial_in s m) = Some n" "node_name n = initial_name s"
    using validate_against_Ok [OF assms] by auto
  then have "states m \<noteq> []"
    by (auto simp: model_state_def fm_find_def)
  with n True show ?thesis
    using model_ok_validate [OF assms]
    by (auto simp: sm_init_def sm_start_def new_machine_def has_state_def model_state_def
        current_name_def state_name_def)
next
  case False
  have "\<not> (\<exists>i n. model_state m i = Some n \<and> node_name n = initial_name s)"
  proof (clarsimp)
    fix i n
    assume n: "model_state m i = Some n" "node_name n = initial_name s"
    then have "i \<noteq> kNoState"
      using state_id_not_none [OF model_okD(1) [OF assms]] by (simp add: model_state_def)
    with n find_state_iff [OF assms this] have "initial_in s m = i"
      by (simp add: initial_in_def)
    with n False validate_against_Ok [OF assms] show False
      by blast
  qed
  with False show ?thesis
    by (auto simp: sm_init_def sm_start_def new_machine_def Let_def)
qed

theorem init_then_start_witness:
  "case sm_init sample_model sample_setup new_machine of (status, sm) \<Rightarrow>
    (status = Ok \<longleftrightarrow>
       (\<exists>i n. model_state sample_model i = Some n \<and> node_name n = initial_name sample_setup)) \<and>
    (if status = Ok
     then fst (sm_start sm) = Ok \<and> sm_started (snd (sm_start sm)) \<and>
       current_name (snd (sm_start sm)) = initial_name sample_setup
     else sm = new_machine \<and> fst (sm_start sm) = NotInitialised)"
  by (rule init_then_start) (rule sample_model_ok)

end
