(* ===== verification/Ports.thy ===== *)
theory Ports
  imports DeploymentSetup
begin

text \<open>
  include/fms/port.hpp: the interface between the machine and the outside world. A port
  is a table of operations on a state of its own, the virtual methods of \<open>IPort\<close>; a
  method that the class implements itself is the default one here. What the runtime needs from a port is the locale \<open>port_contract\<close>; the runtime's lemmas are proved in it once.
\<close>

section \<open>The interface\<close>

record port_input =
  in_channel :: string
  in_arguments :: string

definition empty_input :: port_input where
  "empty_input = \<lparr>in_channel = [], in_arguments = []\<rparr>"

record 'p port_ops =
  po_configure :: "io_config \<Rightarrow> 'p \<Rightarrow> status \<times> 'p"
  po_open :: "'p \<Rightarrow> status \<times> 'p"
  po_close :: "'p \<Rightarrow> status \<times> 'p"
  po_listen :: "string \<Rightarrow> 'p \<Rightarrow> status \<times> 'p"
  po_receive :: "port_input \<Rightarrow> u32 \<Rightarrow> 'p \<Rightarrow> status \<times> port_input \<times> 'p"
  po_publish_state :: "string \<Rightarrow> 'p \<Rightarrow> status \<times> 'p"
  po_publish_error :: "string \<Rightarrow> 'p \<Rightarrow> status \<times> 'p"

definition iport_configure :: "io_config \<Rightarrow> 'p \<Rightarrow> status \<times> 'p" where
  "iport_configure io p = (Ok, p)"

definition iport_last_error :: string where
  "iport_last_error = ''none''"

text \<open>Draining the port: what it delivers until it has nothing left.\<close>

fun receive_n :: "'p port_ops \<Rightarrow> nat \<Rightarrow> 'p \<Rightarrow> port_input list \<times> 'p" where
  "receive_n ops 0 p = ([], p)"
| "receive_n ops (Suc n) p =
     (let (st, i, p') = po_receive ops empty_input 0 p; (is, q) = receive_n ops n p'
      in (i # is, q))"

section \<open>What the runtime relies on\<close>

text \<open>
  \<open>ready\<close> ports may be opened, \<open>usable\<close> ones are open. \<open>shown\<close> is the state last
  reported, \<open>pending\<close> the inputs still to come, in order.
\<close>

locale port_contract =
  fixes ops :: "'p port_ops"
    and ready :: "'p \<Rightarrow> bool"
    and usable :: "'p \<Rightarrow> bool"
    and shown :: "'p \<Rightarrow> string option"
    and pending :: "'p \<Rightarrow> (string \<times> string) list"
  assumes configure_ready: "ready p \<Longrightarrow> ready (snd (po_configure ops io p))"
    and configure_pending: "pending (snd (po_configure ops io p)) = pending p"
    and open_usable: "ready p \<Longrightarrow> fst (po_open ops p) = Ok \<Longrightarrow> usable (snd (po_open ops p))"
    and open_pending: "pending (snd (po_open ops p)) = pending p"
    and listen_usable: "usable p \<Longrightarrow> usable (snd (po_listen ops c p))"
    and listen_pending: "pending (snd (po_listen ops c p)) = pending p"
    and receive_usable: "usable p \<Longrightarrow> usable (snd (snd (po_receive ops i ms p)))"
    and receive_shown: "shown (snd (snd (po_receive ops i ms p))) = shown p"
    and receive_next: "usable p \<Longrightarrow> pending p = (c, a) # rest \<Longrightarrow>
      \<exists>p'. po_receive ops i ms p = (Ok, \<lparr>in_channel = c, in_arguments = a\<rparr>, p') \<and> pending p' = rest"
    and receive_idle: "usable p \<Longrightarrow> pending p = [] \<Longrightarrow>
      fst (po_receive ops i ms p) \<in> {Timeout, EndOfInput}"
    and state_usable: "usable p \<Longrightarrow> usable (snd (po_publish_state ops s p))"
    and state_shown: "usable p \<Longrightarrow> length s \<le> kMaxNameLength \<Longrightarrow>
      shown (snd (po_publish_state ops s p)) = Some s"
    and state_pending: "pending (snd (po_publish_state ops s p)) = pending p"
    and error_usable: "usable p \<Longrightarrow> usable (snd (po_publish_error ops e p))"
    and error_shown: "shown (snd (po_publish_error ops e p)) = shown p"
    and error_pending: "pending (snd (po_publish_error ops e p)) = pending p"
begin

lemma receive_all:
  "usable p \<Longrightarrow> map (\<lambda>i. (in_channel i, in_arguments i)) (fst (receive_n ops (length (pending p)) p)) = pending p \<and>
    pending (snd (receive_n ops (length (pending p)) p)) = [] \<and> usable (snd (receive_n ops (length (pending p)) p))"
proof (induction "pending p" arbitrary: p)
  case Nil
  from Nil(1)[symmetric] Nil(2) show ?case
    by simp
next
  case (Cons ca rest)
  obtain c a where ca: "ca = (c, a)"
    by fastforce
  from receive_next [OF Cons.prems, of c a rest empty_input 0] Cons.hyps(2) ca
  obtain p' where p': "po_receive ops empty_input 0 p = (Ok, \<lparr>in_channel = c, in_arguments = a\<rparr>, p')"
    "pending p' = rest"
    by auto
  have "usable p'"
    using receive_usable [OF Cons.prems, of empty_input 0] p'(1) by simp
  with Cons.hyps(1) [of p'] p' Cons.hyps(2) [symmetric] ca show ?case
    by (simp add: split_beta)
qed

end

end
