(* ===== verification/MemoryPort.thy ===== *)
theory MemoryPort
  imports Ports
begin

text \<open>
  include/fms/port/memory_port.hpp: the port that queues its input and records its output.
  The two template parameters are the arguments \<open>queue_depth\<close> and
  \<open>history_depth\<close>; a full history drops its oldest entry.
\<close>

section \<open>State and operations\<close>

record queued =
  q_channel :: string
  q_arguments :: string

definition empty_queued :: queued where
  "empty_queued = \<lparr>q_channel = [], q_arguments = []\<rparr>"

record memory_port =
  mp_open :: bool
  mp_end_of_input :: bool
  mp_configured :: bool
  mp_configured_before_open :: bool
  mp_io :: io_config
  mp_current :: queued
  mp_inbox :: "queued list"
  mp_listening :: "string list"
  mp_states :: "string list"
  mp_errors :: "string list"

definition new_memory_port :: memory_port where
  "new_memory_port = \<lparr>mp_open = False, mp_end_of_input = False, mp_configured = False,
     mp_configured_before_open = False, mp_io = empty_io, mp_current = empty_queued,
     mp_inbox = [], mp_listening = [], mp_states = [], mp_errors = []\<rparr>"

definition memory_configure :: "io_config \<Rightarrow> memory_port \<Rightarrow> status \<times> memory_port" where
  "memory_configure io p =
     (Ok, p\<lparr>mp_io := io, mp_configured := True, mp_configured_before_open := \<not> mp_open p\<rparr>)"

definition memory_open :: "memory_port \<Rightarrow> status \<times> memory_port" where
  "memory_open p = (Ok, p\<lparr>mp_open := True\<rparr>)"

definition memory_close :: "memory_port \<Rightarrow> status \<times> memory_port" where
  "memory_close p = (Ok, p\<lparr>mp_open := False\<rparr>)"

definition memory_listen :: "string \<Rightarrow> memory_port \<Rightarrow> status \<times> memory_port" where
  "memory_listen channel p =
     (if \<not> mp_open p then (NotOpen, p)
      else if length (mp_listening p) = kMaxTriggers then (CapacityExceeded, p)
      else
        let (fits, entry) = assign_checked kMaxChannelLength [] channel
        in if \<not> fits then (ChannelTooLong, p)
           else (Ok, p\<lparr>mp_listening := mp_listening p @ [entry]\<rparr>))"

definition memory_receive ::
  "port_input \<Rightarrow> u32 \<Rightarrow> memory_port \<Rightarrow> status \<times> port_input \<times> memory_port" where
  "memory_receive input timeout_ms p =
     (if \<not> mp_open p then (NotOpen, input, p)
      else case mp_inbox p of
          [] \<Rightarrow> (if mp_end_of_input p then EndOfInput else Timeout, input, p)
        | front # rest \<Rightarrow>
            (Ok, \<lparr>in_channel = q_channel front, in_arguments = q_arguments front\<rparr>,
             p\<lparr>mp_current := front, mp_inbox := rest\<rparr>))"

text \<open>\<open>record\<close>: its answer and the history afterwards.\<close>

definition memory_record :: "nat \<Rightarrow> bool \<Rightarrow> string list \<Rightarrow> string \<Rightarrow> status \<times> string list" where
  "memory_record history_depth is_open into t =
     (if \<not> is_open then (NotOpen, into)
      else
        let into = (if length into = history_depth then drop 1 into else into);
            entry = append_clipped kMaxMessageLength [] t
        in (Ok, into @ [entry]))"

definition memory_publish_state :: "nat \<Rightarrow> string \<Rightarrow> memory_port \<Rightarrow> status \<times> memory_port" where
  "memory_publish_state history_depth state p =
     (let (status, into) = memory_record history_depth (mp_open p) (mp_states p) state
      in (status, p\<lparr>mp_states := into\<rparr>))"

definition memory_publish_error :: "nat \<Rightarrow> string \<Rightarrow> memory_port \<Rightarrow> status \<times> memory_port" where
  "memory_publish_error history_depth message p =
     (let (status, into) = memory_record history_depth (mp_open p) (mp_errors p) message
      in (status, p\<lparr>mp_errors := into\<rparr>))"

definition memory_ops :: "nat \<Rightarrow> memory_port port_ops" where
  "memory_ops history_depth = \<lparr>po_configure = memory_configure, po_open = memory_open,
     po_close = memory_close, po_listen = memory_listen, po_receive = memory_receive,
     po_publish_state = memory_publish_state history_depth,
     po_publish_error = memory_publish_error history_depth\<rparr>"

section \<open>The test helpers\<close>

definition memory_inject :: "nat \<Rightarrow> string \<Rightarrow> string \<Rightarrow> memory_port \<Rightarrow> status \<times> memory_port" where
  "memory_inject queue_depth channel arguments p =
     (if length (mp_inbox p) = queue_depth then (CapacityExceeded, p)
      else
        let (fits, stored) = assign_checked kMaxChannelLength [] channel
        in if \<not> fits then (ChannelTooLong, p)
           else (Ok, p\<lparr>mp_inbox := mp_inbox p @
                  [\<lparr>q_channel = stored,
                    q_arguments = append_clipped kMaxMessageLength [] arguments\<rparr>]\<rparr>))"

definition memory_set_end_of_input :: "bool \<Rightarrow> memory_port \<Rightarrow> memory_port" where
  "memory_set_end_of_input v p = p\<lparr>mp_end_of_input := v\<rparr>"

definition memory_last_state :: "memory_port \<Rightarrow> string" where
  "memory_last_state p = (if mp_states p = [] then [] else last (mp_states p))"

definition memory_last_error_message :: "memory_port \<Rightarrow> string" where
  "memory_last_error_message p = (if mp_errors p = [] then [] else last (mp_errors p))"

definition memory_clear_history :: "memory_port \<Rightarrow> memory_port" where
  "memory_clear_history p = p\<lparr>mp_states := [], mp_errors := []\<rparr>"

section \<open>The port meets the contract\<close>

lemma memory_record_bound:
  "0 < depth \<Longrightarrow> length into \<le> depth \<Longrightarrow> length (snd (memory_record depth True into t)) \<le> depth"
  by (auto simp: memory_record_def Let_def)

lemma memory_record_recent:
  "0 < depth \<Longrightarrow> length into \<le> depth \<Longrightarrow>
    snd (memory_record depth True into t) = recent depth (into @ [take kMaxMessageLength t])"
  by (auto simp: memory_record_def recent_def Let_def text_simps le_Suc_eq not_less_eq_eq)

definition memory_pending :: "memory_port \<Rightarrow> (string \<times> string) list" where
  "memory_pending p = map (\<lambda>q. (q_channel q, q_arguments q)) (mp_inbox p)"

definition memory_shown :: "memory_port \<Rightarrow> string option" where
  "memory_shown p = (if mp_states p = [] then None else Some (last (mp_states p)))"

lemmas memory_defs =
  memory_configure_def memory_open_def memory_close_def memory_listen_def memory_receive_def
  memory_publish_state_def memory_publish_error_def

interpretation mem: port_contract "memory_ops depth" "\<lambda>p. True" mp_open memory_shown memory_pending
  for depth
  by unfold_locales
    (auto simp: memory_ops_def memory_defs memory_pending_def memory_shown_def memory_record_def
      text_simps capacity_defs Let_def split: list.splits)

text \<open>Injecting and receiving: a queue.\<close>

lemma memory_inject_pending:
  "memory_inject depth c a p = (Ok, q) \<Longrightarrow>
    memory_pending q = memory_pending p @ [(c, take kMaxMessageLength a)] \<and> mp_open q = mp_open p"
  by (auto simp: memory_inject_def memory_pending_def text_simps Let_def split: if_splits)

fun inject_all :: "nat \<Rightarrow> (string \<times> string) list \<Rightarrow> memory_port \<Rightarrow> memory_port" where
  "inject_all depth [] p = p"
| "inject_all depth ((c, a) # cas) p = inject_all depth cas (snd (memory_inject depth c a p))"

lemma inject_all_pending:
  assumes "length (mp_inbox p) + length cas \<le> depth"
    and "\<forall>(c, a) \<in> set cas. length c \<le> kMaxChannelLength"
  shows "memory_pending (inject_all depth cas p) =
      memory_pending p @ map (\<lambda>(c, a). (c, take kMaxMessageLength a)) cas"
    "mp_open (inject_all depth cas p) = mp_open p"
  using assms by (induction cas arbitrary: p)
    (auto simp: memory_inject_def memory_pending_def text_simps Let_def)

lemma publish_states_recent:
  assumes "0 < depth" and "mp_open p" and "length (mp_states p) \<le> depth"
  shows "mp_states (fold (\<lambda>s p. snd (memory_publish_state depth s p)) ss p) =
    recent depth (mp_states p @ map (take kMaxMessageLength) ss)"
  using assms(2,3)
proof (induction ss arbitrary: p)
  case (Cons s ss)
  let ?p = "snd (memory_publish_state depth s p)"
  have p: "mp_states ?p = snd (memory_record depth True (mp_states p) s)" "mp_open ?p"
    using Cons.prems by (auto simp: memory_publish_state_def split_beta)
  with Cons.IH [of ?p] memory_record_bound [OF assms(1) Cons.prems(2), of s]
    memory_record_recent [OF assms(1) Cons.prems(2), of s]
  show ?case
    by (simp add: recent_recent)
qed (simp add: recent_short)

section \<open>Properties\<close>

text \<open>An open memory port is a queue: inputs injected within its depth come out of
  \<open>receive\<close> in the order they went in, each exactly once, on the channel they were injected
  on and with their arguments (clipped to a message).\<close>

theorem memory_port_fifo:
  assumes "mp_open p" and "mp_inbox p = []" and "length cas \<le> depth"
    and "\<forall>(c, a) \<in> set cas. length c \<le> kMaxChannelLength"
  shows "map (\<lambda>i. (in_channel i, in_arguments i))
      (fst (receive_n (memory_ops h) (length cas) (inject_all depth cas p))) =
    map (\<lambda>(c, a). (c, take kMaxMessageLength a)) cas"
proof -
  have "memory_pending (inject_all depth cas p) = map (\<lambda>(c, a). (c, take kMaxMessageLength a)) cas"
    "mp_open (inject_all depth cas p)"
    using inject_all_pending [of p cas depth] assms by (simp_all add: memory_pending_def)
  with mem.receive_all [of "inject_all depth cas p" h] show ?thesis
    by simp
qed

theorem memory_port_fifo_witness:
  "map (\<lambda>i. (in_channel i, in_arguments i)) (fst (receive_n (memory_ops 32) 2
      (inject_all 16 [(''a'', ''k=1''), (''b'', [])] (snd (memory_open new_memory_port))))) =
    [(''a'', ''k=1''), (''b'', [])]"
  using memory_port_fifo [of "snd (memory_open new_memory_port)" "[(''a'', ''k=1''), (''b'', [])]" 16 32]
  by (simp add: memory_open_def new_memory_port_def capacity_defs numeral_2_eq_2)

text \<open>The recorded history of an open memory port is bounded by its depth and holds the
  most recent states published, in order, each clipped to a message.\<close>

theorem memory_port_history:
  assumes "0 < depth" and "mp_open p" and "mp_states p = []"
  shows "mp_states (fold (\<lambda>s p. snd (memory_publish_state depth s p)) ss p) =
    recent depth (map (take kMaxMessageLength) ss)"
  using publish_states_recent [OF assms(1,2), of ss] assms(3) by simp

theorem memory_port_history_witness:
  "mp_states (fold (\<lambda>s p. snd (memory_publish_state 2 s p)) [''a'', ''b'', ''c'']
      (snd (memory_open new_memory_port))) = [''b'', ''c'']"
  using memory_port_history [of 2 "snd (memory_open new_memory_port)" "[''a'', ''b'', ''c'']"]
  by (simp add: memory_open_def new_memory_port_def capacity_defs recent_def)

end
