(* ===== verification/InspectText.thy ===== *)
theory InspectText
  imports Conditions
begin

text \<open>
  src/inspect/text.hpp: the decimal printer \<open>append_int\<close> and the guard printer
  \<open>append_condition\<close>, which the linter and the diagram exporter share, and that they
  are inverse to \<open>parse_int\<close> and \<open>parse_condition\<close>. The first argument of a printer
  is the capacity of the string it appends to.
\<close>

section \<open>Printing an integer\<close>

definition digit_char :: "int \<Rightarrow> char" where
  "digit_char d = char_of (char_code (CHR ''0'') + d)"

text \<open>The digit loop: least significant digit first, into a buffer of \<open>room\<close> bytes.\<close>

fun int_digits :: "nat \<Rightarrow> int \<Rightarrow> string" where
  "int_digits 0 magnitude = []"
| "int_digits (Suc room) magnitude =
     digit_char (magnitude mod 10) #
       (let magnitude' = magnitude div 10
        in if magnitude' > 0 \<and> 0 < room then int_digits room magnitude' else [])"

fun append_reversed :: "nat \<Rightarrow> string \<Rightarrow> string \<Rightarrow> string" where
  "append_reversed cap out [] = out"
| "append_reversed cap out (d # digits) =
     append_clipped cap (append_reversed cap out digits) [d]"

definition append_int :: "nat \<Rightarrow> string \<Rightarrow> int \<Rightarrow> string" where
  "append_int cap out v =
     (let out' = (if v < 0 then append_clipped cap out ''-'' else out);
          magnitude = (if v < 0 then - v else v)
      in append_reversed cap out' (int_digits 12 magnitude))"

section \<open>Printing a guard\<close>

definition append_condition :: "nat \<Rightarrow> string \<Rightarrow> condition \<Rightarrow> string" where
  "append_condition cap out c =
     (let out = append_clipped cap out (cond_arg c);
          out = append_clipped cap out '' '';
          out = append_clipped cap out (cstr (op_to_string (cond_op c)));
          out = append_clipped cap out '' ''
      in if cond_numeric c then append_int cap out (cond_number c)
         else append_clipped cap out (cond_literal c))"

section \<open>The texts the printers produce\<close>

definition int_to_text :: "int \<Rightarrow> string" where
  "int_to_text v = (if v < 0 then ''-'' else []) @ rev (int_digits 12 (if v < 0 then - v else v))"

definition condition_to_text :: "condition \<Rightarrow> string" where
  "condition_to_text c =
     cond_arg c @ '' '' @ op_to_string (cond_op c) @ '' '' @
     (if cond_numeric c then int_to_text (cond_number c) else cond_literal c)"

lemma append_reversed_take:
  "append_reversed cap (take cap t) digits = take cap (t @ rev digits)"
  by (induction digits)
     (simp_all only: append_reversed.simps append_clipped_take rev.simps append_assoc append_Nil2)

lemma append_int_take: "append_int cap (take cap t) v = take cap (t @ int_to_text v)"
proof (cases "v < 0")
  case True
  then show ?thesis
    unfolding append_int_def int_to_text_def Let_def
    by (simp only: if_True append_clipped_take append_reversed_take append_assoc)
next
  case False
  then show ?thesis
    unfolding append_int_def int_to_text_def Let_def
    by (simp only: if_False append_reversed_take append_Nil)
qed

lemma cstr_op [simp]: "cstr (op_to_string opr) = op_to_string opr"
  by (cases opr) (simp_all add: cstr_def)

lemma append_condition_take:
  "append_condition cap (take cap t) c = take cap (t @ condition_to_text c)"
  unfolding append_condition_def condition_to_text_def Let_def
  by (cases "cond_numeric c")
     (simp_all only: append_clipped_take append_int_take cstr_op append_assoc if_True if_False)

lemma append_condition_Nil: "append_condition cap [] c = take cap (condition_to_text c)"
  using append_condition_take [of cap "[]" c] by simp

section \<open>Printed integers are read back\<close>

lemma char_code_digit: "0 \<le> d \<Longrightarrow> d \<le> 9 \<Longrightarrow> char_code (digit_char d) = char_code (CHR ''0'') + d"
proof -
  assume d: "0 \<le> d" "d \<le> 9"
  then have "of_char (char_of (48 + d) :: char) = (48 + d) mod 256"
    by (simp add: of_char_of)
  with d show ?thesis
    by (simp add: char_code_def digit_char_def)
qed

lemma is_digit_digit_char: "0 \<le> d \<Longrightarrow> d \<le> 9 \<Longrightarrow> is_digit (digit_char d)"
  by (simp add: is_digit_def char_code_digit) (simp add: char_code_def)

lemma int_digits_digits: "list_all is_digit (int_digits room m)"
proof (induction room m rule: int_digits.induct)
  case (2 room m)
  have "m mod 10 \<le> 9"
    using pos_mod_bound [of 10 m] by linarith
  with 2 show ?case
    by (simp add: is_digit_digit_char Let_def)
qed simp

lemma int_digits_ne: "0 < room \<Longrightarrow> int_digits room m \<noteq> []"
  by (cases room) simp_all

lemma decimal_int_digits:
  "0 \<le> m \<Longrightarrow> m < 10 ^ room \<Longrightarrow> 0 < room \<Longrightarrow> decimal (rev (int_digits room m)) = m"
proof (induction room m rule: int_digits.induct)
  case (2 room m)
  have d: "char_code (digit_char (m mod 10)) - char_code (CHR ''0'') = m mod 10"
    using pos_mod_bound [of 10 m] by (subst char_code_digit) auto
  show ?case
  proof (cases "m div 10 > 0 \<and> 0 < room")
    case True
    moreover from 2(3) have "m div 10 < 10 ^ room"
      by (simp add: div_less_iff_less_mult)
    ultimately have "decimal (rev (int_digits room (m div 10))) = m div 10"
      using 2(1) by simp
    with True d show ?thesis
      by (simp add: decimal_snoc Let_def)
  next
    case False
    then have "m div 10 = 0"
      using 2(2,3) by (cases room) auto
    with False d show ?thesis
      by (auto simp: decimal_def Let_def)
  qed
qed simp

lemma parse_int_int_to_text:
  assumes "- 2147483648 \<le> v" and "v \<le> 2147483647"
  shows "parse_int (int_to_text v) = Some v"
proof -
  define m where "m = (if v < 0 then - v else v)"
  have "decimal (rev (int_digits 12 m)) = m"
    using assms by (intro decimal_int_digits) (auto simp: m_def)
  moreover have "rev (int_digits 12 m) \<noteq> []" "list_all is_digit (rev (int_digits 12 m))"
    using int_digits_ne [of 12 m] int_digits_digits [of 12 m] by (simp_all add: list_all_iff)
  ultimately have "int_text (int_to_text v) v"
    unfolding int_text_def int_to_text_def m_def [symmetric]
    by (intro exI [of _ "rev (int_digits 12 m)"]) (auto simp: m_def)
  with assms show ?thesis
    by (simp add: parse_int_iff)
qed

lemma length_int_digits: "length (int_digits room m) \<le> room"
  by (induction room m rule: int_digits.induct) (auto simp: Let_def)

lemma length_int_to_text: "length (int_to_text v) \<le> 13"
  using length_int_digits [of 12 v] length_int_digits [of 12 "- v"]
  by (simp add: int_to_text_def)

lemma digit_not_space: "is_digit c \<Longrightarrow> \<not> is_space c"
  by (auto simp: is_digit_def is_space_def char_code_def)

lemma trimmed_int_to_text: "trimmed (int_to_text v)" "int_to_text v \<noteq> []"
proof -
  define ds where "ds = rev (int_digits 12 (if v < 0 then - v else v))"
  have "ds \<noteq> []" "list_all is_digit ds"
    using int_digits_ne [of 12] int_digits_digits [of 12] by (auto simp: ds_def list_all_iff)
  then have "is_digit (last ds)" "is_digit (hd ds)"
    by (auto simp: list_all_iff)
  then show "trimmed (int_to_text v)" "int_to_text v \<noteq> []"
    using \<open>ds \<noteq> []\<close> unfolding int_to_text_def ds_def [symmetric] trimmed_def
    by (auto simp: digit_not_space) (simp add: is_space_def)
qed

section \<open>Printed guards are read back\<close>

lemma length_op: "length (op_to_string opr) \<le> 2"
  by (cases opr) simp_all

lemma hd_op: "hd (op_to_string opr @ t) \<noteq> CHR '' ''" "op_to_string opr \<noteq> []"
  by (cases opr; simp)+

lemma length_condition_to_text:
  assumes "condition_wf c"
  shows "length (condition_to_text c) \<le> 2 * kMaxNameLength + 4"
  using assms length_op [of "cond_op c"] length_int_to_text [of "cond_number c"]
  by (auto simp: condition_wf_def condition_to_text_def kMaxNameLength_def split: if_splits)

lemma parse_condition_to_text:
  assumes wf: "condition_wf c"
  shows "parse_condition (condition_to_text c) = (Ok, c)"
proof -
  define lit where "lit = (if cond_numeric c then int_to_text (cond_number c) else cond_literal c)"
  define t where "t = condition_to_text c"
  have lit: "trimmed lit" "lit \<noteq> []"
    using wf trimmed_int_to_text by (auto simp: condition_wf_def lit_def split: if_splits)
  have arg: "cond_arg c \<noteq> []" "trimmed (cond_arg c)" "length (cond_arg c) \<le> kMaxNameLength"
    "\<forall>x \<in> set (cond_arg c @ '' ''). \<not> op_char x"
    using wf by (auto simp: condition_wf_def op_char_def)
  have t: "t = (cond_arg c @ '' '') @ (op_to_string (cond_op c) @ CHR '' '' # lit)"
    by (simp add: t_def condition_to_text_def lit_def)
  have "trimmed t"
    using arg lit by (simp add: t trimmed_def hd_append last_append)
  then have e: "trim t = t" "t \<noteq> []"
    using arg by (simp_all add: trim_trimmed) (simp add: t)
  have p: "find_operator t = Some (length (cond_arg c @ '' ''), length (op_to_string (cond_op c)), cond_op c)"
    unfolding find_operator_def t
    using arg(4) by (subst find_operator_from_skip) (simp_all add: find_operator_print)
  have left: "trim (take (length (cond_arg c @ '' '')) t) = cond_arg c"
    unfolding t append_eq_conv_conj [THEN iffD1, OF refl, THEN conjunct1, symmetric]
    using arg(2) by (simp add: trim_blank_right is_space_def trim_trimmed)
  have right: "trim (drop (length (cond_arg c @ '' '') + length (op_to_string (cond_op c))) t) = lit"
    using lit by (simp add: t trim_blank_left is_space_def trim_trimmed)
  show ?thesis
    unfolding t_def [symmetric] parse_condition_def Let_def e(1) p option.case prod.case left right
    using e(2) lit arg(1,3) wf parse_int_int_to_text [of "cond_number c"]
    by (cases c) (auto simp: text_simps condition_wf_def lit_def empty_condition_def is_ordering_def
      split: if_splits)
qed

text \<open>Every 32-bit signed integer that \<open>append_int\<close> prints, INT32_MIN included, is read
  back by \<open>parse_int\<close>.\<close>

theorem append_int_parse_int:
  "parse_int (append_int kMaxMessageLength [] (sint (w :: 32 word))) = Some (sint w)"
proof -
  have "append_int kMaxMessageLength [] (sint w) = int_to_text (sint w)"
    using append_int_take [of kMaxMessageLength "[]" "sint w"] length_int_to_text [of "sint w"]
    by (simp add: kMaxMessageLength_def)
  moreover have "- 2147483648 \<le> sint w" "sint w \<le> 2147483647"
    using sint_ge [of w] sint_lt [of w] by simp_all
  ultimately show ?thesis
    by (simp add: parse_int_int_to_text)
qed

text \<open>C37: the conditions \<open>parse_condition\<close> can produce are exactly the well-formed ones:
  a trimmed argument name without operator characters, and either a 32-bit number or, for
  \<open>==\<close> and \<open>!=\<close> only, a trimmed word that does not itself read as an integer.\<close>

theorem parse_condition_image: "condition_wf c \<longleftrightarrow> (\<exists>t. parse_condition t = (Ok, c))"
  using parse_condition_wf parse_condition_to_text by blast

text \<open>C36: a guard printed by \<open>append_condition\<close> into a message is never clipped and parses
  back to the same guard.\<close>

theorem append_condition_parse:
  assumes "condition_wf c"
  shows "parse_condition (append_condition kMaxMessageLength [] c) = (Ok, c)"
proof -
  have "append_condition kMaxMessageLength [] c = condition_to_text c"
    using length_condition_to_text [OF assms]
    by (simp add: append_condition_Nil kMaxNameLength_def kMaxMessageLength_def)
  with assms show ?thesis
    by (simp add: parse_condition_to_text)
qed

theorem append_condition_parse_witness:
  "parse_condition (append_condition kMaxMessageLength []
     \<lparr>cond_arg = ''pedal'', cond_op = GreaterEqual, cond_numeric = True, cond_number = - 30,
      cond_literal = []\<rparr>) =
   (Ok, \<lparr>cond_arg = ''pedal'', cond_op = GreaterEqual, cond_numeric = True, cond_number = - 30,
      cond_literal = []\<rparr>)"
  by (rule append_condition_parse)
     (simp add: condition_wf_def kMaxNameLength_def trimmed_def is_space_def op_char_def)

end
