(* ===== verification/ConsolePort.thy ===== *)
theory ConsolePort
  imports Ports InspectText
begin

text \<open>
  include/fms/port/console_port.hpp and src/port/console_port.cpp: a port that reads lines
  from the standard input and writes to the standard output and error. The input stream is
  the text still to be read together with its flags, and \<open>getline\<close>, \<open>clear\<close> and
  \<open>ignore\<close> act on it as the standard says; a bad stream is not modelled. Output is the
  list of the stream insertions made. \<open>isspace\<close> is the one of the C locale. The view of the
  line that the input keeps into the buffer is the text it shows, and \<open>length_\<close> is the
  length of the C string in the buffer.
\<close>

section \<open>The standard streams\<close>

record cin_stream =
  cin_text :: string
  cin_eof :: bool
  cin_fail :: bool
  cin_gcount :: nat

definition line_of :: "string \<Rightarrow> string" where
  "line_of t = takeWhile (\<lambda>c. c \<noteq> newline) t"

text \<open>\<open>cin.getline(buffer, n)\<close>: the characters stored and the stream afterwards.\<close>

definition cin_getline :: "nat \<Rightarrow> cin_stream \<Rightarrow> string \<times> cin_stream" where
  "cin_getline n c =
     (if cin_eof c \<or> cin_fail c then ([], c\<lparr>cin_fail := True, cin_gcount := 0\<rparr>)
      else
        let t = cin_text c; l = line_of t
        in if n \<le> length l then
             (take (n - 1) l, c\<lparr>cin_text := drop (n - 1) t, cin_fail := True, cin_gcount := n - 1\<rparr>)
           else if l = t then
             (l, c\<lparr>cin_text := [], cin_eof := True, cin_fail := (l = []), cin_gcount := length l\<rparr>)
           else
             (l, c\<lparr>cin_text := drop (length l + 1) t, cin_gcount := length l + 1\<rparr>))"

definition cin_clear :: "cin_stream \<Rightarrow> cin_stream" where
  "cin_clear c = c\<lparr>cin_eof := False, cin_fail := False\<rparr>"

text \<open>\<open>cin.ignore(max, newline)\<close> on a stream that is good.\<close>

definition cin_ignore_line :: "cin_stream \<Rightarrow> cin_stream" where
  "cin_ignore_line c =
     (let t = cin_text c; l = line_of t
      in if l = t then c\<lparr>cin_text := [], cin_eof := True, cin_gcount := length l\<rparr>
         else c\<lparr>cin_text := drop (length l + 1) t, cin_gcount := length l + 1\<rparr>)"

datatype console_output =
    CoutInsert string
  | CoutWrite string
  | CoutFlush
  | CerrInsert string
  | CerrWrite string

definition is_c_space :: "char \<Rightarrow> bool" where
  "is_c_space c \<longleftrightarrow> c = CHR '' '' \<or> CHR 0x09 \<le> c \<and> c \<le> CHR 0x0D"

section \<open>State and operations\<close>

record console_port =
  con_prompt :: bool
  con_buffer :: string
  con_channels :: "string list"
  con_in :: cin_stream
  con_out :: "console_output list"

definition new_console_port :: "bool \<Rightarrow> string \<Rightarrow> console_port" where
  "new_console_port prompt stdin_text = \<lparr>con_prompt = prompt, con_buffer = [], con_channels = [],
     con_in = \<lparr>cin_text = stdin_text, cin_eof = False, cin_fail = False, cin_gcount = 0\<rparr>,
     con_out = []\<rparr>"

text \<open>\<open>sizeof(buffer_)\<close>.\<close>

definition buffer_size :: nat where
  "buffer_size = kMaxChannelLength + kMaxMessageLength + 2"

definition emit :: "console_output list \<Rightarrow> console_port \<Rightarrow> console_port" where
  "emit os p = p\<lparr>con_out := con_out p @ os\<rparr>"

definition console_open :: "console_port \<Rightarrow> status \<times> console_port" where
  "console_open p = (Ok, p)"

definition console_close :: "console_port \<Rightarrow> status \<times> console_port" where
  "console_close p = (Ok, emit [CoutFlush] p)"

definition console_listen :: "string \<Rightarrow> console_port \<Rightarrow> status \<times> console_port" where
  "console_listen channel p =
     (if kMaxTriggers \<le> length (con_channels p) then (CapacityExceeded, p)
      else
        let (fits, entry) = assign_checked kMaxChannelLength [] channel
        in if \<not> fits then (ChannelTooLong, p)
           else (Ok, p\<lparr>con_channels := con_channels p @ [entry]\<rparr>))"

definition print_help :: "console_port \<Rightarrow> console_port" where
  "print_help p =
     emit ([CoutInsert ''channels ('', CoutInsert (int_to_text (int (length (con_channels p)))),
            CoutInsert (''):'' @ [newline])] @
           concat (map (\<lambda>c. [CoutInsert ''  '', CoutInsert (cstr c), CoutInsert [newline]]) (con_channels p)) @
           [CoutInsert (''  quit'' @ [newline])]) p"

definition trim_trailing :: "string \<Rightarrow> string" where
  "trim_trailing t = rev (dropWhile is_c_space (rev t))"

text \<open>
  One iteration of the loop of \<open>receive\<close>: \<open>Inl\<close> returns, \<open>Inr\<close> continues with the
  port as the iteration left it.
\<close>

definition console_step ::
  "port_input \<Rightarrow> console_port \<Rightarrow> (status \<times> port_input \<times> console_port) + console_port" where
  "console_step input p =
     (let p = (if con_prompt p then emit [CoutInsert ''> ''] p else p);
          (stored, cin) = cin_getline buffer_size (con_in p);
          p = p\<lparr>con_in := cin, con_buffer := cstr stored\<rparr>
      in if cin_eof cin \<and> cin_gcount cin = 0 then
           Inl (EndOfInput, input, if con_prompt p then emit [CoutInsert [newline]] p else p)
         else if cin_fail cin \<and> \<not> cin_eof cin then
           Inr (emit [CerrInsert ''error: input longer than '',
                      CerrInsert (int_to_text (int (buffer_size - 1))),
                      CerrInsert ('' characters'' @ [newline])]
                  (p\<lparr>con_in := cin_ignore_line (cin_clear cin)\<rparr>))
         else
           let p = p\<lparr>con_buffer := trim_trailing (con_buffer p)\<rparr>;
               t = dropWhile is_c_space (con_buffer p)
           in if t = [] then Inr p
              else if t = ''quit'' \<or> t = ''exit'' then Inl (EndOfInput, input, p)
              else if t = ''help'' \<or> t = ''?'' then Inr (print_help p)
              else
                let channel = takeWhile (\<lambda>c. \<not> is_c_space c) t;
                    arguments = dropWhile is_c_space (drop (length channel) t)
                in Inl (Ok, \<lparr>in_channel = channel, in_arguments = arguments\<rparr>, p))"

definition input_left :: "console_port \<Rightarrow> nat" where
  "input_left p = 2 * length (cin_text (con_in p)) + (if cin_eof (con_in p) then 0 else 1)"

lemma in_emit [simp]:
  "con_in (emit os p) = con_in p" "con_prompt (emit os p) = con_prompt p"
  "con_channels (emit os p) = con_channels p" "con_buffer (emit os p) = con_buffer p"
  "con_in (print_help p) = con_in p" "con_channels (print_help p) = con_channels p"
  by (simp_all add: emit_def print_help_def)

lemma line_of_all: "line_of t = t \<or> length (line_of t) < length t"
  by (metis le_neq_implies_less length_takeWhile_le line_of_def takeWhile_eq_take take_all order_refl)

lemma ignore_line_less:
  "\<not> cin_eof c \<Longrightarrow>
    2 * length (cin_text (cin_ignore_line c)) + (if cin_eof (cin_ignore_line c) then 0 else 1)
      < 2 * length (cin_text c) + (1::nat)"
  using line_of_all [of "cin_text c"] by (auto simp: cin_ignore_line_def Let_def)

lemma getline_left:
  assumes "(stored, c') = cin_getline buffer_size c" and "\<not> (cin_eof c' \<and> cin_gcount c' = 0)"
  shows "cin_fail c' \<and> \<not> cin_eof c' \<Longrightarrow> length (cin_text c') \<le> length (cin_text c)" "\<not> cin_eof c"
    "\<not> (cin_fail c' \<and> \<not> cin_eof c') \<Longrightarrow>
      2 * length (cin_text c') + (if cin_eof c' then 0 else 1) < 2 * length (cin_text c) + (1::nat)"
  using assms line_of_all [of "cin_text c"]
  by (auto simp: cin_getline_def Let_def split: if_splits)

lemma console_step_less: "console_step input p = Inr p' \<Longrightarrow> input_left p' < input_left p"
proof -
  assume step: "console_step input p = Inr p'"
  obtain stored c where g: "(stored, c) = cin_getline buffer_size (con_in p)"
    by (metis surj_pair)
  have ne: "\<not> (cin_eof c \<and> cin_gcount c = 0)"
    using step by (auto simp: console_step_def g [symmetric] Let_def split: if_splits)
  show "input_left p' < input_left p"
  proof (cases "cin_fail c \<and> \<not> cin_eof c")
    case True
    then have "con_in p' = cin_ignore_line (cin_clear c)"
      using step ne by (auto simp: console_step_def g [symmetric] Let_def split: if_splits)
    with ignore_line_less [of "cin_clear c"] getline_left [OF g ne] True show ?thesis
      by (simp add: input_left_def cin_clear_def)
  next
    case False
    then have "con_in p' = c"
      using step ne by (auto simp: console_step_def g [symmetric] Let_def split: if_splits)
    with getline_left [OF g ne] False show ?thesis
      by (simp add: input_left_def)
  qed
qed

function console_receive ::
  "port_input \<Rightarrow> u32 \<Rightarrow> console_port \<Rightarrow> status \<times> port_input \<times> console_port" where
  "console_receive input timeout_ms p =
     (case console_step input p of
        Inl result \<Rightarrow> result
      | Inr p' \<Rightarrow> console_receive input timeout_ms p')"
  by pat_completeness auto
termination
  by (relation "measure (\<lambda>(i, ms, p). input_left p)") (auto simp: console_step_less)

declare console_receive.simps [simp del]

definition console_publish_state :: "string \<Rightarrow> console_port \<Rightarrow> status \<times> console_port" where
  "console_publish_state state p =
     (Ok, emit [CoutInsert ''state: '', CoutWrite state, CoutInsert [newline]] p)"

definition console_publish_error :: "string \<Rightarrow> console_port \<Rightarrow> status \<times> console_port" where
  "console_publish_error message p =
     (Ok, emit [CoutFlush, CerrInsert ''error: '', CerrWrite message, CerrInsert [newline]] p)"

definition console_ops :: "console_port port_ops" where
  "console_ops = \<lparr>po_configure = iport_configure, po_open = console_open,
     po_close = console_close, po_listen = console_listen, po_receive = console_receive,
     po_publish_state = console_publish_state, po_publish_error = console_publish_error\<rparr>"

section \<open>The commands a text holds\<close>

datatype line_meaning = BlankLine | HelpLine | QuitLine | CommandLine string string

definition meaning_of :: "string \<Rightarrow> line_meaning" where
  "meaning_of l =
     (let t = dropWhile is_c_space (trim_trailing (cstr l))
      in if t = [] then BlankLine
         else if t \<in> {''quit'', ''exit''} then QuitLine
         else if t \<in> {''help'', ''?''} then HelpLine
         else CommandLine (takeWhile (\<lambda>c. \<not> is_c_space c) t)
                (dropWhile is_c_space (dropWhile (\<lambda>c. \<not> is_c_space c) t)))"

function console_commands :: "string \<Rightarrow> (string \<times> string) list" where
  "console_commands t =
     (if t = [] then []
      else
        let l = line_of t; rest = drop (length l + 1) t
        in if buffer_size \<le> length l then console_commands rest
           else case meaning_of l of
                  BlankLine \<Rightarrow> console_commands rest
                | HelpLine \<Rightarrow> console_commands rest
                | QuitLine \<Rightarrow> []
                | CommandLine c a \<Rightarrow> (c, a) # console_commands rest)"
  by pat_completeness auto
termination
  by (relation "measure length") auto

declare console_commands.simps [simp del]

lemma console_commands_Nil [simp]: "console_commands [] = []"
  by (simp add: console_commands.simps)

definition console_pending :: "console_port \<Rightarrow> (string \<times> string) list" where
  "console_pending p = (if cin_eof (con_in p) then [] else console_commands (cin_text (con_in p)))"

definition console_usable :: "console_port \<Rightarrow> bool" where
  "console_usable p \<longleftrightarrow> (cin_fail (con_in p) \<longrightarrow> cin_eof (con_in p))"

definition console_shown :: "console_port \<Rightarrow> string option" where
  "console_shown p = fold (\<lambda>w s. case w of CoutWrite t \<Rightarrow> Some t | _ \<Rightarrow> s) (con_out p) None"

section \<open>The port meets the contract\<close>

lemma takeWhile_drop: "k \<le> length (takeWhile P xs) \<Longrightarrow> takeWhile P (drop k xs) = drop k (takeWhile P xs)"
  by (induction xs arbitrary: k) (auto simp: drop_Cons' split: if_splits)

definition stream_after :: "string \<Rightarrow> cin_stream \<Rightarrow> bool" where
  "stream_after t c \<longleftrightarrow> \<not> cin_fail c \<and>
     (if line_of t = t then cin_eof c \<and> cin_text c = []
      else \<not> cin_eof c \<and> cin_text c = drop (length (line_of t) + 1) t)"

lemma pending_after: "stream_after t (con_in p) \<Longrightarrow> console_pending p = console_commands (drop (length (line_of t) + 1) t)"
  by (auto simp: stream_after_def console_pending_def split: if_splits)

lemma getline_good:
  assumes "\<not> cin_eof c" "\<not> cin_fail c" "cin_text c \<noteq> []"
  shows "length (line_of (cin_text c)) < buffer_size \<Longrightarrow>
      \<exists>c'. cin_getline buffer_size c = (line_of (cin_text c), c') \<and> stream_after (cin_text c) c' \<and> cin_gcount c' > 0"
    "buffer_size \<le> length (line_of (cin_text c)) \<Longrightarrow>
      \<exists>st c'. cin_getline buffer_size c = (st, c') \<and> cin_fail c' \<and> \<not> cin_eof c' \<and>
        stream_after (cin_text c) (cin_ignore_line (cin_clear c'))"
proof -
  let ?t = "cin_text c" and ?l = "line_of (cin_text c)"
  assume "length ?l < buffer_size"
  then show "\<exists>c'. cin_getline buffer_size c = (?l, c') \<and> stream_after ?t c' \<and> cin_gcount c' > 0"
    using assms by (auto simp: cin_getline_def stream_after_def Let_def)
next
  let ?t = "cin_text c" and ?l = "line_of (cin_text c)"
  assume long: "buffer_size \<le> length ?l"
  let ?k = "buffer_size - 1"
  have k: "?k \<le> length ?l"
    using long by simp
  have l: "line_of (drop ?k ?t) = drop ?k ?l"
    using k unfolding line_of_def by (rule takeWhile_drop)
  have "drop ?k ?l = drop ?k ?t \<longleftrightarrow> ?l = ?t"
  proof
    assume "drop ?k ?l = drop ?k ?t"
    moreover have "take ?k ?l = take ?k ?t"
      using k by (metis append_take_drop_id line_of_def takeWhile_dropWhile_id take_append diff_is_0_eq take0 append_Nil2)
    ultimately show "?l = ?t"
      by (metis append_take_drop_id)
  qed simp
  with l long assms have "stream_after ?t (cin_ignore_line (cin_clear (snd (cin_getline buffer_size c))))"
    by (auto simp: cin_getline_def stream_after_def cin_ignore_line_def cin_clear_def Let_def)
  moreover have "cin_fail (snd (cin_getline buffer_size c))" "\<not> cin_eof (snd (cin_getline buffer_size c))"
    using long assms by (auto simp: cin_getline_def Let_def)
  ultimately show "\<exists>st c'. cin_getline buffer_size c = (st, c') \<and> cin_fail c' \<and> \<not> cin_eof c' \<and>
        stream_after ?t (cin_ignore_line (cin_clear c'))"
    by (metis surj_pair snd_conv)
qed

fun not_state :: "console_output \<Rightarrow> bool" where
  "not_state (CoutWrite t) = False"
| "not_state _ = True"

lemma shown_emit: "list_all not_state os \<Longrightarrow> console_shown (emit os p) = console_shown p"
proof -
  assume os: "list_all not_state os"
  have "fold (\<lambda>w s. case w of CoutWrite t \<Rightarrow> Some t | _ \<Rightarrow> s) os s = s" for s
    using os by (induction os arbitrary: s) (auto elim: not_state.elims)
  then show ?thesis
    by (simp add: console_shown_def emit_def)
qed

lemma shown_print_help: "console_shown (print_help p) = console_shown p"
  unfolding print_help_def by (rule shown_emit) (auto simp: list_all_iff)

lemma shown_update [simp]:
  "console_shown (p\<lparr>con_in := c\<rparr>) = console_shown p" "console_shown (p\<lparr>con_buffer := b\<rparr>) = console_shown p"
  "console_shown (p\<lparr>con_channels := cs\<rparr>) = console_shown p"
  by (simp_all add: console_shown_def)

lemma console_step_shown:
  "(case console_step input p of Inl (st, i, p') \<Rightarrow> console_shown p' | Inr p' \<Rightarrow> console_shown p') = console_shown p"
  by (auto simp: console_step_def shown_emit shown_print_help Let_def split: prod.split)

lemma console_receive_shown: "console_shown (snd (snd (console_receive input ms p))) = console_shown p"
proof (induction input ms p rule: console_receive.induct)
  case (1 input ms p)
  then show ?case
    using console_step_shown [of input p]
    by (subst console_receive.simps) (auto split: sum.splits prod.splits)
qed

text \<open>One iteration on a good stream, by the meaning of the line at its front.\<close>

lemma console_step_good:
  fixes p :: console_port
  defines "t \<equiv> cin_text (con_in p)"
  assumes good: "\<not> cin_eof (con_in p)" "\<not> cin_fail (con_in p)"
  shows "t = [] \<Longrightarrow> \<exists>p'. console_step input p = Inl (EndOfInput, input, p') \<and> console_usable p'"
    and "t \<noteq> [] \<Longrightarrow> buffer_size \<le> length (line_of t) \<Longrightarrow>
      \<exists>p'. console_step input p = Inr p' \<and> stream_after t (con_in p')"
    and "t \<noteq> [] \<Longrightarrow> length (line_of t) < buffer_size \<Longrightarrow>
      \<exists>p'. stream_after t (con_in p') \<and> console_step input p =
        (case meaning_of (line_of t) of
           BlankLine \<Rightarrow> Inr p'
         | HelpLine \<Rightarrow> Inr p'
         | QuitLine \<Rightarrow> Inl (EndOfInput, input, p')
         | CommandLine c a \<Rightarrow> Inl (Ok, \<lparr>in_channel = c, in_arguments = a\<rparr>, p'))"
proof -
  assume "t = []"
  then show "\<exists>p'. console_step input p = Inl (EndOfInput, input, p') \<and> console_usable p'"
    using good by (auto simp: t_def console_step_def cin_getline_def line_of_def buffer_size_def
        console_usable_def Let_def)
next
  assume "t \<noteq> []" and long: "buffer_size \<le> length (line_of t)"
  with getline_good(2) [OF good] obtain st c' where "cin_getline buffer_size (con_in p) = (st, c')"
    "cin_fail c'" "\<not> cin_eof c'" "stream_after t (cin_ignore_line (cin_clear c'))"
    by (auto simp: t_def)
  then show "\<exists>p'. console_step input p = Inr p' \<and> stream_after t (con_in p')"
    by (auto simp: console_step_def Let_def)
next
  assume "t \<noteq> []" and short: "length (line_of t) < buffer_size"
  with getline_good(1) [OF good] obtain c' where g: "cin_getline buffer_size (con_in p) = (line_of t, c')"
    "stream_after t c'" "0 < cin_gcount c'"
    by (auto simp: t_def)
  from g(2) have "\<not> cin_fail c'"
    by (simp add: stream_after_def)
  moreover have "dropWhile P xs = drop (length (takeWhile P xs)) xs" for P and xs :: string
    by (rule dropWhile_eq_drop)
  ultimately show "\<exists>p'. stream_after t (con_in p') \<and> console_step input p =
        (case meaning_of (line_of t) of
           BlankLine \<Rightarrow> Inr p'
         | HelpLine \<Rightarrow> Inr p'
         | QuitLine \<Rightarrow> Inl (EndOfInput, input, p')
         | CommandLine c a \<Rightarrow> Inl (Ok, \<lparr>in_channel = c, in_arguments = a\<rparr>, p'))"
    using g by (auto simp: console_step_def meaning_of_def Let_def dropWhile_eq_drop [of _ "drop _ _"])
qed

lemma usable_after: "stream_after t (con_in p) \<Longrightarrow> console_usable p"
  by (simp add: stream_after_def console_usable_def)

lemma console_receive_ended:
  "cin_eof (con_in p) \<Longrightarrow>
    \<exists>p'. console_receive input ms p = (EndOfInput, input, p') \<and> console_usable p'"
  by (subst console_receive.simps)
    (auto simp: console_step_def cin_getline_def console_usable_def Let_def)

lemma console_receive_spec:
  assumes "console_usable p"
  shows "\<exists>p'. console_usable p' \<and> console_receive input ms p =
      (case console_pending p of
         [] \<Rightarrow> (EndOfInput, input, p')
       | (c, a) # rest \<Rightarrow> (Ok, \<lparr>in_channel = c, in_arguments = a\<rparr>, p')) \<and>
    (console_pending p \<noteq> [] \<longrightarrow> console_pending p' = tl (console_pending p))"
  using assms
proof (induction input ms p rule: console_receive.induct)
  case (1 input ms p)
  let ?t = "cin_text (con_in p)" and ?l = "line_of (cin_text (con_in p))"
  show ?case
  proof (cases "cin_eof (con_in p)")
    case True
    with console_receive_ended [of p input ms] show ?thesis
      by (auto simp: console_pending_def)
  next
    case False
    with 1(2) have good: "\<not> cin_eof (con_in p)" "\<not> cin_fail (con_in p)"
      by (auto simp: console_usable_def)
    have goes_on: ?thesis
      if "console_step input p = Inr p'" "stream_after ?t (con_in p')"
        "console_commands ?t = console_commands (drop (length ?l + 1) ?t)" for p'
    proof -
      have "console_pending p = console_pending p'"
        using that(3) pending_after [OF that(2)] False by (simp add: console_pending_def)
      then show ?thesis
        using 1(1) [OF that(1) usable_after [OF that(2)]] that(1)
        by (simp add: console_receive.simps [of input ms p])
    qed
    consider "?t = []" | "?t \<noteq> []" "buffer_size \<le> length ?l" | "?t \<noteq> []" "length ?l < buffer_size"
      by linarith
    then show ?thesis
    proof cases
      case 1
      with console_step_good(1) [OF good, of input] False show ?thesis
        by (auto simp: console_receive.simps [of input ms p] console_pending_def)
    next
      case 2
      with console_step_good(2) [OF good, of input] goes_on show ?thesis
        by (auto simp: console_commands.simps [of ?t] Let_def)
    next
      case 3
      with console_step_good(3) [OF good, of input] obtain p' where
        p': "stream_after ?t (con_in p')" and step: "console_step input p =
        (case meaning_of ?l of BlankLine \<Rightarrow> Inr p' | HelpLine \<Rightarrow> Inr p'
         | QuitLine \<Rightarrow> Inl (EndOfInput, input, p')
         | CommandLine c a \<Rightarrow> Inl (Ok, \<lparr>in_channel = c, in_arguments = a\<rparr>, p'))"
        by blast
      from 3 False have cmds: "console_pending p = (case meaning_of ?l of
          BlankLine \<Rightarrow> console_pending p' | HelpLine \<Rightarrow> console_pending p' | QuitLine \<Rightarrow> []
        | CommandLine c a \<Rightarrow> (c, a) # console_pending p')"
        by (simp add: pending_after [OF p'] console_pending_def [of p] console_commands.simps [of ?t]
            Let_def split: line_meaning.split)
      show ?thesis
        using step cmds usable_after [OF p'] 1(1) [OF _ usable_after [OF p']]
        by (cases "meaning_of ?l") (auto simp: console_receive.simps [of input ms p])
    qed
  qed
qed

lemmas console_defs =
  iport_configure_def console_open_def console_close_def console_listen_def
  console_publish_state_def console_publish_error_def

interpretation con: port_contract console_ops console_usable console_usable console_shown console_pending
proof (unfold_locales, goal_cases)
  case (7 p i ms)
  with console_receive_spec [OF 7, of i ms] show ?case
    by (cases "console_pending p") (auto simp: console_ops_def)
next
  case (8 i ms p)
  then show ?case
    by (simp add: console_ops_def console_receive_shown)
next
  case (9 p c a rest i ms)
  with console_receive_spec [OF 9(1), of i ms] show ?case
    by (auto simp: console_ops_def)
next
  case (10 p i ms)
  with console_receive_spec [OF 10(1), of i ms] show ?case
    by (auto simp: console_ops_def)
next
  case (12 p s)
  then show ?case
    by (simp add: console_ops_def console_defs console_shown_def emit_def)
qed (auto simp: console_ops_def console_defs console_usable_def console_pending_def shown_emit
    text_simps Let_def)

section \<open>Properties\<close>

lemma set_dropWhile_subset: "set (dropWhile P xs) \<subseteq> set xs"
  by (metis set_dropWhileD subsetI)

lemma last_trim_trailing: "trim_trailing t \<noteq> [] \<Longrightarrow> \<not> is_c_space (last (trim_trailing t))"
  unfolding trim_trailing_def by (metis hd_dropWhile last_rev rev_is_Nil_conv)

lemma length_trim_trailing: "length (trim_trailing t) \<le> length t"
  by (metis trim_trailing_def length_dropWhile_le length_rev)

lemma last_dropWhile: "dropWhile P xs \<noteq> [] \<Longrightarrow> last (dropWhile P xs) = last xs"
  by (metis append_Nil2 dropWhile_eq_Nil_conv last_appendR takeWhile_dropWhile_id)

lemma meaning_command:
  assumes "meaning_of l = CommandLine c a"
  shows "c \<noteq> []" "\<forall>x \<in> set c. \<not> is_c_space x" "length c + length a \<le> length l"
    "a \<noteq> [] \<Longrightarrow> \<not> is_c_space (hd a) \<and> \<not> is_c_space (last a)"
proof -
  let ?u = "trim_trailing (cstr l)"
  let ?t = "dropWhile is_c_space ?u"
  have t: "?t \<noteq> []" "c = takeWhile (\<lambda>x. \<not> is_c_space x) ?t"
    "a = dropWhile is_c_space (dropWhile (\<lambda>x. \<not> is_c_space x) ?t)"
    using assms by (auto simp: meaning_of_def Let_def split: if_splits)
  then show "c \<noteq> []"
    using hd_dropWhile [of is_c_space ?u] by (cases ?t) auto
  show "\<forall>x \<in> set c. \<not> is_c_space x"
    using t(2) by (auto dest: set_takeWhileD)
  have "length c + length a \<le> length ?t"
    using length_dropWhile_le [of is_c_space "dropWhile (\<lambda>x. \<not> is_c_space x) ?t"]
      arg_cong [OF takeWhile_dropWhile_id [of "\<lambda>x. \<not> is_c_space x" ?t], of length]
    unfolding t(2,3) length_append by linarith
  also have "\<dots> \<le> length l"
    using length_dropWhile_le [of is_c_space ?u] length_trim_trailing [of "cstr l"] length_cstr_le [of l]
    by linarith
  finally show "length c + length a \<le> length l" .
  assume a: "a \<noteq> []"
  then have "last a = last ?u"
    unfolding t(3) by (metis dropWhile.simps(1) last_dropWhile)
  moreover have "?u \<noteq> []"
    using t(1) by auto
  ultimately show "\<not> is_c_space (hd a) \<and> \<not> is_c_space (last a)"
    using a last_trim_trailing [of "cstr l"] hd_dropWhile [of is_c_space] unfolding t(3) by metis
qed

lemma console_commands_line:
  "(c, a) \<in> set (console_commands t) \<Longrightarrow>
    \<exists>l. meaning_of l = CommandLine c a \<and> length l < buffer_size"
proof (induction t rule: length_induct)
  case (1 t)
  let ?rest = "drop (length (line_of t) + 1) t"
  have ne: "t \<noteq> []"
    using 1(2) by auto
  then have "length ?rest < length t"
    by (cases t) auto
  with 1(1) have IH: "(c, a) \<in> set (console_commands ?rest) \<Longrightarrow> ?case"
    by blast
  show ?case
  proof (cases "buffer_size \<le> length (line_of t)")
    case True
    with ne 1(2) IH show ?thesis
      by (simp add: console_commands.simps [of t])
  next
    case False
    with ne 1(2) IH show ?thesis
      by (cases "meaning_of (line_of t)") (auto simp: console_commands.simps [of t] not_le)
  qed
qed

text \<open>C24: whatever the standard input holds, the console port delivers exactly the commands
  on its lines, in order: blank and help lines are skipped, a line that does not fit the
  buffer is dropped as a whole and never delivered in part, \<open>quit\<close> or \<open>exit\<close> and the end of
  the text end the input, and every call returns.\<close>

theorem console_delivers:
  "map (\<lambda>i. (in_channel i, in_arguments i))
      (fst (receive_n console_ops (length (console_commands t))
        (snd (console_open (new_console_port prompt t))))) = console_commands t \<and>
    fst (console_receive input ms (snd (receive_n console_ops (length (console_commands t))
        (snd (console_open (new_console_port prompt t)))))) = EndOfInput"
proof -
  let ?p = "snd (console_open (new_console_port prompt t))"
  have p: "console_usable ?p" "console_pending ?p = console_commands t"
    by (simp_all add: console_open_def new_console_port_def console_usable_def console_pending_def)
  note all = con.receive_all [OF p(1), unfolded p(2)]
  with console_receive_spec [of "snd (receive_n console_ops (length (console_commands t)) ?p)" input ms]
  show ?thesis
    by auto
qed

text \<open>A command the console port finds on its input has a channel that is not empty and
  free of white space, arguments without white space around them, and came from one line that
  fits the buffer.\<close>

theorem console_command_shape:
  assumes "(c, a) \<in> set (console_commands t)"
  shows "c \<noteq> [] \<and> list_all (\<lambda>x. \<not> is_c_space x) c \<and> length c + length a < buffer_size \<and>
    \<not> (a \<noteq> [] \<and> (is_c_space (hd a) \<or> is_c_space (last a)))"
proof -
  obtain l where l: "meaning_of l = CommandLine c a" "length l < buffer_size"
    using console_commands_line [OF assms] by blast
  with meaning_command [OF l(1)] show ?thesis
    by (auto simp: list_all_iff)
qed

theorem console_command_shape_witness:
  "''go'' \<noteq> [] \<and> list_all (\<lambda>x. \<not> is_c_space x) ''go'' \<and> length ''go'' + length ''k=1'' < buffer_size \<and>
    \<not> (''k=1'' \<noteq> [] \<and> (is_c_space (hd ''k=1'') \<or> is_c_space (last ''k=1'')))"
proof (rule console_command_shape [of _ _ "''  go k=1 ''"])
  show "(''go'', ''k=1'') \<in> set (console_commands ''  go k=1 '')"
    by (simp add: console_commands.simps [of "_ # _"] line_of_def newline_def buffer_size_def capacity_defs
        meaning_of_def trim_trailing_def is_c_space_def cstr_def)
qed

end
