(* ===== verification/RuntimeLoop.thy ===== *)
theory RuntimeLoop
  imports StateMachine MemoryPort ConsolePort
begin

text \<open>
  include/fms/runtime.hpp and src/runtime.cpp: the runtime, which binds a machine to a port
  and dispatches what the port receives. The machine and the port belong to the caller, who
  may use them between calls, so they stand beside the runtime in the state of the system;
  the pointers \<open>machine_\<close> and \<open>port_\<close> are flags that say whether they were bound. The
  trace hook is a flag, and the events it was called with are a list. Where the source
  follows \<open>model_\<close> without a test, the runtime has been started, which sets it.
\<close>

section \<open>State\<close>

record runtime =
  rt_model :: "model option"
  rt_setup :: "deployment option"
  rt_machine_bound :: bool
  rt_port_bound :: bool
  rt_trace :: bool
  rt_scratch :: string
  rt_args :: args
  inputs_received :: u32
  inputs_unrouted :: u32
  inputs_rejected :: u32
  rt_started :: bool

definition new_runtime :: runtime where
  "new_runtime = \<lparr>rt_model = None, rt_setup = None, rt_machine_bound = False,
     rt_port_bound = False, rt_trace = False, rt_scratch = [], rt_args = args_clear,
     inputs_received = 0, inputs_unrouted = 0, inputs_rejected = 0, rt_started = False\<rparr>"

record 'p system =
  the_runtime :: runtime
  the_machine :: state_machine
  the_port :: 'p
  traced :: "transition_event list"

abbreviation set_port :: "'p \<Rightarrow> 'p system \<Rightarrow> 'p system" where
  "set_port p s \<equiv> s\<lparr>the_port := p\<rparr>"

abbreviation on_runtime :: "(runtime \<Rightarrow> runtime) \<Rightarrow> 'p system \<Rightarrow> 'p system" where
  "on_runtime f s \<equiv> s\<lparr>the_runtime := f (the_runtime s)\<rparr>"

section \<open>Reports\<close>

definition rt_publish_state :: "'p port_ops \<Rightarrow> model \<Rightarrow> state_id \<Rightarrow> 'p system \<Rightarrow> 'p system" where
  "rt_publish_state ops m state s =
     (case model_state m state of
        None \<Rightarrow> s
      | Some node \<Rightarrow> set_port (snd (po_publish_state ops (node_name node) (the_port s))) s)"

definition rt_publish_rejection ::
  "'p port_ops \<Rightarrow> model \<Rightarrow> transition_event \<Rightarrow> args \<Rightarrow> 'p system \<Rightarrow> 'p system" where
  "rt_publish_rejection ops m event a s =
     (let app = append_clipped kMaxMessageLength;
          scratch = app [] (cstr ''rejected: '');
          scratch = app scratch (cstr (trigger_name m (ev_trigger event)));
          scratch = app scratch (cstr '' in state '');
          scratch = app scratch (cstr (state_name m (ev_from event)));
          scratch = (if ev_guard_rejected event then
                       let scratch = app scratch (cstr '': no guard matched ('');
                           scratch = app scratch (if args_empty a then cstr ''no arguments'' else args_raw a)
                       in app scratch (cstr '')'')
                     else scratch);
          s = on_runtime (rt_scratch_update (\<lambda>_. scratch)) s
      in set_port (snd (po_publish_error ops scratch (the_port s))) s)"

definition rt_publish_bad_arguments ::
  "'p port_ops \<Rightarrow> model \<Rightarrow> trigger_id \<Rightarrow> status \<Rightarrow> 'p system \<Rightarrow> 'p system" where
  "rt_publish_bad_arguments ops m trigger reason s =
     (let app = append_clipped kMaxMessageLength;
          scratch = app [] (cstr ''bad arguments for '');
          scratch = app scratch (cstr (trigger_name m trigger));
          scratch = app scratch (cstr '': '');
          scratch = app scratch (cstr (status_to_string reason));
          s = on_runtime (rt_scratch_update (\<lambda>_. scratch)) s
      in set_port (snd (po_publish_error ops scratch (the_port s))) s)"

definition rt_publish_unknown :: "'p port_ops \<Rightarrow> string \<Rightarrow> 'p system \<Rightarrow> 'p system" where
  "rt_publish_unknown ops channel s =
     (let app = append_clipped kMaxMessageLength;
          scratch = app [] (cstr ''unknown channel: '');
          scratch = app scratch channel;
          s = on_runtime (rt_scratch_update (\<lambda>_. scratch)) s
      in set_port (snd (po_publish_error ops scratch (the_port s))) s)"

section \<open>Operations\<close>

definition rt_init :: "'p system \<Rightarrow> status \<times> 'p system" where
  "rt_init s =
     (if rt_started (the_runtime s) then (AlreadyInitialised, s)
      else if sm_model (the_machine s) = None \<or> sm_setup (the_machine s) = None
        then (NotInitialised, s)
      else (Ok, on_runtime (\<lambda>r. r\<lparr>rt_model := sm_model (the_machine s),
              rt_setup := sm_setup (the_machine s), rt_machine_bound := True,
              rt_port_bound := True\<rparr>) s))"

definition rt_set_trace :: "bool \<Rightarrow> 'p system \<Rightarrow> 'p system" where
  "rt_set_trace hook s = on_runtime (rt_trace_update (\<lambda>_. hook)) s"

text \<open>The loop that announces the channels.\<close>

fun listen_all :: "'p port_ops \<Rightarrow> string list \<Rightarrow> 'p \<Rightarrow> status \<times> 'p" where
  "listen_all ops [] p = (Ok, p)"
| "listen_all ops (c # cs) p =
     (let (listening, p) = po_listen ops c p
      in if \<not> is_ok listening then (listening, p) else listen_all ops cs p)"

definition rt_start :: "'p port_ops \<Rightarrow> 'p system \<Rightarrow> status \<times> 'p system" where
  "rt_start ops s =
     (case (rt_model (the_runtime s), rt_setup (the_runtime s)) of
        (Some m, Some st) \<Rightarrow>
          if \<not> rt_machine_bound (the_runtime s) \<or> \<not> rt_port_bound (the_runtime s) then (NotInitialised, s)
          else if rt_started (the_runtime s) then (AlreadyInitialised, s)
          else
            let (configured, p) = po_configure ops (setup_io st) (the_port s)
            in if \<not> is_ok configured then (configured, set_port p s)
               else
                 let (opened, p) = po_open ops p
                 in if \<not> is_ok opened then (opened, set_port p s)
                    else
                      let (listening, p) = listen_all ops (map fst (channel_index m)) p
                      in if \<not> is_ok listening then (listening, set_port p s)
                         else
                           let (started, sm) = sm_start (the_machine s);
                               s = set_port p s\<lparr>the_machine := sm\<rparr>
                           in if \<not> is_ok started then (started, s)
                              else
                                let s = on_runtime (rt_started_update (\<lambda>_. True)) s
                                in (Ok, rt_publish_state ops m (sm_current sm) s)
      | _ \<Rightarrow> (NotInitialised, s))"

definition rt_dispatch ::
  "'p port_ops \<Rightarrow> model \<Rightarrow> trigger_id \<Rightarrow> args \<Rightarrow> 'p system \<Rightarrow> status \<times> 'p system" where
  "rt_dispatch ops m trigger a s =
     (let (status, sm, event) = sm_fire trigger a (the_machine s);
          s = s\<lparr>the_machine := sm\<rparr>;
          s = (if is_ok status then rt_publish_state ops m (ev_to event) s
               else if status = NoTransition \<or> status = GuardRejected then
                 rt_publish_rejection ops m event a
                   (on_runtime (\<lambda>r. r\<lparr>inputs_rejected := inputs_rejected r + 1\<rparr>) s)
               else s);
          s = (if rt_trace (the_runtime s) then s\<lparr>traced := traced s @ [event]\<rparr> else s)
      in (status, s))"

definition rt_service :: "'p port_ops \<Rightarrow> u32 \<Rightarrow> 'p system \<Rightarrow> status \<times> 'p system" where
  "rt_service ops timeout_ms s =
     (case rt_model (the_runtime s) of
        None \<Rightarrow> (NotInitialised, s)
      | Some m \<Rightarrow>
          if \<not> rt_started (the_runtime s) then (NotInitialised, s)
          else
            let (received, input, p) = po_receive ops empty_input timeout_ms (the_port s);
                s = set_port p s
            in if received = Timeout then (Ok, s)
               else if \<not> is_ok received then (received, s)
               else
                 let s = on_runtime (\<lambda>r. r\<lparr>inputs_received := inputs_received r + 1\<rparr>) s;
                     trigger = find_trigger_for_channel m (in_channel input)
                 in if trigger = kNoTrigger then
                      (Ok, rt_publish_unknown ops (in_channel input)
                             (on_runtime (\<lambda>r. r\<lparr>inputs_unrouted := inputs_unrouted r + 1\<rparr>) s))
                    else
                      let (parsed, a) = args_parse (in_arguments input);
                          s = on_runtime (rt_args_update (\<lambda>_. a)) s
                      in if \<not> is_ok parsed then
                           (Ok, rt_publish_bad_arguments ops m trigger parsed
                                  (on_runtime (\<lambda>r. r\<lparr>inputs_rejected := inputs_rejected r + 1\<rparr>) s))
                         else (Ok, snd (rt_dispatch ops m trigger a s)))"

definition rt_stop :: "'p port_ops \<Rightarrow> 'p system \<Rightarrow> status \<times> 'p system" where
  "rt_stop ops s =
     (if \<not> rt_port_bound (the_runtime s) then (NotInitialised, s)
      else
        let s = on_runtime (rt_started_update (\<lambda>_. False)) s;
            (closed, p) = po_close ops (the_port s)
        in (closed, set_port p s))"

definition rt_fire_by_name ::
  "'p port_ops \<Rightarrow> string \<Rightarrow> string \<Rightarrow> 'p system \<Rightarrow> status \<times> 'p system" where
  "rt_fire_by_name ops name arguments s =
     (case rt_model (the_runtime s) of
        None \<Rightarrow> (NotInitialised, s)
      | Some m \<Rightarrow>
          if \<not> rt_started (the_runtime s) then (NotInitialised, s)
          else
            let trigger = find_trigger m name
            in if trigger = kNoTrigger then (UnknownTrigger, s)
               else
                 let (parsed, a) = args_parse arguments;
                     s = on_runtime (rt_args_update (\<lambda>_. a)) s
                 in if \<not> is_ok parsed then (parsed, s)
                    else rt_dispatch ops m trigger a s)"

text \<open>
  The run phase of an application, as examples/car/main.cpp has it: service until the port
  is exhausted or fails. \<open>None\<close> when \<open>fuel\<close> iterations were not enough.
\<close>

fun run_phase :: "'p port_ops \<Rightarrow> nat \<Rightarrow> 'p system \<Rightarrow> (status \<times> 'p system) option" where
  "run_phase ops 0 s = None"
| "run_phase ops (Suc fuel) s =
     (let (status, s) = rt_service ops 100 s
      in if status = EndOfInput then Some (status, s)
         else if \<not> is_ok status then Some (status, s)
         else run_phase ops fuel s)"

text \<open>Several service calls, whatever they answer.\<close>

fun services :: "'p port_ops \<Rightarrow> u32 \<Rightarrow> nat \<Rightarrow> 'p system \<Rightarrow> 'p system" where
  "services ops ms 0 s = s"
| "services ops ms (Suc n) s = services ops ms n (snd (rt_service ops ms s))"

section \<open>What one input does to the machine\<close>

definition input_effect :: "model \<Rightarrow> string \<times> string \<Rightarrow> state_machine \<Rightarrow> state_machine" where
  "input_effect m ca sm =
     (let t = find_trigger_for_channel m (fst ca); (parsed, a) = args_parse (snd ca)
      in if t = kNoTrigger \<or> parsed \<noteq> Ok then sm else fire_event (t, a) sm)"

text \<open>The state that the model alone says an input leads to.\<close>

definition next_state :: "model \<Rightarrow> string \<times> string \<Rightarrow> state_id \<Rightarrow> state_id" where
  "next_state m ca i =
     (let t = find_trigger_for_channel m (fst ca); (parsed, a) = args_parse (snd ca)
      in if t = kNoTrigger \<or> parsed \<noteq> Ok then i
         else case decide (behaviour m i t) a of
                (DecisionAccepted, j) \<Rightarrow> j
              | _ \<Rightarrow> i)"

lemma fire_event_state:
  "running m sm \<Longrightarrow> sm_current (fire_event (t, a) sm) =
    (case decide (behaviour m (sm_current sm) t) a of (DecisionAccepted, j) \<Rightarrow> j | _ \<Rightarrow> sm_current sm)"
  by (auto simp: running_def fire_event_def sm_fire_def evaluate_decide Let_def
      split: prod.splits decision.splits)

lemma input_effect_state:
  "running m sm \<Longrightarrow> sm_current (input_effect m ca sm) = next_state m ca (sm_current sm)"
  by (auto simp: input_effect_def next_state_def fire_event_state Let_def split: prod.splits)

lemma input_effect_running: "running m sm \<Longrightarrow> running m (input_effect m ca sm)"
  by (auto simp: input_effect_def Let_def split: prod.splits intro: machine.inv_answer)

lemma input_effects_state:
  "running m sm \<Longrightarrow> sm_current (fold (input_effect m) cas sm) = fold (next_state m) cas (sm_current sm)
    \<and> running m (fold (input_effect m) cas sm)"
  by (induction cas arbitrary: sm) (auto simp: input_effect_state input_effect_running)

section \<open>A live system\<close>

definition name_of :: "model \<Rightarrow> state_machine \<Rightarrow> string option" where
  "name_of m sm = map_option node_name (model_state m (sm_current sm))"

definition live :: "('p \<Rightarrow> bool) \<Rightarrow> ('p \<Rightarrow> string option) \<Rightarrow> model \<Rightarrow> 'p system \<Rightarrow> bool" where
  "live usable shown m s \<longleftrightarrow> rt_started (the_runtime s) \<and> rt_model (the_runtime s) = Some m \<and>
     rt_port_bound (the_runtime s) \<and> running m (the_machine s) \<and> usable (the_port s) \<and>
     shown (the_port s) = name_of m (the_machine s)"

lemma running_state:
  assumes "running m sm"
  obtains n where "model_state m (sm_current sm) = Some n" "length (node_name n) \<le> kMaxNameLength"
    "name_of m sm = Some (node_name n)"
proof -
  from assms obtain n where n: "fm_find (states m) (sm_current sm) = Some n" "model_ok m"
    by (auto simp: running_def has_state_def)
  then have "length (node_name n) \<le> kMaxNameLength"
    using model_okD(2) [OF n(2)] by (auto simp: names_ok_def)
  with n(1) that show thesis
    by (simp add: model_state_def name_of_def)
qed

text \<open>What the reports leave alone.\<close>

lemma reports_frame [frame_simps]:
  "the_machine (rt_publish_state ops m i s) = the_machine s"
  "the_machine (rt_publish_rejection ops m ev a s) = the_machine s"
  "the_machine (rt_publish_bad_arguments ops m t st s) = the_machine s"
  "the_machine (rt_publish_unknown ops c s) = the_machine s"
  by (simp_all add: rt_publish_state_def rt_publish_rejection_def rt_publish_bad_arguments_def
      rt_publish_unknown_def Let_def split: option.split)

definition reports_error :: "'p port_ops \<Rightarrow> string \<Rightarrow> 'p system \<Rightarrow> 'p system" where
  "reports_error ops e s = set_port (snd (po_publish_error ops e (the_port s)))
     (on_runtime (rt_scratch_update (\<lambda>_. e)) s)"

lemma error_reports:
  "\<exists>e. rt_publish_rejection ops m ev a s = reports_error ops e s"
  "\<exists>e. rt_publish_bad_arguments ops m t st s = reports_error ops e s"
  "\<exists>e. rt_publish_unknown ops c s = reports_error ops e s"
  by (auto simp: rt_publish_rejection_def rt_publish_bad_arguments_def rt_publish_unknown_def
      reports_error_def Let_def)

definition accounted :: "'p system \<Rightarrow> u32" where
  "accounted s = inputs_received (the_runtime s) - inputs_unrouted (the_runtime s)
     - inputs_rejected (the_runtime s) - transition_total (the_machine s)"

lemma dispatch_accepted:
  assumes "sm_fire t a (the_machine s) = (Ok, sm, ev)" and "model_state m (ev_to ev) = Some n"
  shows "the_port (snd (rt_dispatch ops m t a s)) = snd (po_publish_state ops (node_name n) (the_port s))"
    and "the_runtime (snd (rt_dispatch ops m t a s)) = the_runtime s"
    and "the_machine (snd (rt_dispatch ops m t a s)) = sm"
  using assms by (simp_all add: rt_dispatch_def rt_publish_state_def Let_def)

lemma dispatch_refused:
  assumes "sm_fire t a (the_machine s) = (st, sm, ev)" and "st = NoTransition \<or> st = GuardRejected"
  shows "\<exists>e. the_port (snd (rt_dispatch ops m t a s)) = snd (po_publish_error ops e (the_port s)) \<and>
      the_machine (snd (rt_dispatch ops m t a s)) = sm \<and>
      the_runtime (snd (rt_dispatch ops m t a s)) =
        (the_runtime s)\<lparr>rt_scratch := e, inputs_rejected := inputs_rejected (the_runtime s) + 1\<rparr>"
proof -
  let ?s = "on_runtime (\<lambda>r. r\<lparr>inputs_rejected := inputs_rejected r + 1\<rparr>) (s\<lparr>the_machine := sm\<rparr>)"
  obtain e where e: "rt_publish_rejection ops m ev a ?s = reports_error ops e ?s"
    using error_reports(1) [of ops m ev a ?s] by blast
  from assms(2) have "st \<noteq> Ok"
    by auto
  with assms have "snd (rt_dispatch ops m t a s) =
      (if rt_trace (the_runtime s) then (reports_error ops e ?s)\<lparr>traced := traced s @ [ev]\<rparr>
       else reports_error ops e ?s)"
    using e by (auto simp: rt_dispatch_def Let_def reports_error_def)
  then show ?thesis
    by (intro exI [of _ e]) (simp add: reports_error_def)
qed

lemma bookkeeping [simp]:
  "accounted (on_runtime (\<lambda>r. r\<lparr>inputs_received := inputs_received r + 1\<rparr>) s) = accounted s + 1"
  "accounted (on_runtime (\<lambda>r. r\<lparr>inputs_unrouted := inputs_unrouted r + 1\<rparr>) s) = accounted s - 1"
  "accounted (on_runtime (\<lambda>r. r\<lparr>inputs_rejected := inputs_rejected r + 1\<rparr>) s) = accounted s - 1"
  "accounted (on_runtime (rt_args_update f) s) = accounted s"
  "accounted (set_port p s) = accounted s"
  by (simp_all add: accounted_def)

lemma live_on_runtime [simp]:
  "live usable shown m (on_runtime (inputs_received_update (\<lambda>_. k)) s) = live usable shown m s"
  "live usable shown m (on_runtime (inputs_unrouted_update (\<lambda>_. k)) s) = live usable shown m s"
  "live usable shown m (on_runtime (inputs_rejected_update (\<lambda>_. k)) s) = live usable shown m s"
  "live usable shown m (on_runtime (rt_args_update f) s) = live usable shown m s"
  by (simp_all add: live_def)

text \<open>The trace hook changes nothing but what is traced.\<close>

lemma set_trace [simp]:
  "live usable shown m (rt_set_trace hook s) = live usable shown m s"
  "accounted (rt_set_trace hook s) = accounted s"
  "the_port (rt_set_trace hook s) = the_port s"
  "the_machine (rt_set_trace hook s) = the_machine s"
  "inputs_received (the_runtime (rt_set_trace hook s)) = inputs_received (the_runtime s)"
  by (simp_all add: rt_set_trace_def live_def accounted_def)

lemma start_set_trace:
  "rt_start ops (rt_set_trace hook s) = map_prod id (rt_set_trace hook) (rt_start ops s)"
  by (simp add: rt_start_def rt_set_trace_def rt_publish_state_def Let_def split_beta split: option.splits)

lemma fire_status:
  assumes "running m sm" and "sm_fire t a sm = (st, sm', ev)"
  shows "(st = Ok \<and> ev_to ev = sm_current sm' \<and> transition_total sm' = transition_total sm + 1) \<or>
    ((st = NoTransition \<or> st = GuardRejected) \<and> sm_current sm' = sm_current sm \<and>
      transition_total sm' = transition_total sm)"
  using assms by (auto simp: sm_fire_def running_def Let_def split: prod.splits if_splits)

context port_contract
begin

lemma dispatch_live:
  assumes "live usable shown m s"
  shows "the_machine (snd (rt_dispatch ops m t a s)) = fire_event (t, a) (the_machine s)" (is ?machine)
    and "live usable shown m (snd (rt_dispatch ops m t a s))" (is ?live)
    and "pending (the_port (snd (rt_dispatch ops m t a s))) = pending (the_port s)" (is ?pending)
    and "accounted (snd (rt_dispatch ops m t a s)) = accounted s - 1" (is ?accounted)
    and "inputs_received (the_runtime (snd (rt_dispatch ops m t a s))) = inputs_received (the_runtime s)" (is ?received)
proof -
  from assms have s: "running m (the_machine s)" "usable (the_port s)"
    "shown (the_port s) = name_of m (the_machine s)" "rt_started (the_runtime s)"
    "rt_model (the_runtime s) = Some m" "rt_port_bound (the_runtime s)"
    by (auto simp: live_def)
  obtain st sm ev where f: "sm_fire t a (the_machine s) = (st, sm, ev)"
    by (metis surj_pair)
  then have sm: "sm = fire_event (t, a) (the_machine s)"
    by (simp add: fire_event_def)
  have run: "running m sm"
    unfolding sm using s(1) by (rule machine.inv_answer)
  have "?machine \<and> ?live \<and> ?pending \<and> ?accounted \<and> ?received"
  proof (cases "st = Ok")
    case True
    obtain n where n: "model_state m (sm_current sm) = Some n" "length (node_name n) \<le> kMaxNameLength"
      "name_of m sm = Some (node_name n)"
      using running_state [OF run] .
    from True fire_status [OF s(1) f] have
      to: "ev_to ev = sm_current sm" "transition_total sm = transition_total (the_machine s) + 1"
      by auto
    note d = dispatch_accepted [of t a s sm ev m n ops, OF f [unfolded True]]
    show ?thesis
      using n to(1) s run
      by (simp add: live_def accounted_def d sm [symmetric] to(2) state_usable state_shown state_pending)
  next
    case False
    with fire_status [OF s(1) f] have st: "st = NoTransition \<or> st = GuardRejected"
      "sm_current sm = sm_current (the_machine s)" "transition_total sm = transition_total (the_machine s)"
      by auto
    then have "name_of m sm = name_of m (the_machine s)"
      by (simp add: name_of_def)
    moreover obtain e where
      "the_machine (snd (rt_dispatch ops m t a s)) = sm"
      "the_port (snd (rt_dispatch ops m t a s)) = snd (po_publish_error ops e (the_port s))"
      "the_runtime (snd (rt_dispatch ops m t a s)) =
        (the_runtime s)\<lparr>rt_scratch := e, inputs_rejected := inputs_rejected (the_runtime s) + 1\<rparr>"
      using dispatch_refused [OF f st(1)] by blast
    ultimately show ?thesis
      using s run st(3)
      by (simp add: live_def accounted_def sm [symmetric] error_usable
          error_shown error_pending)
  qed
  then show ?machine ?live ?pending ?accounted ?received
    by blast+
qed

lemma reports_error_live:
  assumes "live usable shown m s"
  shows "live usable shown m (reports_error ops e s)"
    and "pending (the_port (reports_error ops e s)) = pending (the_port s)"
    and "accounted (reports_error ops e s) = accounted s"
    and "the_machine (reports_error ops e s) = the_machine s"
    and "inputs_received (the_runtime (reports_error ops e s)) = inputs_received (the_runtime s)"
  using assms by (simp_all add: reports_error_def live_def accounted_def error_usable error_shown error_pending)

text \<open>One service call with an input at the front of the port.\<close>

lemma service_split:
  assumes "live usable shown m s" and "pending (the_port s) = (c, arg) # rest"
  obtains p where "po_receive ops empty_input ms (the_port s) = (Ok, \<lparr>in_channel = c, in_arguments = arg\<rparr>, p)"
    "pending p = rest" "usable p" "shown p = shown (the_port s)"
    "rt_service ops ms s =
      (let q = on_runtime (\<lambda>r. r\<lparr>inputs_received := inputs_received r + 1\<rparr>) (set_port p s);
           t = find_trigger_for_channel m c; (st, b) = args_parse arg
       in if t = kNoTrigger then
            (Ok, rt_publish_unknown ops c (on_runtime (\<lambda>r. r\<lparr>inputs_unrouted := inputs_unrouted r + 1\<rparr>) q))
          else if st \<noteq> Ok then
            (Ok, rt_publish_bad_arguments ops m t st (on_runtime (\<lambda>r. r\<lparr>inputs_rejected := inputs_rejected r + 1\<rparr>)
               (on_runtime (rt_args_update (\<lambda>_. b)) q)))
          else (Ok, snd (rt_dispatch ops m t b (on_runtime (rt_args_update (\<lambda>_. b)) q))))"
proof -
  from assms(1) have s: "usable (the_port s)" "rt_started (the_runtime s)" "rt_model (the_runtime s) = Some m"
    by (auto simp: live_def)
  obtain p where p: "po_receive ops empty_input ms (the_port s) =
      (Ok, \<lparr>in_channel = c, in_arguments = arg\<rparr>, p)" "pending p = rest"
    using receive_next [OF s(1) assms(2)] by blast
  have "usable p" "shown p = shown (the_port s)"
    using receive_usable [OF s(1), of empty_input ms] receive_shown [of empty_input ms "the_port s"] p(1) by simp_all
  with s p show thesis
    by (intro that [of p]) (simp_all add: rt_service_def Let_def split_beta)
qed

lemma service_live:
  assumes "live usable shown m s" and "pending (the_port s) = ca # rest"
  shows "fst (rt_service ops ms s) = Ok \<and> live usable shown m (snd (rt_service ops ms s)) \<and>
    the_machine (snd (rt_service ops ms s)) = input_effect m ca (the_machine s) \<and>
    pending (the_port (snd (rt_service ops ms s))) = rest \<and>
    accounted (snd (rt_service ops ms s)) = accounted s \<and>
    inputs_received (the_runtime (snd (rt_service ops ms s))) = inputs_received (the_runtime s) + 1"
proof -
  obtain c a where ca: "ca = (c, a)"
    by fastforce
  let ?t = "find_trigger_for_channel m c"
  obtain st b where parsed: "args_parse a = (st, b)"
    by fastforce
  obtain p where p: "pending p = rest" "usable p" "shown p = shown (the_port s)" and
    service: "rt_service ops ms s =
      (let q = on_runtime (\<lambda>r. r\<lparr>inputs_received := inputs_received r + 1\<rparr>) (set_port p s);
           t = ?t; (st, b) = args_parse a
       in if t = kNoTrigger then
            (Ok, rt_publish_unknown ops c (on_runtime (\<lambda>r. r\<lparr>inputs_unrouted := inputs_unrouted r + 1\<rparr>) q))
          else if st \<noteq> Ok then
            (Ok, rt_publish_bad_arguments ops m t st (on_runtime (\<lambda>r. r\<lparr>inputs_rejected := inputs_rejected r + 1\<rparr>)
               (on_runtime (rt_args_update (\<lambda>_. b)) q)))
          else (Ok, snd (rt_dispatch ops m t b (on_runtime (rt_args_update (\<lambda>_. b)) q))))"
    by (rule service_split [OF assms(1) assms(2) [unfolded ca], where ms = ms])
  define q where "q = on_runtime (\<lambda>r. r\<lparr>inputs_received := inputs_received r + 1\<rparr>) (set_port p s)"
  have q: "live usable shown m q" "pending (the_port q) = rest" "accounted q = accounted s + 1"
    "the_machine q = the_machine s"
    "inputs_received (the_runtime q) = inputs_received (the_runtime s) + 1"
    using assms(1) p unfolding q_def live_on_runtime bookkeeping by (simp_all add: live_def)
  note step = service [unfolded q_def [symmetric] parsed Let_def split]
  consider "?t = kNoTrigger" | "?t \<noteq> kNoTrigger" "st \<noteq> Ok" | "?t \<noteq> kNoTrigger" "st = Ok"
    by blast
  then show ?thesis
  proof cases
    case 1
    let ?q = "on_runtime (\<lambda>r. r\<lparr>inputs_unrouted := inputs_unrouted r + 1\<rparr>) q"
    have "live usable shown m ?q" "accounted ?q = accounted s" "the_machine ?q = the_machine s"
      "pending (the_port ?q) = rest" "inputs_received (the_runtime ?q) = inputs_received (the_runtime s) + 1"
      using q unfolding live_on_runtime bookkeeping by simp_all
    moreover obtain e where "rt_publish_unknown ops c ?q = reports_error ops e ?q"
      using error_reports(3) [of ops c ?q] by blast
    ultimately show ?thesis
      using 1 reports_error_live [of m ?q e] by (simp add: step input_effect_def ca parsed)
  next
    case 2
    let ?q = "on_runtime (\<lambda>r. r\<lparr>inputs_rejected := inputs_rejected r + 1\<rparr>)
      (on_runtime (rt_args_update (\<lambda>_. b)) q)"
    have "live usable shown m ?q" "accounted ?q = accounted s" "the_machine ?q = the_machine s"
      "pending (the_port ?q) = rest" "inputs_received (the_runtime ?q) = inputs_received (the_runtime s) + 1"
      using q unfolding live_on_runtime bookkeeping by simp_all
    moreover obtain e where "rt_publish_bad_arguments ops m ?t st ?q = reports_error ops e ?q"
      using error_reports(2) [of ops m ?t st ?q] by blast
    ultimately show ?thesis
      using 2 reports_error_live [of m ?q e] by (simp add: step input_effect_def ca parsed)
  next
    case 3
    let ?q = "on_runtime (rt_args_update (\<lambda>_. b)) q"
    have "live usable shown m ?q" "accounted ?q = accounted s + 1" "the_machine ?q = the_machine s"
      "pending (the_port ?q) = rest" "inputs_received (the_runtime ?q) = inputs_received (the_runtime s) + 1"
      using q unfolding live_on_runtime bookkeeping by simp_all
    with 3 dispatch_live [of m ?q ?t b] show ?thesis
      by (simp add: step input_effect_def ca parsed)
  qed
qed

text \<open>A service call when nothing is pending.\<close>

lemma service_idle:
  assumes "live usable shown m s" and "pending (the_port s) = []"
  shows "fst (rt_service ops ms s) =
      (if fst (po_receive ops empty_input ms (the_port s)) = EndOfInput then EndOfInput else Ok) \<and>
    live usable shown m (snd (rt_service ops ms s)) \<and>
    the_machine (snd (rt_service ops ms s)) = the_machine s \<and>
    the_runtime (snd (rt_service ops ms s)) = the_runtime s"
proof -
  from assms have s: "usable (the_port s)" "rt_started (the_runtime s)" "rt_model (the_runtime s) = Some m"
    by (auto simp: live_def)
  obtain st i p where p: "po_receive ops empty_input ms (the_port s) = (st, i, p)"
    by (metis surj_pair)
  then have "st = Timeout \<or> st = EndOfInput" "usable p" "shown p = shown (the_port s)"
    using receive_idle [OF s(1) assms(2), of empty_input ms] receive_usable [OF s(1), of empty_input ms]
      receive_shown [of empty_input ms "the_port s"] by auto
  with s p assms(1) show ?thesis
    by (auto simp: rt_service_def live_def Let_def)
qed

lemma run_phase_drains:
  assumes "live usable shown m s"
    and "\<And>p. usable p \<Longrightarrow> pending p = [] \<Longrightarrow> fst (po_receive ops empty_input 100 p) = EndOfInput"
  shows "\<exists>s'. run_phase ops (Suc (length (pending (the_port s)))) s = Some (EndOfInput, s') \<and>
    live usable shown m s' \<and> accounted s' = accounted s \<and>
    inputs_received (the_runtime s') =
      inputs_received (the_runtime s) + word_of_nat (length (pending (the_port s))) \<and>
    the_machine s' = fold (input_effect m) (pending (the_port s)) (the_machine s)"
  using assms(1)
proof (induction "pending (the_port s)" arbitrary: s)
  case Nil
  then have "usable (the_port s)" "pending (the_port s) = []"
    by (simp_all add: live_def)
  with service_idle [OF Nil(2), of 100] assms(2) [of "the_port s"] show ?case
    by (auto simp: accounted_def split_beta Let_def)
next
  case (Cons ca rest)
  note service = service_live [OF Cons(3) Cons(2) [symmetric], of 100]
  with Cons(1) [of "snd (rt_service ops 100 s)"] obtain s' where
    "run_phase ops (Suc (length rest)) (snd (rt_service ops 100 s)) = Some (EndOfInput, s')"
    "live usable shown m s'" "accounted s' = accounted s"
    "inputs_received (the_runtime s') = inputs_received (the_runtime s) + 1 + word_of_nat (length rest)"
    "the_machine s' = fold (input_effect m) rest (input_effect m ca (the_machine s))"
    by auto
  with service show ?case
    unfolding Cons(2) [symmetric] by (intro exI [of _ s']) (auto simp: split_beta Let_def)
qed

text \<open>As many service calls as there are inputs.\<close>

lemma services_live:
  assumes "live usable shown m s" and "pending (the_port s) = cas @ rest"
  shows "live usable shown m (services ops ms (length cas) s) \<and>
    pending (the_port (services ops ms (length cas) s)) = rest \<and>
    the_machine (services ops ms (length cas) s) = fold (input_effect m) cas (the_machine s)"
  using assms
proof (induction cas arbitrary: s)
  case (Cons ca cas)
  with service_live [OF Cons(2), of ca "cas @ rest" ms] show ?case
    by simp
qed simp

end

section \<open>Starting\<close>

lemma run_phase_more: "run_phase ops fuel s = Some r \<Longrightarrow> run_phase ops (fuel + extra) s = Some r"
proof (induction ops fuel s rule: run_phase.induct)
  case (2 ops fuel s)
  then show ?case
    by (cases "rt_service ops 100 s") (auto split: if_splits)
qed simp

lemma channel_index_ok:
  assumes "model_ok m"
  shows "length (channel_index m) \<le> kMaxTriggers"
    and "\<And>c. c \<in> set (map fst (channel_index m)) \<Longrightarrow> length c \<le> kMaxChannelLength"
proof -
  have ix: "indexes td_channel (triggers m) (channel_index m)" "length (triggers m) \<le> kMaxTriggers"
    using assms by (simp_all add: model_ok_def tables_ok_def)
  then show "length (channel_index m) \<le> kMaxTriggers"
    by (simp add: indexes_def)
  fix c
  assume "c \<in> set (map fst (channel_index m))"
  then obtain i where "fm_find (channel_index m) c = Some i"
    using ix(1) fm_find_None_iff [of "channel_index m" c] by (cases "fm_find (channel_index m) c") auto
  with indexes_find [OF ix(1)] model_okD(2) [OF assms] show "length c \<le> kMaxChannelLength"
    by (fastforce simp: names_ok_def)
qed

lemma memory_listen_all:
  "mp_open p \<Longrightarrow> length (mp_listening p) + length cs \<le> kMaxTriggers \<Longrightarrow>
    (\<And>c. c \<in> set cs \<Longrightarrow> length c \<le> kMaxChannelLength) \<Longrightarrow>
    listen_all (memory_ops depth) cs p = (Ok, p\<lparr>mp_listening := mp_listening p @ cs\<rparr>)"
  by (induction cs arbitrary: p) (auto simp: memory_ops_def memory_listen_def text_simps)

lemma console_listen_all:
  "length (con_channels p) + length cs \<le> kMaxTriggers \<Longrightarrow>
    (\<And>c. c \<in> set cs \<Longrightarrow> length c \<le> kMaxChannelLength) \<Longrightarrow>
    listen_all console_ops cs p = (Ok, p\<lparr>con_channels := con_channels p @ cs\<rparr>)"
  by (induction cs arbitrary: p) (auto simp: console_ops_def console_listen_def text_simps)

definition system_of :: "state_machine \<Rightarrow> 'p \<Rightarrow> 'p system" where
  "system_of sm p = \<lparr>the_runtime = new_runtime, the_machine = sm, the_port = p, traced = []\<rparr>"

text \<open>A machine that was initialised starts, in the state the setup names.\<close>

lemma initialised_starts:
  assumes "machine_ok sm" and "sm_model sm = Some m" and "\<not> sm_started sm"
  obtains n st where "sm_setup sm = Some st" "sm_start sm = (Ok, sm\<lparr>sm_current := sm_initial sm, sm_started := True\<rparr>)"
    "running m (sm\<lparr>sm_current := sm_initial sm, sm_started := True\<rparr>)" "transition_total sm = 0"
    "model_state m (sm_initial sm) = Some n" "node_name n = initial_name st"
    "length (node_name n) \<le> kMaxNameLength"
proof -
  from assms obtain st where st: "model_ok m" "has_state m (sm_initial sm)" "sm_setup sm = Some st"
    "validate_against st m = Ok" "sm_initial sm = initial_in st m" "transition_total sm = 0"
    by (auto simp: machine_ok_def)
  from st(1,4,5) validate_against_Ok [OF st(1), of st] obtain n where
    n: "model_state m (sm_initial sm) = Some n" "node_name n = initial_name st"
    by auto
  have "length (node_name n) \<le> kMaxNameLength"
    using n(1) model_okD(2) [OF st(1)] by (simp add: names_ok_def model_state_def)
  with that st n assms show thesis
    by (auto simp: sm_start_def running_def)
qed

lemma initialised_started:
  assumes "machine_ok sm" and "sm_model sm = Some m" and "\<not> sm_started sm"
  shows "\<exists>st. sm_setup sm = Some st" "fst (sm_start sm) = Ok"
    "sm_current (snd (sm_start sm)) = sm_initial sm" "running m (snd (sm_start sm))" "model_ok m"
  by (rule initialised_starts [OF assms], simp add: running_def)+

context port_contract
begin

lemma start_shape:
  assumes "machine_ok sm" and "sm_model sm = Some m" and "\<not> sm_started sm" and "ready p"
    and "fst (rt_start ops (snd (rt_init (system_of sm p)))) = Ok"
  obtains n st p3 where "sm_start sm = (Ok, sm\<lparr>sm_current := sm_initial sm, sm_started := True\<rparr>)"
    "running m (sm\<lparr>sm_current := sm_initial sm, sm_started := True\<rparr>)" "transition_total sm = 0"
    "model_state m (sm_initial sm) = Some n" "length (node_name n) \<le> kMaxNameLength"
    "usable p3" "pending p3 = pending p"
    "p3 = snd (listen_all ops (map fst (channel_index m)) (snd (po_open ops (snd (po_configure ops (setup_io st) p)))))"
    "snd (rt_start ops (snd (rt_init (system_of sm p)))) =
      (system_of (sm\<lparr>sm_current := sm_initial sm, sm_started := True\<rparr>)
         (snd (po_publish_state ops (node_name n) p3)))
       \<lparr>the_runtime := new_runtime\<lparr>rt_model := Some m, rt_setup := Some st, rt_machine_bound := True,
          rt_port_bound := True, rt_started := True\<rparr>\<rparr>"
proof -
  obtain n st where sm: "sm_setup sm = Some st" "sm_start sm = (Ok, sm\<lparr>sm_current := sm_initial sm, sm_started := True\<rparr>)"
    "running m (sm\<lparr>sm_current := sm_initial sm, sm_started := True\<rparr>)" "transition_total sm = 0"
    "model_state m (sm_initial sm) = Some n" "length (node_name n) \<le> kMaxNameLength"
    using initialised_starts [OF assms(1-3)] by metis
  have listens: "pending (snd (listen_all ops cs q)) = pending q"
    "usable q \<Longrightarrow> usable (snd (listen_all ops cs q))" for cs q
    using listen_usable listen_pending
    by (induction cs arbitrary: q) (auto simp: split_beta Let_def)
  let ?p1 = "snd (po_configure ops (setup_io st) p)"
  let ?p2 = "snd (po_open ops ?p1)"
  let ?p3 = "snd (listen_all ops (map fst (channel_index m)) ?p2)"
  have ok: "fst (po_configure ops (setup_io st) p) = Ok" "fst (po_open ops ?p1) = Ok"
    "fst (listen_all ops (map fst (channel_index m)) ?p2) = Ok"
    using assms(2,5) sm(1) by (auto simp: rt_start_def rt_init_def system_of_def new_runtime_def
        Let_def split_beta split: if_splits)
  have p3: "usable ?p3" "pending ?p3 = pending p"
    using configure_ready [OF assms(4)] open_usable [OF _ ok(2)]
    by (simp_all add: listens open_pending configure_pending)
  have step: "snd (rt_start ops (snd (rt_init (system_of sm p)))) =
    (system_of (sm\<lparr>sm_current := sm_initial sm, sm_started := True\<rparr>)
       (snd (po_publish_state ops (node_name n) ?p3)))
     \<lparr>the_runtime := new_runtime\<lparr>rt_model := Some m, rt_setup := Some st, rt_machine_bound := True,
        rt_port_bound := True, rt_started := True\<rparr>\<rparr>"
    using assms(2) sm ok by (simp add: rt_start_def rt_init_def system_of_def new_runtime_def
        Let_def split_beta rt_publish_state_def)
  from that [OF sm(2-6) p3 refl step] show thesis .
qed

lemma start_live:
  assumes "machine_ok sm" and "sm_model sm = Some m" and "\<not> sm_started sm" and "ready p"
    and "fst (rt_start ops (snd (rt_init (system_of sm p)))) = Ok"
  shows "live usable shown m (snd (rt_start ops (snd (rt_init (system_of sm p)))))"
    and "pending (the_port (snd (rt_start ops (snd (rt_init (system_of sm p)))))) = pending p"
    and "accounted (snd (rt_start ops (snd (rt_init (system_of sm p))))) = 0"
    and "the_machine (snd (rt_start ops (snd (rt_init (system_of sm p))))) = snd (sm_start sm)"
    and "inputs_received (the_runtime (snd (rt_start ops (snd (rt_init (system_of sm p)))))) = 0"
proof -
  obtain n st p3 where sm: "sm_start sm = (Ok, sm\<lparr>sm_current := sm_initial sm, sm_started := True\<rparr>)"
    "running m (sm\<lparr>sm_current := sm_initial sm, sm_started := True\<rparr>)" "transition_total sm = 0"
    "model_state m (sm_initial sm) = Some n" "length (node_name n) \<le> kMaxNameLength"
    and p3: "usable p3" "pending p3 = pending p" and
    step: "snd (rt_start ops (snd (rt_init (system_of sm p)))) =
      (system_of (sm\<lparr>sm_current := sm_initial sm, sm_started := True\<rparr>)
         (snd (po_publish_state ops (node_name n) p3)))
       \<lparr>the_runtime := new_runtime\<lparr>rt_model := Some m, rt_setup := Some st, rt_machine_bound := True,
          rt_port_bound := True, rt_started := True\<rparr>\<rparr>"
    by (rule start_shape [OF assms])
  show "the_machine (snd (rt_start ops (snd (rt_init (system_of sm p))))) = snd (sm_start sm)"
    unfolding step by (simp add: sm(1) system_of_def)
  show "pending (the_port (snd (rt_start ops (snd (rt_init (system_of sm p)))))) = pending p"
    unfolding step by (simp add: system_of_def state_pending p3)
  show "inputs_received (the_runtime (snd (rt_start ops (snd (rt_init (system_of sm p)))))) = 0"
    unfolding step by (simp add: new_runtime_def)
  show "accounted (snd (rt_start ops (snd (rt_init (system_of sm p))))) = 0"
    unfolding step by (simp add: system_of_def accounted_def new_runtime_def sm(3))
  show "live usable shown m (snd (rt_start ops (snd (rt_init (system_of sm p)))))"
    unfolding step using sm p3 by (simp add: system_of_def live_def state_usable state_shown name_of_def)
qed

end

lemma console_start:
  assumes "machine_ok sm" and "sm_model sm = Some m" and "\<not> sm_started sm"
  shows "fst (rt_start console_ops (snd (rt_init (system_of sm (new_console_port prompt t))))) = Ok"
proof -
  obtain st where "sm_setup sm = Some st" "fst (sm_start sm) = Ok" "model_ok m"
    using initialised_started [OF assms] by blast
  with assms console_listen_all [of "new_console_port prompt t" "map fst (channel_index m)"]
    channel_index_ok [of m] show ?thesis
    by (simp add: rt_start_def rt_init_def system_of_def new_runtime_def Let_def split_beta)
      (simp add: console_ops_def iport_configure_def console_open_def new_console_port_def)
qed

text \<open>A whole session over the console, with or without the trace hook.\<close>

lemma console_run:
  fixes prompt hook :: bool and t :: string
  assumes "machine_ok sm" and "sm_model sm = Some m" and "\<not> sm_started sm"
  defines "s \<equiv> snd (rt_start console_ops (snd (rt_init (system_of sm (new_console_port prompt t)))))"
  obtains s' where
    "run_phase console_ops (Suc (length (console_commands t))) (rt_set_trace hook s) = Some (EndOfInput, s')"
    and "live console_usable console_shown m s'" and "accounted s' = 0"
    and "inputs_received (the_runtime s') = word_of_nat (length (console_commands t))"
    and "the_machine s' = fold (input_effect m) (console_commands t) (snd (sm_start sm))"
    and "sm_current (the_machine s') = fold (next_state m) (console_commands t) (sm_initial sm)"
proof -
  have ready: "console_usable (new_console_port prompt t)"
    "console_pending (new_console_port prompt t) = console_commands t"
    by (simp_all add: new_console_port_def console_usable_def console_pending_def)
  note live = con.start_live [OF assms(1-3) ready(1) console_start [OF assms(1-3), of prompt t]]
  have ends: "fst (po_receive console_ops empty_input 100 p) = EndOfInput"
    if "console_usable p" "console_pending p = []" for p
    using console_receive_spec [OF that(1), of empty_input 100] that(2) by (auto simp: console_ops_def)
  have "live console_usable console_shown m (rt_set_trace hook s)"
    using live(1) by (simp add: s_def)
  from con.run_phase_drains [OF this ends] obtain s' where
    s': "run_phase console_ops (Suc (length (console_commands t))) (rt_set_trace hook s) = Some (EndOfInput, s')"
    "live console_usable console_shown m s'" "accounted s' = 0"
    "inputs_received (the_runtime s') = 0 + word_of_nat (length (console_commands t))"
    "the_machine s' = fold (input_effect m) (console_commands t) (snd (sm_start sm))"
    unfolding set_trace s_def live(2-5) ready(2) by blast
  moreover have "sm_current (the_machine s') = fold (next_state m) (console_commands t) (sm_initial sm)"
    using initialised_started(3,4) [OF assms(1-3)] by (simp add: s'(5) input_effects_state)
  ultimately show thesis
    using that by simp
qed

lemma no_trace: "rt_trace (the_runtime s) = hook \<Longrightarrow> rt_set_trace hook s = s"
  by (cases s; cases "the_runtime s") (simp add: rt_set_trace_def)

lemma start_rt_trace [simp]: "rt_trace (the_runtime (snd (rt_start ops s))) = rt_trace (the_runtime s)"
  by (simp add: rt_start_def rt_publish_state_def Let_def split_beta split: option.splits)

lemma init_rt_trace [simp]:
  "rt_trace (the_runtime (snd (rt_init s))) = rt_trace (the_runtime s)"
  "rt_trace (the_runtime (system_of sm p)) = False"
  by (simp_all add: rt_init_def system_of_def new_runtime_def)

definition sample_bound :: state_machine where
  "sample_bound = snd (sm_init sample_model sample_setup new_machine)"

lemma sample_bound_facts:
  "machine_reachable sample_bound" "sm_model sample_bound = Some sample_model"
  "sm_setup sample_bound = Some sample_setup" "\<not> sm_started sample_bound"
proof -
  show "machine_reachable sample_bound"
    unfolding sample_bound_def by (intro machine_reachable.intros sample_model_ok)
  show "sm_model sample_bound = Some sample_model" "sm_setup sample_bound = Some sample_setup"
    "\<not> sm_started sample_bound"
    by code_simp+
qed

section \<open>Properties\<close>

text \<open>C15: a machine bound to the console port and run over any text on the standard input
  stops, at the end of the input, in the state the model alone determines by applying the
  lines of the text one after the other; the state last shown is the one the machine is in.
  One service call per command and one more are enough.\<close>

theorem console_session:
  assumes "machine_reachable sm" and "sm_model sm = Some m" and "\<not> sm_started sm"
  shows "case rt_start console_ops (snd (rt_init (system_of sm (new_console_port prompt t)))) of
      (status, s) \<Rightarrow> status = Ok \<and>
        (\<exists>s'. run_phase console_ops (Suc (length (console_commands t))) s = Some (EndOfInput, s') \<and>
          sm_current (the_machine s') = fold (next_state m) (console_commands t) (sm_initial sm) \<and>
          console_shown (the_port s') =
            Some (state_name m (fold (next_state m) (console_commands t) (sm_initial sm))))"
proof -
  have ok: "machine_ok sm"
    using assms(1) by (rule reachable_machine_ok)
  let ?s = "snd (rt_start console_ops (snd (rt_init (system_of sm (new_console_port prompt t)))))"
  obtain s' where
    s': "run_phase console_ops (Suc (length (console_commands t))) (rt_set_trace False ?s) = Some (EndOfInput, s')"
    "live console_usable console_shown m s'"
    "sm_current (the_machine s') = fold (next_state m) (console_commands t) (sm_initial sm)"
    by (rule console_run [OF ok assms(2,3), where t = t and prompt = prompt and hook = False])
  moreover from s'(2) obtain n where "model_state m (sm_current (the_machine s')) = Some n"
    "console_shown (the_port s') = Some (node_name n)"
    using running_state [of m "the_machine s'"] by (auto simp: live_def)
  ultimately show ?thesis
    using console_start [OF ok assms(2,3), of prompt t]
    by (auto simp: no_trace state_name_def model_state_def split_beta)
qed

theorem console_session_witness:
  "case rt_start console_ops (snd (rt_init (system_of sample_bound (new_console_port False ''go'')))) of
      (status, s) \<Rightarrow> status = Ok \<and>
        (\<exists>s'. run_phase console_ops (Suc (length (console_commands ''go''))) s = Some (EndOfInput, s') \<and>
          sm_current (the_machine s') =
            fold (next_state sample_model) (console_commands ''go'') (sm_initial sample_bound) \<and>
          console_shown (the_port s') = Some (state_name sample_model
            (fold (next_state sample_model) (console_commands ''go'') (sm_initial sample_bound))))"
  by (rule console_session [OF sample_bound_facts(1,2,4)])

text \<open>C30: starting a runtime on a fresh memory port hands over the setup before it opens the
  port, announces exactly the channels of the model, enters the initial state and publishes its
  name, and nothing else.\<close>

theorem runtime_start_memory:
  assumes "machine_reachable sm" and "sm_model sm = Some m" and "sm_setup sm = Some st"
    and "\<not> sm_started sm" and "0 < depth"
  shows "case rt_start (memory_ops depth) (snd (rt_init (system_of sm new_memory_port))) of
      (status, s) \<Rightarrow> status = Ok \<and> the_machine s = snd (sm_start sm) \<and>
        the_port s = new_memory_port\<lparr>mp_open := True, mp_configured := True,
          mp_configured_before_open := True, mp_io := setup_io st,
          mp_listening := map fst (channel_index m), mp_states := [initial_name st]\<rparr>"
proof -
  have ok: "machine_ok sm"
    using assms(1) by (rule reachable_machine_ok)
  obtain n where n: "sm_start sm = (Ok, sm\<lparr>sm_current := sm_initial sm, sm_started := True\<rparr>)"
    "model_state m (sm_initial sm) = Some n" "node_name n = initial_name st"
    "length (initial_name st) \<le> kMaxNameLength" "model_ok m"
    using initialised_starts [OF ok assms(2,4)] assms(3)
    by (metis running_def option.inject select_convs(1))
  let ?p = "new_memory_port\<lparr>mp_open := True, mp_configured := True,
          mp_configured_before_open := True, mp_io := setup_io st\<rparr>"
  have "listen_all (memory_ops depth) (map fst (channel_index m)) ?p =
      (Ok, ?p\<lparr>mp_listening := map fst (channel_index m)\<rparr>)"
    using memory_listen_all [of ?p "map fst (channel_index m)" depth] channel_index_ok [OF n(5)]
    by (simp add: new_memory_port_def)
  moreover have "take kMaxMessageLength (initial_name st) = initial_name st"
    using n(4) by (simp add: capacity_defs)
  ultimately show ?thesis
    using assms n
    by (simp add: rt_start_def rt_init_def system_of_def new_runtime_def rt_publish_state_def)
      (simp add: memory_ops_def memory_defs memory_record_def text_simps new_memory_port_def
        rt_publish_state_def)
qed

theorem runtime_start_memory_witness:
  "case rt_start (memory_ops 32) (snd (rt_init (system_of sample_bound new_memory_port))) of
      (status, s) \<Rightarrow> status = Ok \<and> the_machine s = snd (sm_start sample_bound) \<and>
        the_port s = new_memory_port\<lparr>mp_open := True, mp_configured := True,
          mp_configured_before_open := True, mp_io := setup_io sample_setup,
          mp_listening := map fst (channel_index sample_model), mp_states := [initial_name sample_setup]\<rparr>"
  by (rule runtime_start_memory [OF sample_bound_facts]) simp

text \<open>C23: nothing that arrives is lost: when a session over the console ends, the inputs
  received are as many as the commands in the text, and each of them was counted either as
  unrouted, as rejected or as a transition of the machine (all modulo the 32-bit counters).\<close>

theorem console_session_counts:
  assumes "machine_reachable sm" and "sm_model sm = Some m" and "\<not> sm_started sm"
  shows "\<exists>s'. run_phase console_ops (Suc (length (console_commands t)))
        (snd (rt_start console_ops (snd (rt_init (system_of sm (new_console_port prompt t)))))) =
          Some (EndOfInput, s') \<and>
      inputs_received (the_runtime s') = word_of_nat (length (console_commands t)) \<and>
      inputs_received (the_runtime s') = inputs_unrouted (the_runtime s') +
        inputs_rejected (the_runtime s') + transition_total (the_machine s')"
proof -
  let ?s = "snd (rt_start console_ops (snd (rt_init (system_of sm (new_console_port prompt t)))))"
  obtain s' where
    s': "run_phase console_ops (Suc (length (console_commands t))) (rt_set_trace False ?s) = Some (EndOfInput, s')"
    "accounted s' = 0" "inputs_received (the_runtime s') = word_of_nat (length (console_commands t))"
    by (rule console_run [OF reachable_machine_ok [OF assms(1)] assms(2,3), where t = t and prompt = prompt and hook = False])
  from s'(2) have "inputs_received (the_runtime s') = inputs_unrouted (the_runtime s') +
        inputs_rejected (the_runtime s') + transition_total (the_machine s')"
    by (simp add: accounted_def algebra_simps)
  with s' show ?thesis
    by (auto simp: no_trace)
qed

theorem console_session_counts_witness:
  "\<exists>s'. run_phase console_ops (Suc (length (console_commands ''go'')))
        (snd (rt_start console_ops (snd (rt_init (system_of sample_bound (new_console_port True ''go'')))))) =
          Some (EndOfInput, s') \<and>
      inputs_received (the_runtime s') = word_of_nat (length (console_commands ''go'')) \<and>
      inputs_received (the_runtime s') = inputs_unrouted (the_runtime s') +
        inputs_rejected (the_runtime s') + transition_total (the_machine s')"
  by (rule console_session_counts [OF sample_bound_facts(1,2,4)])

text \<open>C31: one service call on a started runtime with an input queued at the memory port takes
  that input and no other, does to the machine what the input says (nothing, for an unknown
  channel or malformed arguments), keeps the state last published equal to the state the
  machine is in, and reports success whatever the machine thought of the input.\<close>

theorem service_one_input:
  assumes "live mp_open memory_shown m s" and "mp_inbox (the_port s) = q # rest"
  shows "case rt_service (memory_ops depth) ms s of (status, s') \<Rightarrow>
    status = Ok \<and> memory_pending (the_port s') = map (\<lambda>q. (q_channel q, q_arguments q)) rest \<and>
    the_machine s' = input_effect m (q_channel q, q_arguments q) (the_machine s) \<and>
    live mp_open memory_shown m s'"
proof -
  have "memory_pending (the_port s) =
      (q_channel q, q_arguments q) # map (\<lambda>q. (q_channel q, q_arguments q)) rest"
    by (simp add: memory_pending_def assms(2))
  from mem.service_live [OF assms(1) this, of depth ms] show ?thesis
    by (auto simp: split_beta)
qed

definition sample_system :: "memory_port system" where
  "sample_system = snd (rt_start (memory_ops 32) (snd (rt_init (system_of sample_bound
     (snd (memory_inject 16 ''brakes/on'' [] new_memory_port))))))"

lemma sample_system_live: "live mp_open memory_shown sample_model sample_system"
proof -
  have "fst (rt_start (memory_ops 32) (snd (rt_init (system_of sample_bound
     (snd (memory_inject 16 ''brakes/on'' [] new_memory_port)))))) = Ok"
    by code_simp
  from mem.start_live [OF reachable_machine_ok [OF sample_bound_facts(1)] sample_bound_facts(2,4) _ this]
  show ?thesis
    by (simp add: sample_system_def)
qed

lemma sample_system_inbox:
  "mp_inbox (the_port sample_system) = [\<lparr>q_channel = ''brakes/on'', q_arguments = []\<rparr>]"
  by code_simp

theorem service_one_input_witness:
  "case rt_service (memory_ops 32) 100 sample_system of (status, s') \<Rightarrow>
    status = Ok \<and> memory_pending (the_port s') = map (\<lambda>q. (q_channel q, q_arguments q)) [] \<and>
    the_machine s' = input_effect sample_model
      (q_channel \<lparr>q_channel = ''brakes/on'', q_arguments = []\<rparr>,
       q_arguments \<lparr>q_channel = ''brakes/on'', q_arguments = []\<rparr>) (the_machine sample_system) \<and>
    live mp_open memory_shown sample_model s'"
  using service_one_input [OF sample_system_live sample_system_inbox, of 32 100] by simp

text \<open>C21: every input queued at the memory port is served: after as many service calls as
  inputs stand in front of it the port holds the rest of the queue, the machine has taken
  the inputs in the order they were queued, and the runtime is live as before.\<close>

theorem memory_inputs_served:
  assumes "live mp_open memory_shown m s" and "memory_pending (the_port s) = cas @ rest"
  shows "memory_pending (the_port (services (memory_ops depth) ms (length cas) s)) = rest \<and>
    the_machine (services (memory_ops depth) ms (length cas) s) = fold (input_effect m) cas (the_machine s) \<and>
    live mp_open memory_shown m (services (memory_ops depth) ms (length cas) s)"
  using mem.services_live [OF assms, of depth ms] by simp

theorem memory_inputs_served_witness:
  "let s = services (memory_ops 32) 100 1 sample_system
   in memory_pending (the_port s) = [] \<and>
     the_machine s = input_effect sample_model (''brakes/on'', []) (the_machine sample_system) \<and>
     live mp_open memory_shown sample_model s"
proof -
  have "memory_pending (the_port sample_system) = [(''brakes/on'', [])] @ []"
    by (simp add: memory_pending_def sample_system_inbox)
  from memory_inputs_served [OF sample_system_live this, of 32 100] show ?thesis
    by (simp add: Let_def)
qed

text \<open>Raising a trigger by name from the application is answered with the machine's own
  status; an unknown name and malformed arguments are refused and leave the machine and the
  port as they were.\<close>

theorem fire_by_name_spec:
  assumes "live mp_open memory_shown m s"
  shows "case rt_fire_by_name (memory_ops depth) name arguments s of (status, s') \<Rightarrow>
    (if find_trigger m name = kNoTrigger then status = UnknownTrigger \<and> s' = s
     else case args_parse arguments of (parsed, a) \<Rightarrow>
       if parsed \<noteq> Ok then status = parsed \<and> the_machine s' = the_machine s \<and> the_port s' = the_port s
       else status = fst (sm_fire (find_trigger m name) a (the_machine s)) \<and>
         the_machine s' = fire_event (find_trigger m name, a) (the_machine s) \<and>
         live mp_open memory_shown m s')"
proof -
  obtain st a where a: "args_parse arguments = (st, a)"
    by fastforce
  let ?s = "on_runtime (rt_args_update (\<lambda>_. a)) s"
  have "live mp_open memory_shown m ?s"
    using assms by simp
  note fired = mem.dispatch_live(1,2) [OF this, of depth "find_trigger m name" a]
  have "fst (rt_dispatch (memory_ops depth) m (find_trigger m name) a ?s) =
      fst (sm_fire (find_trigger m name) a (the_machine s))"
    by (simp add: rt_dispatch_def split_beta Let_def)
  with fired assms show ?thesis
    by (auto simp: rt_fire_by_name_def live_def a split_beta)
qed

theorem fire_by_name_spec_witness:
  "case rt_fire_by_name (memory_ops 32) ''go'' ''pedal=9'' sample_system of (status, s') \<Rightarrow>
    (if find_trigger sample_model ''go'' = kNoTrigger then status = UnknownTrigger \<and> s' = sample_system
     else case args_parse ''pedal=9'' of (parsed, a) \<Rightarrow>
       if parsed \<noteq> Ok then status = parsed \<and> the_machine s' = the_machine sample_system \<and>
         the_port s' = the_port sample_system
       else status = fst (sm_fire (find_trigger sample_model ''go'') a (the_machine sample_system)) \<and>
         the_machine s' = fire_event (find_trigger sample_model ''go'', a) (the_machine sample_system) \<and>
         live mp_open memory_shown sample_model s')"
  by (rule fire_by_name_spec [OF sample_system_live])

text \<open>The report of a refused trigger names the trigger and the state in full; only the
  arguments that failed to satisfy the guard can be clipped.\<close>

theorem rejection_report:
  assumes "length (trigger_name m (ev_trigger ev)) \<le> kMaxNameLength"
    and "length (state_name m (ev_from ev)) \<le> kMaxNameLength"
    and "CHR 0x00 \<notin> set (trigger_name m (ev_trigger ev))" and "CHR 0x00 \<notin> set (state_name m (ev_from ev))"
  shows "\<exists>room. rt_scratch (the_runtime (rt_publish_rejection ops m ev a s)) =
    ''rejected: '' @ trigger_name m (ev_trigger ev) @ '' in state '' @ state_name m (ev_from ev) @
    (if ev_guard_rejected ev
     then take room ('': no guard matched ('' @
            (if args_empty a then ''no arguments'' else args_raw a) @ '')'')
     else []) \<and> 44 \<le> room"
proof -
  let ?t = "trigger_name m (ev_trigger ev)" and ?n = "state_name m (ev_from ev)"
  let ?head = "''rejected: '' @ ?t @ '' in state '' @ ?n"
  have clipped: "append_clipped kMaxMessageLength [] t = take kMaxMessageLength t" for t
    by (rule append_clipped_Nil)
  have lits: "cstr ''rejected: '' = ''rejected: ''" "cstr '' in state '' = '' in state ''"
    "cstr '': no guard matched ('' = '': no guard matched (''" "cstr '')'' = '')''"
    "cstr ''no arguments'' = ''no arguments''"
    by (simp_all add: cstr_def)
  have "rt_scratch (the_runtime (rt_publish_rejection ops m ev a s)) = take kMaxMessageLength
      (?head @ (if ev_guard_rejected ev then '': no guard matched ('' @
            (if args_empty a then ''no arguments'' else args_raw a) @ '')'' else []))"
    unfolding rt_publish_rejection_def Let_def lits cstr_no_nul [OF assms(3)] cstr_no_nul [OF assms(4)]
      clipped append_clipped_take
    by simp
  moreover have "length ?head \<le> 83"
    using assms(1,2) by (simp add: kMaxNameLength_def)
  ultimately show ?thesis
    by (intro exI [of _ "kMaxMessageLength - length ?head"])
      (auto simp: kMaxMessageLength_def simp del: append_Cons append.simps)
qed

theorem rejection_report_witness:
  "\<exists>room. rt_scratch (the_runtime (rt_publish_rejection (memory_ops 32) sample_model
      (empty_event\<lparr>ev_from := 0, ev_trigger := 0, ev_guard_rejected := True\<rparr>) args_none sample_system)) =
    ''rejected: '' @ ''go'' @ '' in state '' @ ''idle'' @
    take room ('': no guard matched ('' @ ''no arguments'' @ '')'') \<and> 44 \<le> room"
proof -
  let ?ev = "empty_event\<lparr>ev_from := 0, ev_trigger := 0, ev_guard_rejected := True\<rparr>"
  have "trigger_name sample_model 0 = ''go''" "state_name sample_model 0 = ''idle''" "args_empty args_none"
    by code_simp+
  with rejection_report [of sample_model ?ev "memory_ops 32" args_none sample_system] show ?thesis
    by (simp add: kMaxNameLength_def)
qed

text \<open>Called out of order the runtime's operations refuse and change nothing: nothing is
  bound before the machine has been initialised, nothing starts, is serviced, is fired or is
  stopped before the runtime is bound or started, and a started runtime cannot be bound
  again.\<close>

theorem runtime_guards:
  "(if rt_started (the_runtime s) then rt_init s = (AlreadyInitialised, s)
    else if sm_model (the_machine s) = None \<or> sm_setup (the_machine s) = None
      then rt_init s = (NotInitialised, s)
    else fst (rt_init s) = Ok \<and> the_machine (snd (rt_init s)) = the_machine s) \<and>
   rt_start ops (system_of sm p) = (NotInitialised, system_of sm p) \<and>
   rt_service ops ms (system_of sm p) = (NotInitialised, system_of sm p) \<and>
   rt_fire_by_name ops name arguments (system_of sm p) = (NotInitialised, system_of sm p) \<and>
   rt_stop ops (system_of sm p) = (NotInitialised, system_of sm p) \<and>
   rt_service ops ms (snd (rt_init (system_of sm p))) = (NotInitialised, snd (rt_init (system_of sm p))) \<and>
   rt_fire_by_name ops name arguments (snd (rt_init (system_of sm p))) =
     (NotInitialised, snd (rt_init (system_of sm p)))"
  by (auto simp: rt_init_def rt_start_def rt_service_def rt_fire_by_name_def rt_stop_def system_of_def
      new_runtime_def split: option.splits)

end
