(* ===== verification/Transcript.thy ===== *)
theory Transcript
  imports RuntimeLoop
begin

text \<open>
  Everything a session says. \<open>answer\<close> is what the machine makes of one input, \<open>report_of\<close> the text
  the runtime has the port publish for it (src/runtime.cpp); \<open>answered\<close> relates two systems between
  which given answers were given, by the reports and all counters. \<open>recording_port\<close> extends the
  contract of a port by the reports made so far, which the console keeps on its streams.
\<close>

section \<open>Answers and their reports\<close>

datatype answer =
    UnknownChannel string
  | BadArguments string status
  | Entered string
  | Rejected string string "string option"

fun is_unknown :: "answer \<Rightarrow> bool" where
  "is_unknown (UnknownChannel c) = True"
| "is_unknown _ = False"

fun is_entered :: "answer \<Rightarrow> bool" where
  "is_entered (Entered s) = True"
| "is_entered _ = False"

fun is_rejected :: "answer \<Rightarrow> bool" where
  "is_rejected (Rejected t s a) = True"
| "is_rejected _ = False"

text \<open>A state, or the text of an error, cut at the capacity of a message.\<close>

fun report_of :: "answer \<Rightarrow> string + string" where
  "report_of (UnknownChannel c) = Inr (take kMaxMessageLength (''unknown channel: '' @ c))"
| "report_of (BadArguments t reason) =
     Inr (take kMaxMessageLength (''bad arguments for '' @ cstr t @ '': '' @ cstr (status_to_string reason)))"
| "report_of (Entered s) = Inl s"
| "report_of (Rejected t s a) =
     Inr (take kMaxMessageLength (''rejected: '' @ cstr t @ '' in state '' @ cstr s @
       (case a of None \<Rightarrow> [] | Some shown \<Rightarrow> '': no guard matched ('' @ shown @ '')'')))"

definition shown_arguments :: "args \<Rightarrow> string" where
  "shown_arguments a = (if args_empty a then ''no arguments'' else args_raw a)"

definition fired_answer :: "model \<Rightarrow> state_id \<Rightarrow> trigger_id \<Rightarrow> args \<Rightarrow> answer" where
  "fired_answer m i t a =
     (case decide (behaviour m i t) a of
        (DecisionAccepted, j) \<Rightarrow> Entered (state_name m j)
      | (DecisionGuardRejected, j) \<Rightarrow> Rejected (trigger_name m t) (state_name m i) (Some (shown_arguments a))
      | (DecisionNoTransition, j) \<Rightarrow> Rejected (trigger_name m t) (state_name m i) None)"

definition model_answer :: "model \<Rightarrow> string \<times> string \<Rightarrow> state_id \<Rightarrow> answer" where
  "model_answer m ca i =
     (let t = find_trigger_for_channel m (fst ca); (parsed, a) = args_parse (snd ca)
      in if t = kNoTrigger then UnknownChannel (fst ca)
         else if parsed \<noteq> Ok then BadArguments (trigger_name m t) parsed
         else fired_answer m i t a)"

text \<open>The answers to a list of inputs, each in the state the one before left.\<close>

fun answers :: "('i \<Rightarrow> 's \<Rightarrow> answer) \<Rightarrow> ('i \<Rightarrow> 's \<Rightarrow> 's) \<Rightarrow> 'i list \<Rightarrow> 's \<Rightarrow> answer list" where
  "answers f step [] s = []"
| "answers f step (x # xs) s = f x s # answers f step xs (step x s)"

lemma answers_length: "length (answers f step xs s) = length xs"
  by (induction xs arbitrary: s) simp_all

section \<open>What a session leaves behind\<close>

definition answered :: "('p \<Rightarrow> (string + string) list) \<Rightarrow> answer list \<Rightarrow> 'p system \<Rightarrow> 'p system \<Rightarrow> bool" where
  "answered reported ys s s' \<longleftrightarrow>
     reported (the_port s') = reported (the_port s) @ map report_of ys \<and>
     inputs_received (the_runtime s') = inputs_received (the_runtime s) + word_of_nat (length ys) \<and>
     inputs_unrouted (the_runtime s') = inputs_unrouted (the_runtime s) + word_of_nat (length (filter is_unknown ys)) \<and>
     transition_total (the_machine s') = transition_total (the_machine s) + word_of_nat (length (filter is_entered ys)) \<and>
     rejection_total (the_machine s') = rejection_total (the_machine s) + word_of_nat (length (filter is_rejected ys))"

lemma answered_Nil: "answered reported [] s s"
  by (simp add: answered_def)

lemma answered_append: "answered reported ys s s1 \<Longrightarrow> answered reported zs s1 s2 \<Longrightarrow> answered reported (ys @ zs) s s2"
  by (simp add: answered_def)

locale recording_port = port_contract ops ready usable shown pending
  for ops :: "'p port_ops" and ready usable :: "'p \<Rightarrow> bool" and shown :: "'p \<Rightarrow> string option"
    and pending :: "'p \<Rightarrow> (string \<times> string) list" +
  fixes reported :: "'p \<Rightarrow> (string + string) list"
  assumes configure_reported: "reported (snd (po_configure ops io p)) = reported p"
    and open_reported: "reported (snd (po_open ops p)) = reported p"
    and close_reported: "reported (snd (po_close ops p)) = reported p"
    and listen_reported: "reported (snd (po_listen ops c p)) = reported p"
    and receive_reported: "reported (snd (snd (po_receive ops i ms p))) = reported p"
    and state_reported: "reported (snd (po_publish_state ops s p)) = reported p @ [Inl s]"
    and error_reported: "reported (snd (po_publish_error ops e p)) = reported p @ [Inr e]"
begin

lemma dispatch_answered:
  assumes "running m (the_machine s)"
  shows "reported (the_port (snd (rt_dispatch ops m t a s))) =
      reported (the_port s) @ [report_of (fired_answer m (sm_current (the_machine s)) t a)]"
    and "inputs_received (the_runtime (snd (rt_dispatch ops m t a s))) = inputs_received (the_runtime s)"
    and "inputs_unrouted (the_runtime (snd (rt_dispatch ops m t a s))) = inputs_unrouted (the_runtime s)"
    and "transition_total (the_machine (snd (rt_dispatch ops m t a s))) = transition_total (the_machine s) +
      word_of_nat (length (filter is_entered [fired_answer m (sm_current (the_machine s)) t a]))"
    and "rejection_total (the_machine (snd (rt_dispatch ops m t a s))) = rejection_total (the_machine s) +
      word_of_nat (length (filter is_rejected [fired_answer m (sm_current (the_machine s)) t a]))"
proof -
  let ?i = "sm_current (the_machine s)"
  from assms have sm: "sm_model (the_machine s) = Some m" "sm_started (the_machine s)" "model_ok m"
    by (simp_all add: running_def)
  obtain d j where d: "decide (behaviour m ?i t) a = (d, j)"
    by fastforce
  then have eval: "model_evaluate m ?i t a = (d, j)"
    by (simp add: evaluate_decide [OF sm(3)])
  have "reported (the_port (snd (rt_dispatch ops m t a s))) =
      reported (the_port s) @ [report_of (fired_answer m ?i t a)] \<and>
    inputs_received (the_runtime (snd (rt_dispatch ops m t a s))) = inputs_received (the_runtime s) \<and>
    inputs_unrouted (the_runtime (snd (rt_dispatch ops m t a s))) = inputs_unrouted (the_runtime s) \<and>
    transition_total (the_machine (snd (rt_dispatch ops m t a s))) = transition_total (the_machine s) +
      word_of_nat (length (filter is_entered [fired_answer m ?i t a])) \<and>
    rejection_total (the_machine (snd (rt_dispatch ops m t a s))) = rejection_total (the_machine s) +
      word_of_nat (length (filter is_rejected [fired_answer m ?i t a]))"
  proof (cases d)
    case DecisionAccepted
    have "running m (fire_event (t, a) (the_machine s))"
      using assms by (rule machine.inv_answer)
    then have "has_state m j"
      using sm eval DecisionAccepted by (simp add: running_def fire_event_def sm_fire_def)
    then obtain n where "model_state m j = Some n" "state_name m j = node_name n"
      by (auto simp: has_state_def model_state_def state_name_def)
    with sm d eval DecisionAccepted show ?thesis
      by (simp add: rt_dispatch_def sm_fire_def rt_publish_state_def fired_answer_def state_reported Let_def)
  qed (use sm d eval in \<open>simp_all add: rt_dispatch_def sm_fire_def rt_publish_rejection_def fired_answer_def
      shown_arguments_def error_reported Let_def empty_event_def text_simps cstr_def\<close>)
  then show "reported (the_port (snd (rt_dispatch ops m t a s))) =
      reported (the_port s) @ [report_of (fired_answer m ?i t a)]"
    "inputs_received (the_runtime (snd (rt_dispatch ops m t a s))) = inputs_received (the_runtime s)"
    "inputs_unrouted (the_runtime (snd (rt_dispatch ops m t a s))) = inputs_unrouted (the_runtime s)"
    "transition_total (the_machine (snd (rt_dispatch ops m t a s))) = transition_total (the_machine s) +
      word_of_nat (length (filter is_entered [fired_answer m ?i t a]))"
    "rejection_total (the_machine (snd (rt_dispatch ops m t a s))) = rejection_total (the_machine s) +
      word_of_nat (length (filter is_rejected [fired_answer m ?i t a]))"
    by blast+
qed

lemma service_answered:
  assumes "live usable shown m s" and "pending (the_port s) = ca # rest"
  shows "answered reported [model_answer m ca (sm_current (the_machine s))] s (snd (rt_service ops ms s))"
proof -
  obtain c arg where ca: "ca = (c, arg)"
    by fastforce
  obtain st b where parsed: "args_parse arg = (st, b)"
    by fastforce
  let ?t = "find_trigger_for_channel m c"
  obtain p where p: "po_receive ops empty_input ms (the_port s) = (Ok, \<lparr>in_channel = c, in_arguments = arg\<rparr>, p)" and
    service: "rt_service ops ms s =
      (let q = on_runtime (\<lambda>r. r\<lparr>inputs_received := inputs_received r + 1\<rparr>) (set_port p s);
           t = ?t; (st, b) = args_parse arg
       in if t = kNoTrigger then
            (Ok, rt_publish_unknown ops c (on_runtime (\<lambda>r. r\<lparr>inputs_unrouted := inputs_unrouted r + 1\<rparr>) q))
          else if st \<noteq> Ok then
            (Ok, rt_publish_bad_arguments ops m t st (on_runtime (\<lambda>r. r\<lparr>inputs_rejected := inputs_rejected r + 1\<rparr>)
               (on_runtime (rt_args_update (\<lambda>_. b)) q)))
          else (Ok, snd (rt_dispatch ops m t b (on_runtime (rt_args_update (\<lambda>_. b)) q))))"
    by (rule service_split [OF assms(1) assms(2) [unfolded ca], where ms = ms])
  define q where "q = on_runtime (\<lambda>r. r\<lparr>inputs_received := inputs_received r + 1\<rparr>) (set_port p s)"
  have q: "reported (the_port q) = reported (the_port s)" "the_machine q = the_machine s"
    "inputs_received (the_runtime q) = inputs_received (the_runtime s) + 1"
    "inputs_unrouted (the_runtime q) = inputs_unrouted (the_runtime s)"
    using receive_reported [of empty_input ms "the_port s"] by (simp_all add: q_def p)
  note step = service [unfolded q_def [symmetric] parsed Let_def split]
  have run: "running m (the_machine s)"
    using assms(1) by (simp add: live_def)
  consider "?t = kNoTrigger" | "?t \<noteq> kNoTrigger" "st \<noteq> Ok" | "?t \<noteq> kNoTrigger" "st = Ok"
    by blast
  then show ?thesis
  proof cases
    case 1
    with q show ?thesis
      by (simp add: step answered_def model_answer_def ca parsed rt_publish_unknown_def error_reported Let_def
          text_simps cstr_def)
  next
    case 2
    with q show ?thesis
      by (simp add: step answered_def model_answer_def ca parsed rt_publish_bad_arguments_def error_reported Let_def
          text_simps cstr_def)
  next
    case 3
    let ?q = "on_runtime (rt_args_update (\<lambda>_. b)) q"
    have "running m (the_machine ?q)"
      using run q(2) by simp
    from dispatch_answered [OF this, of ?t b] q 3 show ?thesis
      by (simp add: step answered_def model_answer_def ca parsed fired_answer_def split: prod.split decision.split)
  qed
qed

lemma run_phase_answered:
  assumes "live usable shown m s" and "run_phase ops fuel s = Some (status, s')"
    and "\<And>p. usable p \<Longrightarrow> pending p = [] \<Longrightarrow> fst (po_receive ops empty_input 100 p) = EndOfInput"
  shows "answered reported (answers (model_answer m) (next_state m) (pending (the_port s)) (sm_current (the_machine s))) s s'"
  using assms(1,2)
proof (induction fuel arbitrary: s)
  case (Suc fuel)
  show ?case
  proof (cases "pending (the_port s)")
    case Nil
    have "usable (the_port s)"
      using Suc(2) by (simp add: live_def)
    with Nil assms(3) service_idle [OF Suc(2) Nil, of 100]
    have idle: "fst (rt_service ops 100 s) = EndOfInput" "the_machine (snd (rt_service ops 100 s)) = the_machine s"
      "the_runtime (snd (rt_service ops 100 s)) = the_runtime s"
      by simp_all
    have "reported (the_port (snd (rt_service ops 100 s))) = reported (the_port s)"
      using Suc(2) receive_reported [of empty_input 100 "the_port s"] idle(1)
      by (auto simp: rt_service_def live_def Let_def split_beta split: if_splits)
    with idle Suc(3) Nil show ?thesis
      by (auto simp: split_beta Let_def answered_def)
  next
    case (Cons ca rest)
    note service = service_live [OF Suc(2) Cons, of 100]
    let ?s = "snd (rt_service ops 100 s)"
    have "running m (the_machine s)"
      using Suc(2) by (simp add: live_def)
    with service have "sm_current (the_machine ?s) = next_state m ca (sm_current (the_machine s))"
      by (simp add: input_effect_state)
    moreover have "run_phase ops fuel ?s = Some (status, s')"
      using Suc(3) service by (simp add: split_beta Let_def)
    ultimately have "answered reported (answers (model_answer m) (next_state m) rest (next_state m ca (sm_current (the_machine s)))) ?s s'"
      using Suc(1) [of ?s] service by simp
    from answered_append [OF service_answered [OF Suc(2) Cons] this] show ?thesis
      by (simp add: Cons)
  qed
qed simp

lemma listen_all_reported: "reported (snd (listen_all ops cs p)) = reported p"
  by (induction cs arbitrary: p) (auto simp: listen_reported split_beta Let_def)

lemma start_reported:
  assumes "machine_ok sm" and "sm_model sm = Some m" and "\<not> sm_started sm" and "ready p"
    and "fst (rt_start ops (snd (rt_init (system_of sm p)))) = Ok"
  shows "reported (the_port (snd (rt_start ops (snd (rt_init (system_of sm p)))))) =
      reported p @ [Inl (state_name m (sm_initial sm))]"
    and "inputs_unrouted (the_runtime (snd (rt_start ops (snd (rt_init (system_of sm p)))))) = 0"
    and "transition_total (the_machine (snd (rt_start ops (snd (rt_init (system_of sm p)))))) = 0"
    and "rejection_total (the_machine (snd (rt_start ops (snd (rt_init (system_of sm p)))))) = rejection_total sm"
proof -
  obtain n st p3 where sm: "transition_total sm = 0" "model_state m (sm_initial sm) = Some n" and
    p3: "p3 = snd (listen_all ops (map fst (channel_index m)) (snd (po_open ops (snd (po_configure ops (setup_io st) p)))))" and
    step: "snd (rt_start ops (snd (rt_init (system_of sm p)))) =
      (system_of (sm\<lparr>sm_current := sm_initial sm, sm_started := True\<rparr>)
         (snd (po_publish_state ops (node_name n) p3)))
       \<lparr>the_runtime := new_runtime\<lparr>rt_model := Some m, rt_setup := Some st, rt_machine_bound := True,
          rt_port_bound := True, rt_started := True\<rparr>\<rparr>"
    by (rule start_shape [OF assms])
  have name: "state_name m (sm_initial sm) = node_name n"
    using sm(2) by (simp add: state_name_def model_state_def)
  show "reported (the_port (snd (rt_start ops (snd (rt_init (system_of sm p)))))) =
      reported p @ [Inl (state_name m (sm_initial sm))]"
    unfolding step by (simp add: system_of_def state_reported p3 listen_all_reported open_reported configure_reported name)
  show "inputs_unrouted (the_runtime (snd (rt_start ops (snd (rt_init (system_of sm p)))))) = 0"
    "transition_total (the_machine (snd (rt_start ops (snd (rt_init (system_of sm p)))))) = 0"
    "rejection_total (the_machine (snd (rt_start ops (snd (rt_init (system_of sm p)))))) = rejection_total sm"
    unfolding step by (simp_all add: system_of_def new_runtime_def sm(1))
qed

end

section \<open>The console keeps every report\<close>

text \<open>What the console wrote of states and errors, in the order it did.\<close>

fun console_report :: "console_output \<Rightarrow> (string + string) list" where
  "console_report (CoutWrite s) = [Inl s]"
| "console_report (CerrWrite e) = [Inr e]"
| "console_report _ = []"

definition console_reports :: "console_port \<Rightarrow> (string + string) list" where
  "console_reports p = concat (map console_report (con_out p))"

lemma reports_emit: "console_reports (emit os p) = console_reports p @ concat (map console_report os)"
  by (simp add: console_reports_def emit_def)

lemma reports_update [simp]:
  "console_reports (p\<lparr>con_in := c\<rparr>) = console_reports p" "console_reports (p\<lparr>con_buffer := b\<rparr>) = console_reports p"
  "console_reports (p\<lparr>con_channels := cs\<rparr>) = console_reports p"
  by (simp_all add: console_reports_def)

lemma reports_print_help: "console_reports (print_help p) = console_reports p"
  by (simp add: print_help_def reports_emit comp_def)

lemma console_step_reports:
  "(case console_step input p of Inl (st, i, p') \<Rightarrow> console_reports p' | Inr p' \<Rightarrow> console_reports p') = console_reports p"
  by (auto simp: console_step_def reports_emit reports_print_help Let_def split: prod.split)

lemma console_receive_reports: "console_reports (snd (snd (console_receive input ms p))) = console_reports p"
proof (induction input ms p rule: console_receive.induct)
  case (1 input ms p)
  then show ?case
    using console_step_reports [of input p]
    by (subst console_receive.simps) (auto split: sum.splits prod.splits)
qed

interpretation con_log: recording_port console_ops console_usable console_usable console_shown console_pending console_reports
  by unfold_locales
    (simp_all add: console_ops_def console_defs console_receive_reports reports_emit Let_def split_beta)

text \<open>A whole session over the console: what it reported and what it counted.\<close>

lemma console_answers:
  fixes prompt hook :: bool and t :: string
  assumes "machine_ok sm" and "sm_model sm = Some m" and "\<not> sm_started sm" and "rejection_total sm = 0"
  defines "s \<equiv> snd (rt_start console_ops (snd (rt_init (system_of sm (new_console_port prompt t)))))"
    and "ys \<equiv> answers (model_answer m) (next_state m) (console_commands t) (sm_initial sm)"
  assumes "run_phase console_ops fuel (rt_set_trace hook s) = Some (status, s')"
  shows "console_reports (the_port s') = Inl (state_name m (sm_initial sm)) # map report_of ys"
    and "inputs_received (the_runtime s') = word_of_nat (length ys)"
    and "inputs_unrouted (the_runtime s') = word_of_nat (length (filter is_unknown ys))"
    and "transition_total (the_machine s') = word_of_nat (length (filter is_entered ys))"
    and "rejection_total (the_machine s') = word_of_nat (length (filter is_rejected ys))"
proof -
  have ready: "console_usable (new_console_port prompt t)"
    "console_pending (new_console_port prompt t) = console_commands t" "console_reports (new_console_port prompt t) = []"
    by (simp_all add: new_console_port_def console_usable_def console_pending_def console_reports_def)
  note started = console_start [OF assms(1-3), of prompt t]
  note live = con.start_live [OF assms(1-3) ready(1) started]
  note start = con_log.start_reported [OF assms(1-3) ready(1) started]
  have ends: "fst (po_receive console_ops empty_input 100 p) = EndOfInput"
    if "console_usable p" "console_pending p = []" for p
    using console_receive_spec [OF that(1), of empty_input 100] that(2) by (auto simp: console_ops_def)
  have hooked: "inputs_unrouted (the_runtime (rt_set_trace hook q)) = inputs_unrouted (the_runtime q)" for q :: "console_port system"
    by (simp add: rt_set_trace_def)
  have "live console_usable console_shown m (rt_set_trace hook s)"
    using live(1) by (simp add: s_def)
  from con_log.run_phase_answered [OF this assms(7) ends]
  have "answered console_reports ys (rt_set_trace hook s) s'"
    using initialised_started(3) [OF assms(1-3)] by (simp add: ys_def s_def live(2,4) ready(2))
  then show "console_reports (the_port s') = Inl (state_name m (sm_initial sm)) # map report_of ys"
    "inputs_received (the_runtime s') = word_of_nat (length ys)"
    "inputs_unrouted (the_runtime s') = word_of_nat (length (filter is_unknown ys))"
    "transition_total (the_machine s') = word_of_nat (length (filter is_entered ys))"
    "rejection_total (the_machine s') = word_of_nat (length (filter is_rejected ys))"
    using start live(5) by (simp_all add: answered_def hooked s_def ready(3) assms(4))
qed

end
