(* ===== verification/FileSemantics.thy ===== *)
theory FileSemantics
  imports MachineFiles Transcript
begin

text \<open>
  What the machine of a file does, on the file alone. \<open>file_step\<close> takes an input, a channel and
  an argument text, in a state given by its name: the trigger is the one the file declares on
  the channel, the alternatives are those the file lists under the state and the trigger, the
  first whose guard holds names the next state. A model built from the file and the runtime over
  it refine this machine; identifiers do not appear.
\<close>

section \<open>The machine of a file\<close>

definition trigger_on :: "machine_spec \<Rightarrow> string \<Rightarrow> string option" where
  "trigger_on spec c = map_option fst (first_match (\<lambda>t. channel_of_spec t = c) (ms_triggers spec))"

definition listed_at :: "machine_spec \<Rightarrow> string \<Rightarrow> string \<Rightarrow> alternative_spec list" where
  "listed_at spec s t = map (\<lambda>l. snd (snd l)) (filter (at s t) (links_of spec))"

definition taken :: "machine_spec \<Rightarrow> string \<Rightarrow> string \<Rightarrow> args \<Rightarrow> alternative_spec option" where
  "taken spec s t a = first_match (\<lambda>alt. guard_holds a (guard_spec (as_when alt))) (listed_at spec s t)"

definition file_step :: "machine_spec \<Rightarrow> string \<times> string \<Rightarrow> string \<Rightarrow> string" where
  "file_step spec ca s =
     (case (trigger_on spec (fst ca), args_parse (snd ca)) of
        (Some t, Ok, a) \<Rightarrow> (case taken spec s t a of Some alt \<Rightarrow> as_target alt | None \<Rightarrow> s)
      | _ \<Rightarrow> s)"

section \<open>Names and identifiers\<close>

text \<open>A model built from a file.\<close>

definition of_file :: "machine_spec \<Rightarrow> model \<Rightarrow> bool" where
  "of_file spec m \<longleftrightarrow> linked (map ss_name (ms_states spec)) (map fst (ms_triggers spec)) m (links_of spec) \<and>
     trigger_names m = map (\<lambda>t. (fst t, channel_of_spec t)) (ms_triggers spec) \<and> mdl_name m = label_of spec"

lemma built_of_file: "build_machine spec = Inr m \<Longrightarrow> of_file spec m"
  by (simp add: of_file_def built_tables)

lemma of_fileD:
  assumes "of_file spec m"
  shows "model_ok m" "state_names m = map ss_name (ms_states spec)"
    and "trigger_names m = map (\<lambda>t. (fst t, channel_of_spec t)) (ms_triggers spec)"
    and "list_all (link_known (map ss_name (ms_states spec)) (map fst (ms_triggers spec))) (links_of spec)"
proof -
  show "model_ok m"
    using assms by (auto simp: of_file_def intro: linkedD(1))
qed (use assms in \<open>simp_all add: of_file_def linked_def\<close>)

lemma named_state:
  assumes "model_ok m" and "has_state m i"
  shows "find_state m (state_name m i) = i" "state_name m i \<in> set (state_names m)"
proof -
  from assms(2) obtain n where n: "model_state m i = Some n"
    by (auto simp: has_state_def model_state_def)
  then have "i \<noteq> kNoState"
    using no_such_state [OF model_okD(1) [OF assms(1)]] assms(2) by auto
  with n show "find_state m (state_name m i) = i"
    by (simp add: find_state_iff [OF assms(1)] state_name_def)
  show "state_name m i \<in> set (state_names m)"
    using n by (auto simp: names_in_tables(1) [OF assms(1)] state_name_def)
qed

lemma state_of_name:
  assumes "model_ok m" and "s \<in> set (state_names m)"
  shows "has_state m (find_state m s)" "state_name m (find_state m s) = s"
proof -
  have "find_state m s \<noteq> kNoState"
    using assms find_known(1) by blast
  then show "has_state m (find_state m s)" "state_name m (find_state m s) = s"
    using find_state_iff [OF assms(1), of "find_state m s" s] by (auto simp: has_state_def model_state_def state_name_def)
qed

text \<open>A channel leads to the trigger the file declares on it.\<close>

lemma channel_of_file:
  assumes "of_file spec m"
  shows "find_trigger_for_channel m c = (case trigger_on spec c of None \<Rightarrow> kNoTrigger | Some t \<Rightarrow> find_trigger m t)"
    and "trigger_on spec c = Some t \<Longrightarrow> t \<in> set (map fst (ms_triggers spec)) \<and> find_trigger m t \<noteq> kNoTrigger"
proof -
  note facts = of_fileD [OF assms]
  have known: "t \<in> set (map fst (ms_triggers spec)) \<and> find_trigger m t \<noteq> kNoTrigger" if "trigger_on spec c = Some t" for t
    using that first_match_SomeD [of _ "ms_triggers spec"] find_known(2) [OF facts(1), of t] facts(3)
    by (force simp: trigger_on_def image_image)
  then show "trigger_on spec c = Some t \<Longrightarrow> t \<in> set (map fst (ms_triggers spec)) \<and> find_trigger m t \<noteq> kNoTrigger" .
  show "find_trigger_for_channel m c = (case trigger_on spec c of None \<Rightarrow> kNoTrigger | Some t \<Rightarrow> find_trigger m t)"
  proof (cases "trigger_on spec c")
    case None
    then have "c \<notin> snd ` set (trigger_names m)"
      by (auto simp: facts(3) trigger_on_def first_match_None_iff)
    with None find_known(3) [OF facts(1)] show ?thesis
      by simp
  next
    case (Some t)
    then have "(t, c) \<in> set (trigger_names m)"
      using first_match_SomeD [of _ "ms_triggers spec"] by (force simp: facts(3) trigger_on_def)
    then obtain i d where d: "model_trigger m i = Some d" "td_name d = t" "td_channel d = c"
      by (auto simp: names_in_tables(2) [OF facts(1)])
    then have "i \<noteq> kNoTrigger"
      using trigger_id_not_none [OF model_okD(1) [OF facts(1)]] by (auto simp: model_trigger_def)
    with d Some find_trigger_iff [OF facts(1)] find_trigger_for_channel_iff [OF facts(1)] show ?thesis
      by (metis option.simps(5))
  qed
qed

section \<open>The model refines the file\<close>

lemma trigger_named:
  assumes "model_ok m" and "e \<in> set (triggers m)"
  shows "find_trigger m (td_name (snd e)) = fst e" "trigger_name m (fst e) = td_name (snd e)"
proof -
  have d: "model_trigger m (fst e) = Some (snd e)"
    using assms model_okD(1) [OF assms(1)] by (simp add: model_trigger_def tables_ok_def dense_fm_ok fm_find_iff)
  then have "fst e \<noteq> kNoTrigger"
    using trigger_id_not_none [OF model_okD(1) [OF assms(1)]] by (auto simp: model_trigger_def)
  with d find_trigger_iff [OF assms(1)] show "find_trigger m (td_name (snd e)) = fst e"
    by blast
  show "trigger_name m (fst e) = td_name (snd e)"
    using d by (simp add: trigger_name_def)
qed

lemma first_match_map: "first_match P (map f xs) = map_option f (first_match (\<lambda>x. P (f x)) xs)"
  by (induction xs) auto

text \<open>A decision of the model is the alternative the file takes.\<close>

lemma decide_taken:
  assumes "of_file spec m" and "s \<in> set (map ss_name (ms_states spec))" and "t \<in> set (map fst (ms_triggers spec))"
  shows "decide (behaviour m (find_state m s) (find_trigger m t)) a =
    (if listed_at spec s t = [] then (DecisionNoTransition, kNoState)
     else case taken spec s t a of None \<Rightarrow> (DecisionGuardRejected, kNoState)
          | Some alt \<Rightarrow> (DecisionAccepted, find_state m (as_target alt)))"
proof -
  have "behaviour m (find_state m s) (find_trigger m t) =
      map (\<lambda>alt. (guard_spec (as_when alt), find_state m (as_target alt))) (listed_at spec s t)"
    using assms by (simp add: of_file_def linked_def listed_at_def comp_def)
  then show ?thesis
    by (auto simp: decide_def taken_def first_match_map split: option.split)
qed

lemma taken_target:
  assumes "of_file spec m" and "taken spec s t a = Some alt"
  shows "as_target alt \<in> set (state_names m)"
proof -
  have "alt \<in> set (listed_at spec s t)"
    using assms(2) by (auto simp: taken_def dest: first_match_SomeD)
  then show ?thesis
    using of_fileD [OF assms(1)] by (auto simp: listed_at_def list_all_iff link_known_def)
qed

lemma file_step_next:
  assumes "of_file spec m" and "has_state m i"
  shows "has_state m (next_state m ca i) \<and> state_name m (next_state m ca i) = file_step spec ca (state_name m i)"
proof (cases "trigger_on spec (fst ca)")
  case None
  with assms channel_of_file(1) [OF assms(1)] show ?thesis
    by (simp add: next_state_def file_step_def Let_def split_beta)
next
  case (Some t)
  note facts = of_fileD [OF assms(1)]
  note here = named_state [OF facts(1) assms(2)]
  have t: "t \<in> set (map fst (ms_triggers spec))" "find_trigger_for_channel m (fst ca) = find_trigger m t"
    "find_trigger m t \<noteq> kNoTrigger"
    using channel_of_file [OF assms(1)] Some by simp_all
  have decision: "decide (behaviour m i (find_trigger m t)) a =
      (if listed_at spec (state_name m i) t = [] then (DecisionNoTransition, kNoState)
       else case taken spec (state_name m i) t a of None \<Rightarrow> (DecisionGuardRejected, kNoState)
            | Some alt \<Rightarrow> (DecisionAccepted, find_state m (as_target alt)))" for a
    using decide_taken [OF assms(1), of "state_name m i" t a] here facts(2) t(1) by simp
  have target: "has_state m (find_state m (as_target alt))" "state_name m (find_state m (as_target alt)) = as_target alt"
    if "taken spec (state_name m i) t a = Some alt" for a alt
    using state_of_name [OF facts(1) taken_target [OF assms(1) that]] by simp_all
  have none: "taken spec (state_name m i) t a = None" if "listed_at spec (state_name m i) t = []" for a
    using that by (simp add: taken_def)
  obtain status a where parse: "args_parse (snd ca) = (status, a)"
    by fastforce
  show ?thesis
  proof (cases "status = Ok \<and> taken spec (state_name m i) t a \<noteq> None")
    case True
    then obtain alt where alt: "taken spec (state_name m i) t a = Some alt" "status = Ok"
      by auto
    with none have "listed_at spec (state_name m i) t \<noteq> []"
      by force
    with alt parse decision Some t target [OF alt(1)] show ?thesis
      by (simp add: next_state_def file_step_def)
  next
    case False
    then have "next_state m ca i = i" "file_step spec ca (state_name m i) = state_name m i"
      using parse decision Some t none by (auto simp: next_state_def file_step_def split: option.split status.split)
    with assms(2) show ?thesis
      by simp
  qed
qed

lemma file_run_next:
  assumes "of_file spec m"
  shows "has_state m i \<Longrightarrow> has_state m (fold (next_state m) cas i) \<and>
    state_name m (fold (next_state m) cas i) = fold (file_step spec) cas (state_name m i)"
  using file_step_next [OF assms] by (induction cas arbitrary: i) simp_all

text \<open>The answer to an input in a state of the file.\<close>

definition file_answer :: "machine_spec \<Rightarrow> string \<times> string \<Rightarrow> string \<Rightarrow> answer" where
  "file_answer spec ca s =
     (case trigger_on spec (fst ca) of
        None \<Rightarrow> UnknownChannel (fst ca)
      | Some t \<Rightarrow>
          (let (parsed, a) = args_parse (snd ca)
           in if parsed \<noteq> Ok then BadArguments t parsed
              else if listed_at spec s t = [] then Rejected t s None
              else (case taken spec s t a of
                      None \<Rightarrow> Rejected t s (Some (shown_arguments a))
                    | Some alt \<Rightarrow> Entered (as_target alt))))"

lemma file_answer_model:
  assumes "of_file spec m" and "has_state m i"
  shows "model_answer m ca i = file_answer spec ca (state_name m i)"
proof (cases "trigger_on spec (fst ca)")
  case None
  with channel_of_file(1) [OF assms(1)] show ?thesis
    by (simp add: model_answer_def file_answer_def Let_def split_beta)
next
  case (Some t)
  note facts = of_fileD [OF assms(1)]
  have t: "t \<in> set (map fst (ms_triggers spec))" "find_trigger m t \<noteq> kNoTrigger"
      "find_trigger_for_channel m (fst ca) = find_trigger m t"
    using channel_of_file [OF assms(1)] Some by simp_all
  have name: "trigger_name m (find_trigger m t) = t"
  proof -
    from t(1) facts(3) have "t \<in> fst ` set (trigger_names m)"
      by (auto simp: image_image)
    then obtain e where "e \<in> set (triggers m)" "td_name (snd e) = t"
      by (auto simp: trigger_names_def)
    with trigger_named [OF facts(1)] show ?thesis
      by metis
  qed
  have here: "state_name m i \<in> set (map ss_name (ms_states spec))" "find_state m (state_name m i) = i"
    using named_state [OF facts(1) assms(2)] facts(2) by simp_all
  have decision: "decide (behaviour m i (find_trigger m t)) a =
      (if listed_at spec (state_name m i) t = [] then (DecisionNoTransition, kNoState)
       else case taken spec (state_name m i) t a of None \<Rightarrow> (DecisionGuardRejected, kNoState)
            | Some alt \<Rightarrow> (DecisionAccepted, find_state m (as_target alt)))" for a
    using decide_taken [OF assms(1) here(1) t(1)] here(2) by simp
  have target: "state_name m (find_state m (as_target alt)) = as_target alt"
    if "taken spec (state_name m i) t a = Some alt" for a alt
    using state_of_name [OF facts(1) taken_target [OF assms(1) that]] by simp
  obtain parsed a where "args_parse (snd ca) = (parsed, a)"
    by fastforce
  with Some t name decision target show ?thesis
    by (auto simp: model_answer_def file_answer_def fired_answer_def split: option.split)
qed

lemma file_answers:
  assumes "of_file spec m"
  shows "has_state m i \<Longrightarrow> answers (model_answer m) (next_state m) cas i =
    answers (file_answer spec) (file_step spec) cas (state_name m i)"
  using file_answer_model [OF assms] file_step_next [OF assms] by (induction cas arbitrary: i) simp_all

section \<open>What a loaded machine does\<close>

lemma loaded_of_file:
  assumes "reads ops root doc" and "yn_load_text ops (cstr yaml) = Inr root" and "machine_of doc = Some spec"
    and "load_machine_string ops (Some yaml) m0 d0 = (Ok, m, d)"
  shows "of_file spec m"
  using guarded_machine_decoded [OF assms(1,3)] assms(2,4) built_of_file [of spec m]
  by (auto simp: load_machine_string_def split: sum.splits)

text \<open>C3: a machine that loads decides as its file reads: in the state of a name, on the trigger
  found for a channel and with every arguments, the alternatives are those the file lists under
  the state for the trigger declared on the channel; the first whose guard holds is taken, to
  the state it names, and without one the answer tells a trigger that is not listed from one
  whose guards all fail.\<close>

theorem machine_file_decides:
  assumes "reads ops root doc" and "yn_load_text ops (cstr yaml) = Inr root" and "machine_of doc = Some spec"
    and "load_machine_string ops (Some yaml) m0 d0 = (Ok, m, d)"
    and "s \<in> set (map ss_name (ms_states spec))" and "trigger_on spec c = Some t"
  shows "case model_evaluate m (find_state m s) (find_trigger_for_channel m c) a of (decision, next_id) \<Rightarrow>
    (case taken spec s t a of
       Some alt \<Rightarrow> decision = DecisionAccepted \<and> state_name m next_id = as_target alt
     | None \<Rightarrow> decision = (if listed_at spec s t = [] then DecisionNoTransition else DecisionGuardRejected))"
proof -
  note shown = loaded_of_file [OF assms(1-4)]
  have "t \<in> set (map fst (ms_triggers spec))" "find_trigger_for_channel m c = find_trigger m t"
    using channel_of_file [OF shown] assms(6) by simp_all
  with decide_taken [OF shown assms(5)] evaluate_decide [OF of_fileD(1) [OF shown]]
  have "model_evaluate m (find_state m s) (find_trigger_for_channel m c) a =
      (if listed_at spec s t = [] then (DecisionNoTransition, kNoState)
       else case taken spec s t a of None \<Rightarrow> (DecisionGuardRejected, kNoState)
            | Some alt \<Rightarrow> (DecisionAccepted, find_state m (as_target alt)))"
    by simp
  with taken_target [OF shown, of s t a] state_of_name(2) [OF of_fileD(1) [OF shown]] show ?thesis
    by (auto simp: taken_def split: option.split)
qed

theorem machine_file_decides_witness:
  "case load_machine_string file_library (Some ''text'') model_clear diagnostics_reset of (status, m, d) \<Rightarrow>
    (case model_evaluate m (find_state m ''running'') (find_trigger_for_channel m ''brakes/on'') args_none of
       (decision, next_id) \<Rightarrow> decision = DecisionAccepted \<and> state_name m next_id = ''stuck'')"
proof -
  obtain m d where load: "load_machine_string file_library (Some ''text'') model_clear diagnostics_reset = (Ok, m, d)"
    using file_spec_loads by (metis prod.collapse)
  have names: "''running'' \<in> set (map ss_name (ms_states file_spec))" "trigger_on file_spec ''brakes/on'' = Some ''halt''"
    by code_simp+
  have "taken file_spec ''running'' ''halt'' args_none = Some \<lparr>as_when = NoWhen, as_target = ''stuck''\<rparr>"
    by code_simp
  with machine_file_decides [OF file_library_reads file_library_loads machine_of_doc load names, of args_none] show ?thesis
    by (simp add: load split_beta)
qed

end
