(* ===== verification/Lint.thy ===== *)
theory Lint
  imports StateMachine InspectText
begin

text \<open>
  include/fms/inspect/lint.hpp and src/inspect/lint.cpp: the linter, a read-only walk over a
  model that records findings in a report of fixed capacity. The back of the stack of states
  still to visit is the head of the list that models it; the array of visited states is a list
  of its length. A pointer to a text in the condition pool is that text. Bounds of the interval
  fold are 64-bit in the source and stay within two of the 32-bit range, so they are integers
  here.
\<close>

section \<open>Findings\<close>

datatype check =
    UnreachableState
  | DeadEndState
  | UnusedTrigger
  | UnreachableAlternative
  | ImpossibleGuard
  | ShadowedAlternative

datatype severity = Warning | Error

record finding =
  f_check :: check
  f_state :: state_id
  f_trigger :: trigger_id
  f_alternative :: u8
  f_other :: u8

definition empty_finding :: finding where
  "empty_finding = \<lparr>f_check = UnreachableState, f_state = kNoState, f_trigger = kNoTrigger,
     f_alternative = 0, f_other = 0\<rparr>"

type_synonym report = "finding list"

definition lint_record :: "report \<Rightarrow> finding \<Rightarrow> bool \<times> report" where
  "lint_record report finding =
     (if length report = kMaxFindings then (False, report) else (True, report @ [finding]))"

text \<open>\<open>room = record(report, finding) && room\<close>.\<close>

definition record_in :: "finding \<Rightarrow> bool \<times> report \<Rightarrow> bool \<times> report" where
  "record_in finding acc =
     (let (recorded, report) = lint_record (snd acc) finding in (recorded \<and> fst acc, report))"

section \<open>Reachability\<close>

definition visit_target :: "state_id \<Rightarrow> bool list \<times> state_id list \<Rightarrow> bool list \<times> state_id list" where
  "visit_target target acc =
     (let (reached, pending) = acc
      in if unat target < length reached \<and> \<not> reached ! unat target
         then (reached[unat target := True], target # pending)
         else (reached, pending))"

definition visit_node :: "state_node \<Rightarrow> bool list \<times> state_id list \<Rightarrow> bool list \<times> state_id list" where
  "visit_node node acc =
     fold (\<lambda>transition. fold (\<lambda>alternative. visit_target (alt_target alternative)) (snd transition))
       (transitions node) acc"

definition work_left :: "bool list \<times> state_id list \<Rightarrow> nat" where
  "work_left acc = 2 * length (filter Not (fst acc)) + length (snd acc)"

lemma filter_Not_update: "i < length bs \<Longrightarrow> \<not> bs ! i \<Longrightarrow>
    length (filter Not bs) = Suc (length (filter Not (bs[i := True])))"
  by (induction bs arbitrary: i) (auto simp: nth_Cons' list_update.simps split: nat.splits)

lemma visit_target_work: "work_left (visit_target t acc) \<le> work_left acc"
  using filter_Not_update [of "unat t" "fst acc"]
  by (auto simp: visit_target_def work_left_def split_beta)

definition node_targets :: "state_node \<Rightarrow> state_id list" where
  "node_targets node = concat (map (\<lambda>transition. map alt_target (snd transition)) (transitions node))"

lemma visit_node_targets: "visit_node node acc = fold visit_target (node_targets node) acc"
proof -
  have "fold (\<lambda>transition. fold (\<lambda>alternative. visit_target (alt_target alternative)) (snd transition)) ts acc =
      fold visit_target (concat (map (\<lambda>transition. map alt_target (snd transition)) ts)) acc"
    for ts :: "(trigger_id, alternatives) flat_map"
    by (induction ts arbitrary: acc) (simp_all add: fold_map comp_def)
  then show ?thesis
    by (simp add: visit_node_def node_targets_def)
qed

lemma visit_targets_work: "work_left (fold visit_target ts acc) \<le> work_left acc"
proof (induction ts arbitrary: acc)
  case (Cons t ts)
  show ?case
    using Cons [of "visit_target t acc"] visit_target_work [of t acc] by simp
qed simp

text \<open>The start, one round of the loop, which takes a state off the stack and pushes what it leads to
  and was not reached, and the loop.\<close>

definition reach_start :: "state_id \<Rightarrow> bool list \<times> state_id list" where
  "reach_start initial = ((replicate kMaxStates False)[unat initial := True], [initial])"

fun reach_step :: "model \<Rightarrow> bool list \<times> state_id list \<Rightarrow> bool list \<times> state_id list" where
  "reach_step m (reached, []) = (reached, [])"
| "reach_step m (reached, from # pending) =
     (case model_state m from of None \<Rightarrow> (reached, pending) | Some node \<Rightarrow> visit_node node (reached, pending))"

lemma reach_step_work: "snd acc \<noteq> [] \<Longrightarrow> work_left (reach_step m acc) < work_left acc"
proof (cases "(m, acc)" rule: reach_step.cases)
  case (2 m' reached "from" pending)
  have "work_left (visit_node node (reached, pending)) \<le> work_left (reached, pending)" for node
    unfolding visit_node_targets by (rule visit_targets_work)
  with 2 show ?thesis
    by (auto simp: work_left_def le_imp_less_Suc split: option.split)
qed simp

function reach_loop :: "model \<Rightarrow> bool list \<times> state_id list \<Rightarrow> bool list" where
  "reach_loop m acc = (if snd acc = [] then fst acc else reach_loop m (reach_step m acc))"
  by pat_completeness auto
termination
  by (relation "measure (\<lambda>(m, acc). work_left acc)") (simp_all add: reach_step_work)

declare reach_loop.simps [simp del]

definition reached_from :: "model \<Rightarrow> state_id \<Rightarrow> bool list" where
  "reached_from m initial = reach_loop m (reach_start initial)"

definition check_reachability :: "model \<Rightarrow> state_id \<Rightarrow> report \<Rightarrow> bool \<times> report" where
  "check_reachability m initial report =
     (if initial = kNoState \<or> \<not> has_state m initial then (True, report)
      else
        let reached = reached_from m initial
        in fold (\<lambda>(i, node) acc.
             if unat i < kMaxStates \<and> \<not> reached ! unat i then
               record_in (empty_finding\<lparr>f_check := UnreachableState, f_state := i\<rparr>) acc
             else acc) (states m) (True, report))"

section \<open>Dead ends and unused triggers\<close>

definition leaves :: "state_id \<Rightarrow> state_node \<Rightarrow> bool" where
  "leaves i node =
     fold (\<lambda>transition. fold (\<lambda>alternative l. if alt_target alternative \<noteq> i then True else l) (snd transition))
       (transitions node) False"

definition check_dead_ends :: "model \<Rightarrow> report \<Rightarrow> bool \<times> report" where
  "check_dead_ends m report =
     fold (\<lambda>(i, node) acc.
       if \<not> leaves i node then
         record_in (empty_finding\<lparr>f_check := DeadEndState, f_state := i\<rparr>) acc
       else acc) (states m) (True, report)"

definition used_triggers :: "model \<Rightarrow> bool list" where
  "used_triggers m =
     fold (\<lambda>entry. fold (\<lambda>transition used.
         if unat (fst transition) < kMaxTriggers then used[unat (fst transition) := True] else used)
       (transitions (snd entry))) (states m) (replicate kMaxTriggers False)"

definition check_unused_triggers :: "model \<Rightarrow> report \<Rightarrow> bool \<times> report" where
  "check_unused_triggers m report =
     (let used = used_triggers m
      in fold (\<lambda>(i, d) acc.
           if unat i < kMaxTriggers \<and> \<not> used ! unat i then
             record_in (empty_finding\<lparr>f_check := UnusedTrigger, f_trigger := i\<rparr>) acc
           else acc) (triggers m) (True, report))"

section \<open>Guards\<close>

definition same_condition :: "condition \<Rightarrow> condition \<Rightarrow> bool" where
  "same_condition left right =
     (if cond_arg left \<noteq> cond_arg right \<or> cond_op left \<noteq> cond_op right \<or>
         cond_numeric left \<noteq> cond_numeric right then False
      else if cond_numeric left then cond_number left = cond_number right
      else cond_literal left = cond_literal right)"

text \<open>Does one of the first \<open>n\<close> conditions of \<open>later\<close> equal the condition \<open>c\<close>?\<close>

definition has_same :: "condition list \<Rightarrow> alternative \<Rightarrow> condition \<Rightarrow> bool" where
  "has_same pool later c \<longleftrightarrow>
     list_ex (\<lambda>j. let other = unat (first_condition later) + j
                  in other < length pool \<and> same_condition c (pool ! other))
       [0..<unat (condition_count later)]"

definition implies :: "model \<Rightarrow> alternative \<Rightarrow> alternative \<Rightarrow> bool" where
  "implies m earlier later \<longleftrightarrow>
     list_all (\<lambda>i. let index = unat (first_condition earlier) + i
                   in index < length (conditions m) \<and>
                      has_same (conditions m) later (conditions m ! index))
       [0..<unat (condition_count earlier)]"

definition kIntMin :: int where "kIntMin = - 2147483647 - 1"
definition kIntMax :: int where "kIntMax = 2147483647"

record argument_facts =
  fact_low :: int
  fact_high :: int
  fact_excluded :: "int list"
  fact_forbidden :: "string list"
  fact_numeric_seen :: bool
  fact_required :: "string option"
  fact_contradicted :: bool

definition empty_facts :: argument_facts where
  "empty_facts = \<lparr>fact_low = kIntMin, fact_high = kIntMax, fact_excluded = [], fact_forbidden = [],
     fact_numeric_seen = False, fact_required = None, fact_contradicted = False\<rparr>"

definition fold_numeric :: "condition \<Rightarrow> argument_facts \<Rightarrow> argument_facts" where
  "fold_numeric c facts =
     (let facts = facts\<lparr>fact_numeric_seen := True\<rparr>; literal = cond_number c
      in case cond_op c of
           Equal \<Rightarrow> facts\<lparr>fact_low := (if literal > fact_low facts then literal else fact_low facts),
                      fact_high := (if literal < fact_high facts then literal else fact_high facts)\<rparr>
         | NotEqual \<Rightarrow> (if length (fact_excluded facts) < kMaxConditionsPerGuard
                        then facts\<lparr>fact_excluded := fact_excluded facts @ [cond_number c]\<rparr> else facts)
         | Less \<Rightarrow> facts\<lparr>fact_high := (if literal - 1 < fact_high facts then literal - 1 else fact_high facts)\<rparr>
         | LessEqual \<Rightarrow> facts\<lparr>fact_high := (if literal < fact_high facts then literal else fact_high facts)\<rparr>
         | Greater \<Rightarrow> facts\<lparr>fact_low := (if literal + 1 > fact_low facts then literal + 1 else fact_low facts)\<rparr>
         | GreaterEqual \<Rightarrow> facts\<lparr>fact_low := (if literal > fact_low facts then literal else fact_low facts)\<rparr>)"

definition fold_text :: "condition \<Rightarrow> argument_facts \<Rightarrow> argument_facts" where
  "fold_text c facts =
     (if cond_op c = Equal then
        let facts = (case fact_required facts of
                       Some r \<Rightarrow> if r \<noteq> cond_literal c then facts\<lparr>fact_contradicted := True\<rparr> else facts
                     | None \<Rightarrow> facts)
        in facts\<lparr>fact_required := Some (cond_literal c)\<rparr>
      else if cond_op c = NotEqual \<and> length (fact_forbidden facts) < kMaxConditionsPerGuard then
        facts\<lparr>fact_forbidden := fact_forbidden facts @ [cond_literal c]\<rparr>
      else facts)"

definition fold_facts :: "condition list \<Rightarrow> nat \<Rightarrow> nat \<Rightarrow> string \<Rightarrow> argument_facts" where
  "fold_facts pool begins count argument =
     fold (\<lambda>i facts.
       let c = pool ! (begins + i)
       in if cond_arg c \<noteq> argument then facts
          else if cond_numeric c then fold_numeric c facts else fold_text c facts)
       [0..<count] empty_facts"

definition excluded_inside :: "argument_facts \<Rightarrow> int" where
  "excluded_inside facts =
     fold (\<lambda>i distinct_values.
       let v = fact_excluded facts ! i
       in if v < fact_low facts \<or> v > fact_high facts then distinct_values
          else if list_ex (\<lambda>j. fact_excluded facts ! j = v) [0..<i] then distinct_values
          else distinct_values + 1)
       [0..<length (fact_excluded facts)] 0"

definition unsatisfiable :: "argument_facts \<Rightarrow> bool" where
  "unsatisfiable facts =
     (if fact_contradicted facts \<or> fact_low facts > fact_high facts then True
      else
        let by_text = (case fact_required facts of
                         None \<Rightarrow> False
                       | Some r \<Rightarrow> if fact_numeric_seen facts then True
                                   else list_ex (\<lambda>w. w = r) (fact_forbidden facts))
        in if by_text then True
           else
             let span = fact_high facts - fact_low facts + 1
             in span \<le> int (length (fact_excluded facts)) \<and> excluded_inside facts \<ge> span)"

definition guard_impossible :: "model \<Rightarrow> alternative \<Rightarrow> bool" where
  "guard_impossible m alternative =
     (let pool = conditions m; begins = unat (first_condition alternative);
          count = unat (condition_count alternative)
      in if begins + count > length pool then False
         else list_ex (\<lambda>i.
                let argument = cond_arg (pool ! (begins + i));
                    done_before = list_ex (\<lambda>j. cond_arg (pool ! (begins + j)) = argument) [0..<i]
                in \<not> done_before \<and> unsatisfiable (fold_facts pool begins count argument))
              [0..<count])"

section \<open>The alternatives of one trigger\<close>

definition first_implying :: "model \<Rightarrow> alternatives \<Rightarrow> nat \<Rightarrow> nat option" where
  "first_implying m alternatives i =
     first_match (\<lambda>j. implies m (alternatives ! j) (alternatives ! i)) [0..<i]"

fun alternatives_loop ::
  "model \<Rightarrow> state_id \<Rightarrow> trigger_id \<Rightarrow> alternatives \<Rightarrow> nat list \<Rightarrow> u8 \<Rightarrow> bool \<times> report \<Rightarrow> bool \<times> report" where
  "alternatives_loop m state trigger alternatives [] fallback acc = acc"
| "alternatives_loop m state trigger alternatives (i # is) fallback acc =
     (let alternative = alternatives ! i;
          finding = empty_finding\<lparr>f_state := state, f_trigger := trigger, f_alternative := word_of_nat (i + 1)\<rparr>
      in if fallback \<noteq> 0 then
           alternatives_loop m state trigger alternatives is fallback
             (record_in (finding\<lparr>f_check := UnreachableAlternative, f_other := fallback\<rparr>) acc)
         else if condition_count alternative = 0 then
           alternatives_loop m state trigger alternatives is (word_of_nat (i + 1)) acc
         else if guard_impossible m alternative then
           alternatives_loop m state trigger alternatives is fallback
             (record_in (finding\<lparr>f_check := ImpossibleGuard\<rparr>) acc)
         else
           alternatives_loop m state trigger alternatives is fallback
             (case first_implying m alternatives i of
                None \<Rightarrow> acc
              | Some j \<Rightarrow>
                  record_in (finding\<lparr>f_check := ShadowedAlternative, f_other := word_of_nat (j + 1)\<rparr>) acc))"

definition check_alternatives ::
  "model \<Rightarrow> state_id \<Rightarrow> trigger_id \<Rightarrow> alternatives \<Rightarrow> report \<Rightarrow> bool \<times> report" where
  "check_alternatives m state trigger alternatives report =
     alternatives_loop m state trigger alternatives [0..<length alternatives] 0 (True, report)"

section \<open>The walk\<close>

definition analyse :: "model \<Rightarrow> state_id \<Rightarrow> report \<Rightarrow> status \<times> report" where
  "analyse m initial report =
     (let (room, report) = check_reachability m initial report;
          (room, report) = (let (r, report) = check_dead_ends m report in (r \<and> room, report));
          (room, report) = (let (r, report) = check_unused_triggers m report in (r \<and> room, report));
          (room, report) =
            fold (\<lambda>entry. fold (\<lambda>transition (room, report).
                let (r, report) = check_alternatives m (fst entry) (fst transition) (snd transition) report
                in (r \<and> room, report)) (transitions (snd entry))) (states m) (room, report)
      in (if room then Ok else CapacityExceeded, report))"

section \<open>Reading a report\<close>

fun severity_of :: "check \<Rightarrow> severity" where
  "severity_of DeadEndState = Warning"
| "severity_of UnusedTrigger = Warning"
| "severity_of UnreachableState = Error"
| "severity_of UnreachableAlternative = Error"
| "severity_of ImpossibleGuard = Error"
| "severity_of ShadowedAlternative = Error"

fun check_to_string :: "check \<Rightarrow> string" where
  "check_to_string UnreachableState = ''unreachable-state''"
| "check_to_string DeadEndState = ''dead-end-state''"
| "check_to_string UnusedTrigger = ''unused-trigger''"
| "check_to_string UnreachableAlternative = ''unreachable-alternative''"
| "check_to_string ImpossibleGuard = ''impossible-guard''"
| "check_to_string ShadowedAlternative = ''shadowed-alternative''"

definition severity_to_string :: "severity \<Rightarrow> string" where
  "severity_to_string severity = (if severity = Error then ''error'' else ''warning'')"

definition has_errors :: "report \<Rightarrow> bool" where
  "has_errors report \<longleftrightarrow> list_ex (\<lambda>finding. severity_of (f_check finding) = Error) report"

text \<open>The conditions of a guard, as \<open>describe\<close> lists them.\<close>

fun append_guard :: "condition list \<Rightarrow> nat \<Rightarrow> nat list \<Rightarrow> string \<Rightarrow> string" where
  "append_guard pool begins [] out = out"
| "append_guard pool begins (i # is) out =
     (let index = begins + i
      in if length pool \<le> index then out
         else
           let out = (if 0 < i then append_clipped kMaxMessageLength out (cstr '' and '') else out)
           in append_guard pool begins is (append_condition kMaxMessageLength out (pool ! index)))"

definition describe :: "model \<Rightarrow> finding \<Rightarrow> string" where
  "describe m finding =
     (let app = append_clipped kMaxMessageLength;
          state_text = cstr (state_name m (f_state finding));
          trigger_text = cstr (trigger_name m (f_trigger finding));
          out = []
      in case f_check finding of
           UnreachableState \<Rightarrow>
             app (app (app out (cstr (''state '' @ quote))) state_text) (cstr (quote @ '' cannot be reached from the initial state''))
         | DeadEndState \<Rightarrow>
             app (app (app out (cstr (''state '' @ quote))) state_text) (cstr (quote @ '' has no transition to another state''))
         | UnusedTrigger \<Rightarrow>
             app (app (app out (cstr (''trigger '' @ quote))) trigger_text) (cstr (quote @ '' is declared but no state lists it''))
         | _ \<Rightarrow>
             let out = app out (cstr (''state '' @ quote));
                 out = app out state_text;
                 out = app out (cstr (quote @ '', trigger '' @ quote));
                 out = app out trigger_text;
                 out = app out (cstr (quote @ '', alternative ''));
                 out = append_int kMaxMessageLength out (uint (f_alternative finding))
             in case f_check finding of
                  UnreachableAlternative \<Rightarrow>
                    let out = app out (cstr '': alternative '');
                        out = append_int kMaxMessageLength out (uint (f_other finding))
                    in app out (cstr '' has no guard, so nothing after it is reached'')
                | ImpossibleGuard \<Rightarrow>
                    let out = app out (cstr '': the guard can never hold ('');
                        listed = (case model_state m (f_state finding) of
                                    None \<Rightarrow> None
                                  | Some node \<Rightarrow> fm_find (transitions node) (f_trigger finding));
                        out = (case listed of
                                 None \<Rightarrow> out
                               | Some alternatives \<Rightarrow>
                                   if 0 < f_alternative finding \<and> unat (f_alternative finding) \<le> length alternatives
                                   then
                                     let alternative = alternatives ! (unat (f_alternative finding) - 1)
                                     in append_guard (conditions m) (unat (first_condition alternative))
                                          [0..<unat (condition_count alternative)] out
                                   else out)
                    in app out (cstr '')'')
                | ShadowedAlternative \<Rightarrow>
                    let out = app out (cstr '': alternative '');
                        out = append_int kMaxMessageLength out (uint (f_other finding))
                    in app out (cstr '' holds whenever this one would'')
                | _ \<Rightarrow> out)"

section \<open>Passes that append to a report of fixed capacity\<close>

text \<open>
  A pass that has something to say about a model appends it, in order, as far as there is room,
  and tells whether all of it fitted.
\<close>

locale reporting_pass =
  fixes pass :: "report \<Rightarrow> bool \<times> report"
    and found :: "finding list"
  assumes pass_found: "length r \<le> kMaxFindings \<Longrightarrow>
    pass r = (length r + length found \<le> kMaxFindings, take kMaxFindings (r @ found))"
begin

lemma pass_bound: "length r \<le> kMaxFindings \<Longrightarrow> length (snd (pass r)) \<le> kMaxFindings"
  by (simp add: pass_found)

lemma pass_keeps: "length r \<le> kMaxFindings \<Longrightarrow> \<exists>fs. snd (pass r) = r @ fs"
  by (simp add: pass_found)

lemma pass_all: "length r \<le> kMaxFindings \<Longrightarrow> fst (pass r) \<Longrightarrow> snd (pass r) = r @ found"
  by (simp add: pass_found)

lemma pass_full: "length r \<le> kMaxFindings \<Longrightarrow> \<not> fst (pass r) \<Longrightarrow> length (snd (pass r)) = kMaxFindings"
  by (simp add: pass_found)

lemma pass_quiet: "length r \<le> kMaxFindings \<Longrightarrow> found = [] \<Longrightarrow> pass r = (True, r)"
  by (simp add: pass_found)

end

text \<open>Passes one after the other, as \<open>analyse\<close> runs them.\<close>

lemma passes_compose:
  assumes "reporting_pass p1 f1" and "reporting_pass p2 f2"
  shows "reporting_pass (\<lambda>r. let (room, r) = p1 r; (ok, r) = p2 r in (ok \<and> room, r)) (f1 @ f2)"
proof
  fix r :: report
  assume r: "length r \<le> kMaxFindings"
  have "p1 r = (length r + length f1 \<le> kMaxFindings, take kMaxFindings (r @ f1))"
    by (rule reporting_pass.pass_found [OF assms(1) r])
  moreover have "p2 (take kMaxFindings (r @ f1)) =
      (length (take kMaxFindings (r @ f1)) + length f2 \<le> kMaxFindings,
       take kMaxFindings (take kMaxFindings (r @ f1) @ f2))"
    by (rule reporting_pass.pass_found [OF assms(2)]) simp
  ultimately show "(let (room, r) = p1 r; (ok, r) = p2 r in (ok \<and> room, r)) =
      (length r + length (f1 @ f2) \<le> kMaxFindings, take kMaxFindings (r @ f1 @ f2))"
    using r by (auto simp: min_def)
qed

lemma passes_none: "reporting_pass (\<lambda>r. (True, r)) []"
  by unfold_locales simp

lemma fold_passes:
  assumes "\<And>x. x \<in> set xs \<Longrightarrow> reporting_pass (p x) (f x)" and "length r \<le> kMaxFindings"
  shows "fold (\<lambda>x (room, r). let (ok, r) = p x r in (ok \<and> room, r)) xs (room, r) =
    (room \<and> length r + length (concat (map f xs)) \<le> kMaxFindings,
     take kMaxFindings (r @ concat (map f xs)))"
  using assms
proof (induction xs arbitrary: room r)
  case (Cons x xs)
  have p: "p x r = (length r + length (f x) \<le> kMaxFindings, take kMaxFindings (r @ f x))"
    using Cons.prems by (intro reporting_pass.pass_found) simp_all
  have "fold (\<lambda>x (room, r). let (ok, r) = p x r in (ok \<and> room, r)) xs (b, take kMaxFindings (r @ f x)) =
    (b \<and> length (take kMaxFindings (r @ f x)) + length (concat (map f xs)) \<le> kMaxFindings,
     take kMaxFindings (take kMaxFindings (r @ f x) @ concat (map f xs)))" for b
    using Cons.prems by (intro Cons.IH) simp_all
  then show ?case
    by (cases "length r + length (f x) \<le> kMaxFindings") (simp_all add: p min_def add.assoc)
qed simp

lemma record_all:
  "length r \<le> kMaxFindings \<Longrightarrow> fold record_in fs (room, r) =
    (room \<and> length r + length fs \<le> kMaxFindings, take kMaxFindings (r @ fs))"
  by (induction fs arbitrary: room r) (auto simp: record_in_def lint_record_def take_Cons')

lemma reporting_record: "reporting_pass (\<lambda>r. fold record_in fs (True, r)) fs"
  by unfold_locales (simp add: record_all)

text \<open>A walk that records something for some of the entries it passes.\<close>

lemma record_walk:
  "fold (\<lambda>(i, n) acc. if P i n then record_in (F i) acc else acc) xs acc =
    fold record_in (map (\<lambda>(i, n). F i) (filter (\<lambda>(i, n). P i n) xs)) acc"
  by (induction xs arbitrary: acc) auto

section \<open>What each pass finds\<close>

definition unreachable_found :: "model \<Rightarrow> state_id \<Rightarrow> finding list" where
  "unreachable_found m initial =
     (if initial = kNoState \<or> \<not> has_state m initial then []
      else map (\<lambda>(i, n). empty_finding\<lparr>f_check := UnreachableState, f_state := i\<rparr>)
        (filter (\<lambda>(i, n). unat i < kMaxStates \<and> \<not> reached_from m initial ! unat i) (states m)))"

definition dead_end_found :: "model \<Rightarrow> finding list" where
  "dead_end_found m =
     map (\<lambda>(i, n). empty_finding\<lparr>f_check := DeadEndState, f_state := i\<rparr>)
       (filter (\<lambda>(i, n). \<not> leaves i n) (states m))"

definition unused_found :: "model \<Rightarrow> finding list" where
  "unused_found m =
     map (\<lambda>(i, d). empty_finding\<lparr>f_check := UnusedTrigger, f_trigger := i\<rparr>)
       (filter (\<lambda>(i, d). unat i < kMaxTriggers \<and> \<not> used_triggers m ! unat i) (triggers m))"

interpretation reachability_pass: reporting_pass "check_reachability m initial" "unreachable_found m initial"
  for m initial
  by unfold_locales
    (simp add: check_reachability_def unreachable_found_def record_walk record_all Let_def)

interpretation dead_end_pass: reporting_pass "check_dead_ends m" "dead_end_found m" for m
  by unfold_locales (simp add: check_dead_ends_def dead_end_found_def record_walk record_all)

interpretation unused_pass: reporting_pass "check_unused_triggers m" "unused_found m" for m
  by unfold_locales
    (simp add: check_unused_triggers_def unused_found_def record_walk record_all Let_def)

text \<open>What is wrong with the alternative at position \<open>i\<close>, the most fundamental thing first.\<close>

definition fallback_before :: "alternatives \<Rightarrow> nat \<Rightarrow> nat option" where
  "fallback_before alts i = first_match (\<lambda>j. condition_count (alts ! j) = 0) [0..<i]"

definition verdict :: "model \<Rightarrow> alternatives \<Rightarrow> nat \<Rightarrow> (check \<times> u8) option" where
  "verdict m alts i =
     (case fallback_before alts i of
        Some j \<Rightarrow> Some (UnreachableAlternative, word_of_nat (j + 1))
      | None \<Rightarrow>
          if condition_count (alts ! i) = 0 then None
          else if guard_impossible m (alts ! i) then Some (ImpossibleGuard, 0)
          else map_option (\<lambda>j. (ShadowedAlternative, word_of_nat (j + 1))) (first_implying m alts i))"

definition finding_at :: "model \<Rightarrow> state_id \<Rightarrow> trigger_id \<Rightarrow> alternatives \<Rightarrow> nat \<Rightarrow> finding list" where
  "finding_at m s t alts i =
     (case verdict m alts i of
        None \<Rightarrow> []
      | Some (c, other) \<Rightarrow> [\<lparr>f_check = c, f_state = s, f_trigger = t,
          f_alternative = word_of_nat (i + 1), f_other = other\<rparr>])"

definition alternatives_found :: "model \<Rightarrow> state_id \<Rightarrow> trigger_id \<Rightarrow> alternatives \<Rightarrow> finding list" where
  "alternatives_found m s t alts = concat (map (finding_at m s t alts) [0..<length alts])"

definition fallback_mark :: "nat option \<Rightarrow> u8" where
  "fallback_mark f = (case f of None \<Rightarrow> 0 | Some j \<Rightarrow> word_of_nat (j + 1))"

lemma fallback_before_Suc: "fallback_before alts (Suc i) =
    (case fallback_before alts i of Some j \<Rightarrow> Some j
     | None \<Rightarrow> if condition_count (alts ! i) = 0 then Some i else None)"
  by (simp add: fallback_before_def first_match_append split: option.split)

lemma fallback_before_less: "fallback_before alts i = Some j \<Longrightarrow> j < i \<and> condition_count (alts ! j) = 0"
  by (auto simp: fallback_before_def dest: first_match_SomeD)

lemma u8_Suc_nonzero:
  assumes "j < 255"
  shows "1 + (word_of_nat j :: u8) \<noteq> 0"
proof -
  have "unat (word_of_nat (Suc j) :: u8) = Suc j"
    using assms by (intro unat_u8_of_nat) simp
  moreover have "(word_of_nat (Suc j) :: u8) = 1 + word_of_nat j"
    by simp
  ultimately show ?thesis
    by (metis unat_0 nat.distinct(1))
qed

lemma alternatives_loop_found:
  assumes "length alts \<le> 255" and "i \<le> length alts"
  shows "alternatives_loop m s t alts [i..<length alts] (fallback_mark (fallback_before alts i)) acc =
    fold record_in (concat (map (finding_at m s t alts) [i..<length alts])) acc"
  using assms(2)
proof (induction "length alts - i" arbitrary: i acc)
  case 0
  then show ?case
    by simp
next
  case (Suc d)
  then have i: "[i..<length alts] = i # [Suc i..<length alts]"
    by (simp add: upt_conv_Cons)
  have IH: "alternatives_loop m s t alts [Suc i..<length alts] (fallback_mark (fallback_before alts (Suc i))) acc =
    fold record_in (concat (map (finding_at m s t alts) [Suc i..<length alts])) acc" for acc
    using Suc by simp
  note here = i finding_at_def [of m s t alts i] verdict_def [of m alts i] fallback_before_Suc empty_finding_def
  show ?case
  proof (cases "fallback_before alts i")
    case (Some j)
    then have "fallback_mark (fallback_before alts i) \<noteq> 0" "fallback_before alts (Suc i) = Some j"
      using fallback_before_less [OF Some] u8_Suc_nonzero [of j] assms(1) Suc.prems
      by (simp_all add: fallback_mark_def fallback_before_Suc)
    with Some IH show ?thesis
      by (simp add: here fallback_mark_def)
  next
    case None
    then have "fallback_mark (fallback_before alts i) = 0"
      by (simp add: fallback_mark_def)
    with None IH show ?thesis
      by (cases "condition_count (alts ! i) = 0"; cases "first_implying m alts i")
        (simp_all add: here fallback_mark_def)
  qed
qed

lemma alternatives_pass: "length alts \<le> 255 \<Longrightarrow>
    reporting_pass (check_alternatives m s t alts) (alternatives_found m s t alts)"
  using alternatives_loop_found [of alts 0 m s t]
  by (intro reporting_pass.intro)
    (simp add: check_alternatives_def alternatives_found_def record_all fallback_before_def fallback_mark_def)

section \<open>The whole report\<close>

definition guards_found :: "model \<Rightarrow> finding list" where
  "guards_found m =
     concat (map (\<lambda>(s, node). concat (map (\<lambda>(t, alts). alternatives_found m s t alts) (transitions node)))
       (states m))"

definition all_found :: "model \<Rightarrow> state_id \<Rightarrow> finding list" where
  "all_found m initial =
     unreachable_found m initial @ dead_end_found m @ unused_found m @ guards_found m"

lemma take_append_take: "take n (take n xs @ ys) = take n (xs @ ys)"
  by (cases "length xs \<le> n") simp_all

lemma fold_nested:
  "fold (\<lambda>e. fold (g e) (h e)) xs acc = fold (\<lambda>x. g (fst x) (snd x)) (concat (map (\<lambda>e. map (Pair e) (h e)) xs)) acc"
  by (induction xs arbitrary: acc) (simp_all add: fold_map comp_def)

lemma analyse_found:
  assumes "model_ok m" and "length r \<le> kMaxFindings"
  shows "analyse m initial r =
    (if length r + length (all_found m initial) \<le> kMaxFindings then Ok else CapacityExceeded,
     take kMaxFindings (r @ all_found m initial))"
proof -
  let ?xs = "concat (map (\<lambda>e. map (Pair e) (transitions (snd e))) (states m))"
  let ?p = "\<lambda>x. check_alternatives m (fst (fst x)) (fst (snd x)) (snd (snd x))"
  let ?f = "\<lambda>x. alternatives_found m (fst (fst x)) (fst (snd x)) (snd (snd x))"
  have walk: "fold (\<lambda>entry. fold (\<lambda>transition (room, report).
        let (r, report) = check_alternatives m (fst entry) (fst transition) (snd transition) report
        in (r \<and> room, report)) (transitions (snd entry))) (states m) (room, q) =
      (room \<and> length q + length (guards_found m) \<le> kMaxFindings, take kMaxFindings (q @ guards_found m))"
    if "length q \<le> kMaxFindings" for room q
  proof -
    have "reporting_pass (?p x) (?f x)" if "x \<in> set ?xs" for x
      using that alternatives_short(2) [OF assms(1)] alternatives_pass
      by (fastforce simp: kMaxAlternatives_def)
    from fold_passes [where xs = ?xs and p = ?p and f = ?f and r = q and room = room, OF this that]
    have "fold (\<lambda>x (room, r). let (ok, r) = ?p x r in (ok \<and> room, r)) ?xs (room, q) =
      (room \<and> length q + length (concat (map ?f ?xs)) \<le> kMaxFindings, take kMaxFindings (q @ concat (map ?f ?xs)))"
      by simp
    moreover have "concat (map ?f (concat (map (\<lambda>e. map (Pair e) (transitions (snd e))) es))) =
      concat (map (\<lambda>(s, node). concat (map (\<lambda>(t, alts). alternatives_found m s t alts) (transitions node))) es)"
      for es
      by (induction es) (simp_all add: split_beta comp_def)
    then have "concat (map ?f ?xs) = guards_found m"
      by (simp only: guards_found_def)
    ultimately show ?thesis
      unfolding fold_nested by (simp add: split_beta)
  qed
  let ?P = "\<lambda>r. let (room, r) = (let (room, r) = check_reachability m initial r; (ok, r) = check_dead_ends m r
       in (ok \<and> room, r)); (ok, r) = check_unused_triggers m r in (ok \<and> room, r)"
  let ?F = "(unreachable_found m initial @ dead_end_found m) @ unused_found m"
  have "reporting_pass ?P ?F"
    by (intro passes_compose reachability_pass.reporting_pass_axioms dead_end_pass.reporting_pass_axioms
        unused_pass.reporting_pass_axioms)
  from reporting_pass.pass_found [OF this assms(2)]
  have P: "?P r = (length r + length ?F \<le> kMaxFindings, take kMaxFindings (r @ ?F))" .
  have "analyse m initial r =
      (let (room, q) = ?P r;
           (room, q) = fold (\<lambda>entry. fold (\<lambda>transition (room, report).
               let (r, report) = check_alternatives m (fst entry) (fst transition) (snd transition) report
               in (r \<and> room, report)) (transitions (snd entry))) (states m) (room, q)
       in (if room then Ok else CapacityExceeded, q))"
    by (simp add: analyse_def Let_def split_beta)
  also have "\<dots> = (if length r + length ?F \<le> kMaxFindings \<and>
        length (take kMaxFindings (r @ ?F)) + length (guards_found m) \<le> kMaxFindings then Ok else CapacityExceeded,
      take kMaxFindings (take kMaxFindings (r @ ?F) @ guards_found m))"
    unfolding P using walk [of "take kMaxFindings (r @ ?F)"] by (simp only: Let_def split length_take min.cobounded2 min.bounded_iff)
  also have "take kMaxFindings (take kMaxFindings (r @ ?F) @ guards_found m) = take kMaxFindings (r @ all_found m initial)"
    unfolding take_append_take by (simp add: all_found_def)
  also have "(length r + length ?F \<le> kMaxFindings \<and>
        length (take kMaxFindings (r @ ?F)) + length (guards_found m) \<le> kMaxFindings) \<longleftrightarrow>
      length r + length (all_found m initial) \<le> kMaxFindings"
    using assms(2) by (auto simp: all_found_def min_def)
  finally show ?thesis .
qed

section \<open>Which states the walk reaches\<close>

lemma node_targets_edge:
  assumes "model_ok m" and "model_state m s = Some node"
  shows "set (node_targets node) = {s'. edge m s s'}"
proof -
  have "fm_ok (transitions node)"
    using model_okD(3) [OF assms(1)] assms(2) by (simp add: node_ok_def model_state_def)
  then have listed: "(t, alts) \<in> set (transitions node) \<longleftrightarrow> fm_find (transitions node) t = Some alts" for t alts
    by (simp add: fm_find_iff)
  have "alternatives_of m s t = (case fm_find (transitions node) t of None \<Rightarrow> [] | Some alts \<Rightarrow> alts)" for t
    using assms(2) by (simp add: alternatives_of_def model_state_def)
  then have "alt \<in> set (alternatives_of m s t) \<longleftrightarrow> (\<exists>alts. (t, alts) \<in> set (transitions node) \<and> alt \<in> set alts)" for t alt
    by (cases "fm_find (transitions node) t") (simp_all add: listed)
  then have "edge m s s' \<longleftrightarrow> (\<exists>t alts. (t, alts) \<in> set (transitions node) \<and> s' \<in> alt_target ` set alts)" for s'
    unfolding edge_def by (simp add: image_iff Bex_def) blast
  moreover have "s' \<in> set (node_targets node) \<longleftrightarrow>
      (\<exists>t alts. (t, alts) \<in> set (transitions node) \<and> s' \<in> alt_target ` set alts)" for s'
    by (simp add: node_targets_def Bex_def split_paired_Ex)
  ultimately show ?thesis
    by blast
qed

lemma visit_targets:
  assumes "fold visit_target ts (reached, pending) = (reached', pending')"
  shows "length reached' = length reached \<and>
    (\<forall>s. unat s < length reached \<longrightarrow> reached' ! unat s = (reached ! unat s \<or> s \<in> set ts)) \<and>
    set pending' = set pending \<union> {t \<in> set ts. unat t < length reached \<and> \<not> reached ! unat t}"
  using assms
proof (induction ts arbitrary: reached pending)
  case (Cons t ts)
  show ?case
  proof (cases "unat t < length reached \<and> \<not> reached ! unat t")
    case True
    with Cons.prems have "fold visit_target ts (reached[unat t := True], t # pending) = (reached', pending')"
      by (simp add: visit_target_def [of t])
    from Cons.IH [OF this] True show ?thesis
      by (auto simp: nth_list_update word_unat_eq_iff [symmetric])
  next
    case False
    with Cons.prems have "fold visit_target ts (reached, pending) = (reached', pending')"
      by (simp add: visit_target_def [of t] split: if_splits)
    from Cons.IH [OF this] False show ?thesis
      by auto
  qed
qed simp

definition stack_ok :: "bool list \<times> state_id list \<Rightarrow> bool" where
  "stack_ok acc \<longleftrightarrow> length (fst acc) = kMaxStates \<and> distinct (snd acc) \<and>
     (\<forall>s \<in> set (snd acc). unat s < kMaxStates \<and> fst acc ! unat s)"

lemma stack_ok_length: "stack_ok acc \<Longrightarrow> length (snd acc) \<le> kMaxStates"
proof -
  assume ok: "stack_ok acc"
  have "inj_on unat (set (snd acc))"
    by (rule inj_onI) (simp add: word_unat_eq_iff)
  with ok have "length (snd acc) = card (unat ` set (snd acc))"
    by (simp add: stack_ok_def card_image distinct_card)
  also have "\<dots> \<le> card {..<kMaxStates}"
    using ok by (intro card_mono) (auto simp: stack_ok_def)
  finally show ?thesis
    by simp
qed

lemma stack_ok_visit: "stack_ok acc \<Longrightarrow> stack_ok (visit_target t acc)"
  by (cases acc) (auto simp: stack_ok_def visit_target_def nth_list_update)

lemma stack_ok_visits: "stack_ok acc \<Longrightarrow> stack_ok (fold visit_target ts acc)"
  by (induction ts arbitrary: acc) (simp_all add: stack_ok_visit)

definition walk_ok :: "model \<Rightarrow> state_id \<Rightarrow> bool list \<Rightarrow> state_id list \<Rightarrow> bool" where
  "walk_ok m initial reached pending \<longleftrightarrow> stack_ok (reached, pending) \<and> unat initial < kMaxStates \<and> reached ! unat initial \<and>
     (\<forall>s. unat s < kMaxStates \<and> reached ! unat s \<longrightarrow> (edge m)\<^sup>*\<^sup>* initial s) \<and>
     (\<forall>s s'. unat s < kMaxStates \<and> reached ! unat s \<and> s \<notin> set pending \<and> edge m s s' \<longrightarrow> reached ! unat s')"

lemma edge_bound: "model_ok m \<Longrightarrow> edge m s s' \<Longrightarrow> unat s' < kMaxStates"
  using alternatives_of_ok(1) [of m s] state_id_bound [of m s'] model_okD(1) [of m]
  by (fastforce simp: edge_def list_all_iff alternative_ok_def has_state_def tables_ok_def)

lemma edge_from: "model_state m s = None \<Longrightarrow> \<not> edge m s s'"
  by (simp add: edge_def alternatives_of_def model_state_def)

lemma walk_step:
  assumes m: "model_ok m" and ok: "walk_ok m initial reached (from # pending)"
    and node: "model_state m from = Some node"
    and step: "visit_node node (reached, pending) = (reached', pending')"
  shows "walk_ok m initial reached' pending'"
proof -
  note v = visit_targets [OF step [unfolded visit_node_targets]]
  have targets: "set (node_targets node) = {s'. edge m from s'}"
    using m node by (rule node_targets_edge)
  have stack: "stack_ok (reached, pending)" "unat from < kMaxStates" "reached ! unat from"
    "from \<notin> set pending" "length reached = kMaxStates"
    using ok by (auto simp: walk_ok_def stack_ok_def)
  then have "stack_ok (reached', pending')"
    using stack_ok_visits step visit_node_targets by metis
  note visited = this
  have known: "unat initial < kMaxStates" "reached ! unat initial"
    "\<And>s. unat s < kMaxStates \<Longrightarrow> reached ! unat s \<Longrightarrow> (edge m)\<^sup>*\<^sup>* initial s"
    "\<And>s s'. unat s < kMaxStates \<Longrightarrow> reached ! unat s \<Longrightarrow> s \<notin> set (from # pending) \<Longrightarrow> edge m s s' \<Longrightarrow>
       reached ! unat s'"
    using ok by (auto simp: walk_ok_def)
  have now: "reached' ! unat s \<longleftrightarrow> reached ! unat s \<or> edge m from s" if "unat s < kMaxStates" for s
    using v that stack(5) targets by simp
  have "(edge m)\<^sup>*\<^sup>* initial s" if "unat s < kMaxStates" "reached' ! unat s" for s
    using now [OF that(1)] that known(3) [of s] known(3) [OF stack(2,3)]
    by (auto intro: rtranclp.rtrancl_into_rtrancl)
  moreover have "reached' ! unat s'"
    if s: "unat s < kMaxStates" "reached' ! unat s" "s \<notin> set pending'" "edge m s s'" for s s'
  proof -
    have bound: "unat s' < kMaxStates"
      by (rule edge_bound [OF m s(4)])
    have "reached ! unat s" "s \<notin> set pending"
      using v s(1-3) stack(5) by auto
    then show ?thesis
      using now [OF bound] s(1,4) known(4) [of s s'] by (cases "s = from") auto
  qed
  moreover have "reached' ! unat initial"
    using now [OF known(1)] known(2) by simp
  ultimately show ?thesis
    using visited known(1) unfolding walk_ok_def by blast
qed

lemma walk_skip:
  assumes "walk_ok m initial reached (from # pending)" and "model_state m from = None"
  shows "walk_ok m initial reached pending"
  using assms(1) edge_from [OF assms(2)] unfolding walk_ok_def stack_ok_def
  by simp (metis)

lemma walk_round:
  assumes "model_ok m" and "walk_ok m initial (fst acc) (snd acc)"
  shows "walk_ok m initial (fst (reach_step m acc)) (snd (reach_step m acc))"
proof (cases "(m, acc)" rule: reach_step.cases)
  case (2 m' reached "from" pending)
  show ?thesis
  proof (cases "model_state m from")
    case None
    with 2 walk_skip [of m initial reached "from" pending] assms(2) show ?thesis
      by simp
  next
    case (Some node)
    with 2 walk_step [OF assms(1) _ Some, where reached' = "fst (visit_node node (reached, pending))"
        and pending' = "snd (visit_node node (reached, pending))"] assms(2) show ?thesis
      by simp
  qed
qed (use assms(2) in simp)

lemma reach_loop_closed:
  "model_ok m \<Longrightarrow> walk_ok m initial (fst acc) (snd acc) \<Longrightarrow> walk_ok m initial (reach_loop m acc) []"
proof (induction m acc rule: reach_loop.induct)
  case (1 m acc)
  show ?case
  proof (cases "snd acc = []")
    case True
    with 1(3) show ?thesis
      by (simp add: reach_loop.simps [of m acc])
  next
    case False
    with 1(1) [OF False 1(2) walk_round [OF 1(2,3)]] show ?thesis
      by (simp add: reach_loop.simps [of m acc])
  qed
qed

lemma has_state_bound: "model_ok m \<Longrightarrow> has_state m s \<Longrightarrow> unat s < kMaxStates"
  using state_id_bound [of m s] model_okD(1) [of m] by (fastforce simp: has_state_def tables_ok_def)

lemma edge_has_state: "model_ok m \<Longrightarrow> edge m s s' \<Longrightarrow> has_state m s'"
  using alternatives_of_ok(1) [of m s] by (fastforce simp: edge_def list_all_iff alternative_ok_def)

text \<open>The array the walk leaves marks exactly the states a path of transitions leads to.\<close>

lemma reached_from_exact:
  assumes "model_ok m" and "has_state m initial" and "unat s < kMaxStates"
  shows "reached_from m initial ! unat s \<longleftrightarrow> (edge m)\<^sup>*\<^sup>* initial s"
proof -
  let ?r = "(replicate kMaxStates False)[unat initial := True]"
  have i: "unat initial < kMaxStates"
    using assms(1,2) by (rule has_state_bound)
  then have "?r ! unat q \<longleftrightarrow> q = initial" if "unat q < kMaxStates" for q
    using that by (simp add: nth_list_update word_unat_eq_iff eq_commute)
  with i have "walk_ok m initial ?r [initial]"
    unfolding walk_ok_def stack_ok_def by auto
  then have walk: "walk_ok m initial (reached_from m initial) []"
    unfolding reached_from_def by (intro reach_loop_closed [OF assms(1)]) (simp add: reach_start_def)
  have "reached_from m initial ! unat s" if "(edge m)\<^sup>*\<^sup>* initial s"
    using that
  proof (induction rule: rtranclp_induct)
    case base
    with walk show ?case
      by (simp add: walk_ok_def)
  next
    case (step y z)
    have "unat y < kMaxStates"
      using step.hyps(1) i by cases (auto dest: edge_bound [OF assms(1)])
    with step walk show ?case
      unfolding walk_ok_def by simp
  qed
  with walk assms(3) show ?thesis
    by (auto simp: walk_ok_def)
qed

text \<open>
  The walk round by round: \<open>walked\<close> says that the states taken off the stack and those still on
  it are all different, and are exactly the marked ones.
\<close>

definition walked :: "state_id list \<Rightarrow> bool list \<times> state_id list \<Rightarrow> bool" where
  "walked taken acc \<longleftrightarrow> length (fst acc) = kMaxStates \<and> distinct (taken @ snd acc) \<and>
     (\<forall>s. s \<in> set (taken @ snd acc) \<longleftrightarrow> unat s < kMaxStates \<and> fst acc ! unat s)"

definition reach_walk :: "model \<Rightarrow> state_id \<Rightarrow> nat \<Rightarrow> bool list \<times> state_id list" where
  "reach_walk m initial n = (reach_step m ^^ n) (reach_start initial)"

definition taken_off :: "model \<Rightarrow> state_id \<Rightarrow> nat \<Rightarrow> state_id list" where
  "taken_off m initial n = map (\<lambda>k. hd (snd (reach_walk m initial k))) [0..<n]"

lemma walked_start: "unat initial < kMaxStates \<Longrightarrow> walked [] (reach_start initial)"
  by (auto simp: walked_def reach_start_def nth_list_update word_unat_eq_iff [symmetric])

lemma walked_length:
  assumes "walked taken acc"
  shows "length taken + length (snd acc) \<le> kMaxStates"
proof -
  have "stack_ok (fst acc, taken @ snd acc)"
    using assms by (simp add: walked_def stack_ok_def)
  from stack_ok_length [OF this] show ?thesis
    by simp
qed

lemma walked_visit: "walked taken acc \<Longrightarrow> walked taken (visit_target t acc)"
  by (cases acc) (auto simp: walked_def visit_target_def nth_list_update word_unat_eq_iff [symmetric])

lemma walked_visits: "walked taken acc \<Longrightarrow> walked taken (fold visit_target ts acc)"
  by (induction ts arbitrary: acc) (simp_all add: walked_visit)

lemma walked_step:
  assumes "walked taken acc" and "snd acc \<noteq> []"
  shows "walked (taken @ [hd (snd acc)]) (reach_step m acc)"
proof (cases "(m, acc)" rule: reach_step.cases)
  case (2 m' reached "from" pending)
  then have "walked (taken @ [from]) (reached, pending)"
    using assms(1) by (auto simp: walked_def)
  with 2 walked_visits show ?thesis
    by (auto simp: visit_node_targets split: option.split)
qed (use assms(2) in simp)

text \<open>Visiting a state only pushes, so the stack is longest at the end of a round.\<close>

lemma visits_grow: "length (snd acc) \<le> length (snd (fold visit_target ts acc))"
proof (induction ts arbitrary: acc)
  case (Cons t ts)
  have "length (snd acc) \<le> length (snd (visit_target t acc))"
    by (simp add: visit_target_def split_beta)
  with Cons [of "visit_target t acc"] show ?case
    by simp
qed simp

lemma reach_loop_rounds:
  "\<exists>n. (reach_step m ^^ n) acc = (reach_loop m acc, []) \<and> (\<forall>k < n. snd ((reach_step m ^^ k) acc) \<noteq> [])"
proof (induction m acc rule: reach_loop.induct)
  case (1 m acc)
  show ?case
  proof (cases "snd acc = []")
    case True
    then show ?thesis
      by (intro exI [of _ 0]) (simp add: reach_loop.simps [of m acc] prod_eq_iff)
  next
    case False
    from 1 [OF False] obtain n where "(reach_step m ^^ n) (reach_step m acc) = (reach_loop m (reach_step m acc), [])"
      "\<forall>k < n. snd ((reach_step m ^^ k) (reach_step m acc)) \<noteq> []"
      by blast
    with False show ?thesis
      by (intro exI [of _ "Suc n"]) (auto simp: reach_loop.simps [of m acc] less_Suc_eq_0_disj funpow_Suc_right
          simp del: funpow.simps)
  qed
qed

lemma walked_rounds:
  assumes "unat initial < kMaxStates"
  shows "(\<And>k. k < n \<Longrightarrow> snd (reach_walk m initial k) \<noteq> []) \<Longrightarrow> walked (taken_off m initial n) (reach_walk m initial n)"
proof (induction n)
  case 0
  show ?case
    by (simp add: taken_off_def reach_walk_def walked_start [OF assms])
next
  case (Suc n)
  then have "walked (taken_off m initial n) (reach_walk m initial n)" "snd (reach_walk m initial n) \<noteq> []"
    by simp_all
  from walked_step [OF this] show ?case
    by (simp add: taken_off_def reach_walk_def)
qed

lemma states_entry: "model_ok m \<Longrightarrow> (i, n) \<in> set (states m) \<longleftrightarrow> model_state m i = Some n"
  using fm_find_iff [of "states m" i n] dense_fm_ok [of "states m"] model_okD(1) [of m]
  by (simp add: model_state_def tables_ok_def)

lemma triggers_entry: "model_ok m \<Longrightarrow> (i, d) \<in> set (triggers m) \<longleftrightarrow> model_trigger m i = Some d"
  using fm_find_iff [of "triggers m" i d] dense_fm_ok [of "triggers m"] model_okD(1) [of m]
  by (simp add: model_trigger_def tables_ok_def)

lemma unreachable_found_iff:
  assumes "model_ok m" and "has_state m initial"
  shows "f \<in> set (unreachable_found m initial) \<longleftrightarrow>
    (\<exists>s. f = empty_finding\<lparr>f_check := UnreachableState, f_state := s\<rparr> \<and>
       has_state m s \<and> \<not> (edge m)\<^sup>*\<^sup>* initial s)"
proof -
  have "initial \<noteq> kNoState"
    using assms no_such_state model_okD(1) by blast
  then show ?thesis
    using assms reached_from_exact [OF assms] has_state_bound [OF assms(1)]
    by (auto simp: unreachable_found_def states_entry has_state_def model_state_def image_iff split_paired_Ex)
qed

lemma leaves_iff: "leaves i n \<longleftrightarrow> (\<exists>s \<in> set (node_targets n). s \<noteq> i)"
proof -
  have inner: "fold (\<lambda>alternative l. if alt_target alternative \<noteq> i then True else l) as l \<longleftrightarrow>
      l \<or> (\<exists>a \<in> set as. alt_target a \<noteq> i)" for as l
    by (induction as arbitrary: l) auto
  have "fold (\<lambda>transition. fold (\<lambda>alternative l. if alt_target alternative \<noteq> i then True else l) (snd transition)) ts l
      \<longleftrightarrow> l \<or> (\<exists>t \<in> set ts. \<exists>a \<in> set (snd t). alt_target a \<noteq> i)"
    for l and ts :: "(trigger_id, alternatives) flat_map"
    unfolding inner by (induction ts arbitrary: l) auto
  then show ?thesis
    by (auto simp: leaves_def node_targets_def)
qed

lemma dead_end_found_iff:
  assumes "model_ok m"
  shows "f \<in> set (dead_end_found m) \<longleftrightarrow>
    (\<exists>s. f = empty_finding\<lparr>f_check := DeadEndState, f_state := s\<rparr> \<and>
       has_state m s \<and> (\<forall>s'. edge m s s' \<longrightarrow> s' = s))"
proof -
  have "(\<forall>s'. edge m i s' \<longrightarrow> s' = i) \<longleftrightarrow> \<not> leaves i n" if "model_state m i = Some n" for i n
    using node_targets_edge [OF assms that] by (auto simp: leaves_iff)
  then show ?thesis
    using assms by (fastforce simp: dead_end_found_def states_entry has_state_def model_state_def image_iff split_paired_Ex)
qed

lemma used_triggers_iff:
  assumes "unat t < kMaxTriggers"
  shows "used_triggers m ! unat t \<longleftrightarrow> (\<exists>(s, n) \<in> set (states m). t \<in> fst ` set (transitions n))"
proof -
  have inner: "length (fold (\<lambda>transition used.
      if unat (fst transition) < kMaxTriggers then used[unat (fst transition) := True] else used) ts used) = length used \<and>
    (length used = kMaxTriggers \<longrightarrow> fold (\<lambda>transition used.
      if unat (fst transition) < kMaxTriggers then used[unat (fst transition) := True] else used) ts used ! unat t
      = (used ! unat t \<or> t \<in> fst ` set ts))"
    for ts :: "(trigger_id, alternatives) flat_map" and used
    using assms by (induction ts arbitrary: used) (auto simp: nth_list_update word_unat_eq_iff [symmetric])
  have "length used = kMaxTriggers \<Longrightarrow> fold (\<lambda>entry. fold (\<lambda>transition used.
         if unat (fst transition) < kMaxTriggers then used[unat (fst transition) := True] else used)
       (transitions (snd entry))) es used ! unat t =
     (used ! unat t \<or> (\<exists>e \<in> set es. t \<in> fst ` set (transitions (snd e))))" for used es
    by (induction es arbitrary: used) (auto simp: inner)
  from this [of "replicate kMaxTriggers False" "states m"] assms show ?thesis
    by (simp add: used_triggers_def split_beta)
qed

lemma unused_found_iff:
  assumes "model_ok m"
  shows "f \<in> set (unused_found m) \<longleftrightarrow>
    (\<exists>t. f = empty_finding\<lparr>f_check := UnusedTrigger, f_trigger := t\<rparr> \<and>
       model_trigger m t \<noteq> None \<and> (\<forall>s. \<not> accepts m s t))"
proof -
  have acc: "accepts m s t \<longleftrightarrow> (\<exists>n. (s, n) \<in> set (states m) \<and> t \<in> fst ` set (transitions n))" for s t
    by (cases "model_state m s")
      (simp_all add: accepts_def states_entry [OF assms] fm_find_None_iff del: not_None_eq)
  have bound: "unat t < kMaxTriggers" if "model_trigger m t = Some d" for t d
    using trigger_id_bound [of m t d] that model_okD(1) [OF assms] by (simp add: model_trigger_def tables_ok_def)
  have "(\<forall>s. \<not> accepts m s t) \<longleftrightarrow> \<not> used_triggers m ! unat t" if "model_trigger m t = Some d" for t d
    using used_triggers_iff [OF bound [OF that], of m] by (auto simp: acc)
  with bound show ?thesis
    using assms by (fastforce simp: unused_found_def triggers_entry image_iff split_paired_Ex)
qed

end
