(* ===== verification/LintGuards.thy ===== *)
theory LintGuards
  imports Lint
begin

text \<open>
  What the linter's guard checks are worth: the fold of the conditions on one argument is exact,
  so a guard is reported as impossible precisely when no arguments satisfy it, and an
  alternative reported as unreachable, impossible or shadowed is never the one taken.
\<close>

section \<open>What a condition asks of a value\<close>

definition value_meets :: "condition \<Rightarrow> string \<Rightarrow> bool" where
  "value_meets c v \<longleftrightarrow> v \<noteq> [] \<and>
     (if cond_numeric c then
        (case parse_int v of
           None \<Rightarrow> False
         | Some n \<Rightarrow>
             (case cond_op c of
                Equal \<Rightarrow> n = cond_number c
              | NotEqual \<Rightarrow> n \<noteq> cond_number c
              | Less \<Rightarrow> n < cond_number c
              | LessEqual \<Rightarrow> n \<le> cond_number c
              | Greater \<Rightarrow> n > cond_number c
              | GreaterEqual \<Rightarrow> n \<ge> cond_number c))
      else if cond_op c = NotEqual then v \<noteq> cond_literal c else v = cond_literal c)"

lemma evaluate_value: "condition_evaluate c a \<longleftrightarrow> value_meets c (args_text a (cond_arg c))"
  by (simp add: condition_evaluate_def value_meets_def Let_def)

section \<open>The fold over the conditions on one argument\<close>

definition fold_condition :: "condition \<Rightarrow> argument_facts \<Rightarrow> argument_facts" where
  "fold_condition c facts = (if cond_numeric c then fold_numeric c facts else fold_text c facts)"

definition facts_of :: "condition list \<Rightarrow> argument_facts" where
  "facts_of cs = fold fold_condition cs empty_facts"

lemma fold_nth: "fold (\<lambda>i. g (xs ! i)) [0..<length xs] acc = fold g xs acc"
proof -
  have "fold g (map (\<lambda>i. xs ! i) [0..<length xs]) acc = fold (\<lambda>i. g (xs ! i)) [0..<length xs] acc"
    by (simp add: fold_map comp_def)
  then show ?thesis
    by (simp add: map_nth)
qed

lemma fold_filter: "fold (\<lambda>x acc. if P x then acc else g x acc) xs acc = fold g (filter (\<lambda>x. \<not> P x) xs) acc"
  by (induction xs arbitrary: acc) auto

lemma fold_facts_of:
  assumes "begins + count \<le> length pool"
  shows "fold_facts pool begins count argument =
    facts_of (filter (\<lambda>c. cond_arg c = argument) (take count (drop begins pool)))"
proof -
  let ?g = "take count (drop begins pool)"
  have "fold_facts pool begins count argument =
      fold (\<lambda>i facts. let c = ?g ! i in if cond_arg c \<noteq> argument then facts
        else if cond_numeric c then fold_numeric c facts else fold_text c facts) [0..<length ?g] empty_facts"
    unfolding fold_facts_def using assms by (intro fold_cong) (auto simp: Let_def)
  also have "\<dots> = fold (\<lambda>c facts. if cond_arg c \<noteq> argument then facts else fold_condition c facts) ?g empty_facts"
    unfolding fold_condition_def Let_def
    by (rule fold_nth [of "\<lambda>c facts. if cond_arg c \<noteq> argument then facts
        else if cond_numeric c then fold_numeric c facts else fold_text c facts" ?g empty_facts])
  finally show ?thesis
    unfolding fold_filter facts_of_def by simp
qed

text \<open>What the facts say about the conditions folded so far: first the numeric ones.\<close>

definition numbers_hold :: "condition list \<Rightarrow> argument_facts \<Rightarrow> bool" where
  "numbers_hold cs facts \<longleftrightarrow>
     kIntMin \<le> fact_low facts \<and> fact_high facts \<le> kIntMax \<and>
     length (fact_excluded facts) \<le> length cs \<and>
     (fact_numeric_seen facts \<longleftrightarrow> list_ex cond_numeric cs) \<and>
     (fact_numeric_seen facts \<or>
        fact_low facts = kIntMin \<and> fact_high facts = kIntMax \<and> fact_excluded facts = []) \<and>
     (\<forall>v n. parse_int v = Some n \<longrightarrow>
        (list_all (\<lambda>c. cond_numeric c \<longrightarrow> value_meets c v) cs \<longleftrightarrow>
         fact_low facts \<le> n \<and> n \<le> fact_high facts \<and> n \<notin> set (fact_excluded facts)))"

definition required_words :: "condition list \<Rightarrow> string list" where
  "required_words cs = map cond_literal (filter (\<lambda>c. \<not> cond_numeric c \<and> cond_op c = Equal) cs)"

definition forbidden_words :: "condition list \<Rightarrow> string list" where
  "forbidden_words cs = map cond_literal (filter (\<lambda>c. \<not> cond_numeric c \<and> cond_op c = NotEqual) cs)"

text \<open>Then the words.\<close>

definition words_hold :: "condition list \<Rightarrow> argument_facts \<Rightarrow> bool" where
  "words_hold cs facts \<longleftrightarrow> fact_forbidden facts = forbidden_words cs \<and>
     fact_required facts = (if required_words cs = [] then None else Some (last (required_words cs))) \<and>
     (fact_contradicted facts \<longleftrightarrow> (\<exists>w \<in> set (required_words cs). w \<noteq> last (required_words cs)))"

lemma parse_int_nonempty: "parse_int v = Some n \<Longrightarrow> v \<noteq> []"
  by auto

lemma words_hold_numeric: "words_hold cs facts \<Longrightarrow> cond_numeric c \<Longrightarrow> words_hold (cs @ [c]) (fold_numeric c facts)"
  by (cases "cond_op c")
    (simp_all add: words_hold_def required_words_def forbidden_words_def fold_numeric_def Let_def)

lemma fold_text_fields:
  "fact_low (fold_text c facts) = fact_low facts" "fact_high (fold_text c facts) = fact_high facts"
  "fact_excluded (fold_text c facts) = fact_excluded facts"
  "fact_numeric_seen (fold_text c facts) = fact_numeric_seen facts"
  by (simp_all add: fold_text_def Let_def split: option.split)

lemma numbers_hold_text: "numbers_hold cs facts \<Longrightarrow> \<not> cond_numeric c \<Longrightarrow> numbers_hold (cs @ [c]) (fold_text c facts)"
  unfolding numbers_hold_def fold_text_fields by auto

lemma numbers_hold_numeric:
  assumes "numbers_hold cs facts" and "cond_numeric c" and "length cs < kMaxConditionsPerGuard"
    and "- 2147483648 \<le> cond_number c" and "cond_number c \<le> 2147483647"
  shows "numbers_hold (cs @ [c]) (fold_numeric c facts)"
proof -
  let ?f = "fold_numeric c facts"
  have before: "kIntMin \<le> fact_low facts" "fact_high facts \<le> kIntMax"
    "length (fact_excluded facts) \<le> length cs"
    using assms(1) by (simp_all add: numbers_hold_def)
  then have bounds: "kIntMin \<le> fact_low ?f" "fact_high ?f \<le> kIntMax"
    "length (fact_excluded ?f) \<le> length (cs @ [c])" "fact_numeric_seen ?f"
    using assms(4,5) by (simp_all add: fold_numeric_def Let_def kIntMin_def kIntMax_def split: compare_op.split)
  have room: "length (fact_excluded facts) < kMaxConditionsPerGuard"
    using assms(1,3) by (simp add: numbers_hold_def)
  have range: "list_all (\<lambda>d. cond_numeric d \<longrightarrow> value_meets d v) (cs @ [c]) \<longleftrightarrow>
      fact_low ?f \<le> n \<and> n \<le> fact_high ?f \<and> n \<notin> set (fact_excluded ?f)"
    if v: "parse_int v = Some n" for v n
  proof -
    have "list_all (\<lambda>d. cond_numeric d \<longrightarrow> value_meets d v) cs \<longleftrightarrow>
         fact_low facts \<le> n \<and> n \<le> fact_high facts \<and> n \<notin> set (fact_excluded facts)" (is "?all \<longleftrightarrow> _")
      using assms(1) v by (simp add: numbers_hold_def)
    note all = this
    have this_one: "value_meets c v \<longleftrightarrow> (case cond_op c of
        Equal \<Rightarrow> n = cond_number c | NotEqual \<Rightarrow> n \<noteq> cond_number c | Less \<Rightarrow> n < cond_number c
      | LessEqual \<Rightarrow> n \<le> cond_number c | Greater \<Rightarrow> n > cond_number c | GreaterEqual \<Rightarrow> n \<ge> cond_number c)"
      using v assms(2) parse_int_nonempty [OF v] by (simp add: value_meets_def)
    have "list_all (\<lambda>d. cond_numeric d \<longrightarrow> value_meets d v) (cs @ [c]) \<longleftrightarrow> ?all \<and> value_meets c v"
      using assms(2) by simp
    also have "\<dots> \<longleftrightarrow> fact_low ?f \<le> n \<and> n \<le> fact_high ?f \<and> n \<notin> set (fact_excluded ?f)"
      unfolding all this_one using room
      by (cases "cond_op c") (auto simp add: fold_numeric_def Let_def)
    finally show ?thesis .
  qed
  have "fact_numeric_seen ?f \<longleftrightarrow> list_ex cond_numeric (cs @ [c])"
    using bounds(4) assms(2) by simp
  with bounds range show ?thesis
    unfolding numbers_hold_def by blast
qed

lemma words_hold_text:
  assumes "words_hold cs facts" and "\<not> cond_numeric c" and "length cs < kMaxConditionsPerGuard"
    and "cond_op c = Equal \<or> cond_op c = NotEqual"
  shows "words_hold (cs @ [c]) (fold_text c facts)"
proof -
  have "length (forbidden_words cs) \<le> length cs"
    by (simp add: forbidden_words_def)
  then have "length (fact_forbidden facts) < kMaxConditionsPerGuard"
    using assms(1,3) by (simp add: words_hold_def)
  moreover have eqs: "required_words (cs @ [c]) = required_words cs @ (if cond_op c = Equal then [cond_literal c] else [])"
    "forbidden_words (cs @ [c]) = forbidden_words cs @ (if cond_op c = NotEqual then [cond_literal c] else [])"
    using assms(2) by (simp_all add: required_words_def forbidden_words_def)
  ultimately show ?thesis
    using assms(1,4) unfolding words_hold_def eqs
    by (cases "required_words cs = []") (auto simp: fold_text_def)
qed

lemma facts_of_hold:
  assumes "length cs \<le> kMaxConditionsPerGuard" and "list_all condition_wf cs"
  shows "numbers_hold cs (facts_of cs) \<and> words_hold cs (facts_of cs)"
  using assms
proof (induction cs rule: rev_induct)
  case Nil
  show ?case
    using parse_int_range by (auto simp: numbers_hold_def words_hold_def required_words_def forbidden_words_def
        facts_of_def empty_facts_def kIntMin_def kIntMax_def)
next
  case (snoc c cs)
  then have cs: "numbers_hold cs (facts_of cs)" "words_hold cs (facts_of cs)"
    "length cs < kMaxConditionsPerGuard" "condition_wf c"
    by simp_all
  have "facts_of (cs @ [c]) = fold_condition c (facts_of cs)"
    by (simp add: facts_of_def)
  with cs numbers_hold_numeric [OF cs(1)] numbers_hold_text [OF cs(1)] words_hold_numeric [OF cs(2)]
    words_hold_text [OF cs(2)] show ?case
    by (cases "cond_numeric c") (auto simp: fold_condition_def condition_wf_def)
qed

section \<open>The verdict on the facts is exact\<close>

lemma excluded_inside_card:
  "excluded_inside facts = int (card (set (fact_excluded facts) \<inter> {fact_low facts..fact_high facts}))"
proof -
  let ?x = "fact_excluded facts" and ?I = "{fact_low facts..fact_high facts}"
  have "fold (\<lambda>i distinct_values.
       let v = ?x ! i
       in if v < fact_low facts \<or> v > fact_high facts then distinct_values
          else if list_ex (\<lambda>j. ?x ! j = v) [0..<i] then distinct_values
          else distinct_values + 1) [0..<k] 0 = int (card (set (take k ?x) \<inter> ?I))"
    if "k \<le> length ?x" for k
    using that
  proof (induction k)
    case (Suc k)
    have t: "set (take (Suc k) ?x) = insert (?x ! k) (set (take k ?x))"
      using Suc.prems by (simp add: take_Suc_conv_app_nth)
    have seen: "list_ex (\<lambda>j. ?x ! j = ?x ! k) [0..<k] \<longleftrightarrow> ?x ! k \<in> set (take k ?x)"
      using Suc.prems by (auto simp: list_ex_iff in_set_conv_nth Bex_def)
    show ?case
      using Suc seen by (auto simp: t Let_def insert_absorb)
  qed simp
  from this [of "length ?x"] show ?thesis
    by (simp add: excluded_inside_def)
qed

text \<open>Is some integer of the range left?\<close>

lemma range_used_up:
  assumes "fact_low facts \<le> fact_high facts"
  shows "(fact_high facts - fact_low facts + 1 \<le> int (length (fact_excluded facts)) \<and>
      excluded_inside facts \<ge> fact_high facts - fact_low facts + 1) \<longleftrightarrow>
    (\<forall>n. fact_low facts \<le> n \<and> n \<le> fact_high facts \<longrightarrow> n \<in> set (fact_excluded facts))" (is "?span \<longleftrightarrow> ?all")
proof -
  let ?x = "fact_excluded facts" and ?I = "{fact_low facts..fact_high facts}"
  have card: "int (card ?I) = fact_high facts - fact_low facts + 1"
    using assms by simp
  have squeezed: "a \<le> b \<Longrightarrow> a \<le> l \<Longrightarrow> (b \<le> l \<and> b \<le> a) = (a = b)" for a b l :: nat
    by auto
  have sub: "card (set ?x \<inter> ?I) \<le> card ?I" "card (set ?x \<inter> ?I) \<le> length ?x"
    by (intro card_mono; simp) (rule order_trans [OF card_mono [of "set ?x"] card_length]; simp)
  have "?span \<longleftrightarrow> card ?I \<le> length ?x \<and> card ?I \<le> card (set ?x \<inter> ?I)"
    by (simp only: excluded_inside_card card [symmetric] of_nat_le_iff)
  also have "\<dots> \<longleftrightarrow> card (set ?x \<inter> ?I) = card ?I"
    by (rule squeezed [OF sub])
  also have "\<dots> \<longleftrightarrow> set ?x \<inter> ?I = ?I"
    by (intro iffI card_subset_eq) (assumption | simp)+
  also have "\<dots> \<longleftrightarrow> ?I \<subseteq> set ?x"
    by blast
  also have "\<dots> \<longleftrightarrow> ?all"
    by (simp only: subset_iff atLeastAtMost_iff)
  finally show ?thesis .
qed

text \<open>The conditions on one argument can be met together exactly if the facts are not contradictory.\<close>

lemma unsatisfiable_exact:
  assumes short: "length cs \<le> kMaxConditionsPerGuard" and wf: "list_all condition_wf cs"
  shows "unsatisfiable (facts_of cs) \<longleftrightarrow> \<not> (\<exists>v. v \<noteq> [] \<and> list_all (\<lambda>c. value_meets c v) cs)"
proof -
  let ?f = "facts_of cs"
  have num: "numbers_hold cs ?f" and words: "words_hold cs ?f"
    using facts_of_hold [OF short wf] by auto
  let ?words = "\<lambda>v. list_all (\<lambda>c. \<not> cond_numeric c \<longrightarrow> value_meets c v) cs"
  let ?nums = "\<lambda>v. list_all (\<lambda>c. cond_numeric c \<longrightarrow> value_meets c v) cs"
  have split_cs: "list_all (\<lambda>c. value_meets c v) cs \<longleftrightarrow> ?nums v \<and> ?words v" for v
    by (auto simp: list_all_iff)
  have by_words: "?words v \<longleftrightarrow> (\<forall>w \<in> set (required_words cs). w = v) \<and> v \<notin> set (forbidden_words cs)"
    if "v \<noteq> []" for v
    using wf that by (auto simp: list_all_iff required_words_def forbidden_words_def value_meets_def condition_wf_def)
  have wordy: "parse_int w = None \<and> w \<noteq> []" if "w \<in> set (required_words cs) \<union> set (forbidden_words cs)" for w
    using that wf by (auto simp: list_all_iff required_words_def forbidden_words_def condition_wf_def)
  have by_nums: "?nums v \<longleftrightarrow> fact_low ?f \<le> n \<and> n \<le> fact_high ?f \<and> n \<notin> set (fact_excluded ?f)"
    if "parse_int v = Some n" for v n
    using num that by (simp add: numbers_hold_def)
  have numeric: "?nums v \<Longrightarrow> fact_numeric_seen ?f \<Longrightarrow> \<exists>n. parse_int v = Some n" for v
    using num by (auto simp: numbers_hold_def list_all_iff list_ex_iff value_meets_def split: option.splits)
  have bounds: "- 2147483648 \<le> fact_low ?f" "fact_high ?f \<le> 2147483647"
    and unseen: "\<not> fact_numeric_seen ?f \<Longrightarrow>
      fact_low ?f = - 2147483648 \<and> fact_high ?f = 2147483647 \<and> fact_excluded ?f = [] \<and> ?nums v" for v
    using num by (auto simp: numbers_hold_def kIntMin_def kIntMax_def list_all_iff list_ex_iff)
  let ?left = "\<exists>n. fact_low ?f \<le> n \<and> n \<le> fact_high ?f \<and> n \<notin> set (fact_excluded ?f)"
  have range: "fact_low ?f > fact_high ?f \<or> (fact_high ?f - fact_low ?f + 1 \<le> int (length (fact_excluded ?f)) \<and>
      excluded_inside ?f \<ge> fact_high ?f - fact_low ?f + 1) \<longleftrightarrow> \<not> ?left"
    using range_used_up [of ?f] by (cases "fact_low ?f \<le> fact_high ?f") auto
  show ?thesis
  proof (cases "required_words cs = []")
    case True
    then have "unsatisfiable ?f \<longleftrightarrow> \<not> ?left"
      using words range by (auto simp: unsatisfiable_def words_hold_def Let_def)
    moreover have "?left" if "v \<noteq> []" "?nums v" for v
    proof (cases "fact_numeric_seen ?f")
      case True
      with numeric [OF that(2)] obtain n where "parse_int v = Some n"
        by blast
      with by_nums that(2) show ?thesis
        by blast
    next
      case False
      from unseen [OF False] show ?thesis
        by (intro exI [of _ 0]) simp
    qed
    moreover have "\<exists>v. v \<noteq> [] \<and> ?nums v \<and> ?words v" if ?left
    proof -
      from that obtain n where n: "fact_low ?f \<le> n" "n \<le> fact_high ?f" "n \<notin> set (fact_excluded ?f)"
        by blast
      then have v: "parse_int (int_to_text n) = Some n"
        using bounds by (intro parse_int_int_to_text) auto
      then have "int_to_text n \<notin> set (forbidden_words cs)"
        using wordy by fastforce
      with True n v by_nums [OF v] by_words [OF trimmed_int_to_text(2)] trimmed_int_to_text(2) show ?thesis
        by auto
    qed
    ultimately show ?thesis
      unfolding split_cs by blast
  next
    case False
    let ?w = "last (required_words cs)"
    have w: "?w \<in> set (required_words cs)" "parse_int ?w = None" "?w \<noteq> []"
      using False wordy [of ?w] by simp_all
    have sat: "unsatisfiable ?f \<longleftrightarrow> \<not> (\<forall>w \<in> set (required_words cs). w = ?w) \<or> fact_numeric_seen ?f \<or>
        ?w \<in> set (forbidden_words cs)"
    proof (cases "fact_numeric_seen ?f")
      case True
      then show ?thesis
        using words False by (auto simp: unsatisfiable_def words_hold_def)
    next
      case unseen': False
      from unseen [OF unseen'] show ?thesis
        using words False unseen' by (auto simp: unsatisfiable_def words_hold_def list_ex_iff)
    qed
    have only: "v = ?w" if "v \<noteq> []" "?words v" for v
      using by_words [OF that(1), THEN iffD1, OF that(2)] w(1) by simp
    have nums: "?nums ?w \<longleftrightarrow> \<not> fact_numeric_seen ?f"
      using numeric [of ?w] unseen [of ?w] w(2) by fastforce
    have "(\<exists>v. v \<noteq> [] \<and> ?nums v \<and> ?words v) \<longleftrightarrow> ?nums ?w \<and> ?words ?w"
    proof
      assume "\<exists>v. v \<noteq> [] \<and> ?nums v \<and> ?words v"
      then obtain v where v: "v \<noteq> []" "?nums v" "?words v"
        by (elim exE conjE)
      show "?nums ?w \<and> ?words ?w"
        using v(2,3) unfolding only [OF v(1,3)] ..
    next
      assume "?nums ?w \<and> ?words ?w"
      with w(3) show "\<exists>v. v \<noteq> [] \<and> ?nums v \<and> ?words v"
        by (intro exI [of _ ?w]) simp
    qed
    then show ?thesis
      unfolding sat split_cs nums by_words [OF w(3)] by blast
  qed
qed

section \<open>Whole guards\<close>

lemma guard_of_nth:
  assumes "alternative_ok m alt"
  shows "length (guard_of m alt) = unat (condition_count alt)"
    and "i < unat (condition_count alt) \<Longrightarrow>
      conditions m ! (unat (first_condition alt) + i) = guard_of m alt ! i"
  using assms by (auto simp: guard_of_def alternative_ok_def)

lemma first_index:
  "(\<exists>i < length xs. \<not> (\<exists>j < i. f (xs ! j) = f (xs ! i)) \<and> P (f (xs ! i))) \<longleftrightarrow> (\<exists>x \<in> set xs. P (f x))"
proof
  assume "\<exists>x \<in> set xs. P (f x)"
  then obtain k where k: "k < length xs" "P (f (xs ! k))"
    by (metis in_set_conv_nth)
  obtain i where i: "f (xs ! i) = f (xs ! k)" "i \<le> k" "\<And>j. j < i \<Longrightarrow> f (xs ! j) \<noteq> f (xs ! k)"
    using LeastI [of "\<lambda>i. f (xs ! i) = f (xs ! k)" k] Least_le [of "\<lambda>i. f (xs ! i) = f (xs ! k)" k]
      not_less_Least [of _ "\<lambda>i. f (xs ! i) = f (xs ! k)"] by blast
  have "i < length xs"
    using i(2) k(1) by simp
  moreover have "\<not> (\<exists>j < i. f (xs ! j) = f (xs ! i))"
    unfolding i(1) using i(3) by blast
  moreover have "P (f (xs ! i))"
    unfolding i(1) by (rule k(2))
  ultimately show "\<exists>i < length xs. \<not> (\<exists>j < i. f (xs ! j) = f (xs ! i)) \<and> P (f (xs ! i))"
    by blast
qed auto

definition on_argument :: "string \<Rightarrow> condition list \<Rightarrow> condition list" where
  "on_argument k g = filter (\<lambda>c. cond_arg c = k) g"

lemma guard_impossible_iff:
  assumes "alternative_ok m alt"
  shows "guard_impossible m alt \<longleftrightarrow>
    (\<exists>c \<in> set (guard_of m alt). unsatisfiable (facts_of (on_argument (cond_arg c) (guard_of m alt))))"
proof -
  let ?g = "guard_of m alt" and ?b = "unat (first_condition alt)" and ?n = "unat (condition_count alt)"
  have fits: "?b + ?n \<le> length (conditions m)"
    using assms by (simp add: alternative_ok_def)
  have facts: "fold_facts (conditions m) ?b ?n k = facts_of (on_argument k ?g)" for k
    using fold_facts_of [OF fits] by (simp add: on_argument_def guard_of_def)
  let ?at = "\<lambda>i. cond_arg (conditions m ! (?b + i))"
  let ?new = "\<lambda>arg i. \<not> (\<exists>j < i. arg j = arg i) \<and> unsatisfiable (facts_of (on_argument (arg i) ?g))"
  have "guard_impossible m alt \<longleftrightarrow> (\<exists>i < ?n. ?new ?at i)"
    using fits by (simp add: guard_impossible_def Let_def facts list_ex_iff Bex_def not_less conj_commute)
  also have "\<dots> \<longleftrightarrow> (\<exists>i < length ?g. ?new (\<lambda>i. cond_arg (?g ! i)) i)"
  proof -
    have same: "?at i = cond_arg (?g ! i)" if "i < ?n" for i
      using guard_of_nth(2) [OF assms that] by simp
    have "?new ?at i \<longleftrightarrow> ?new (\<lambda>i. cond_arg (?g ! i)) i" if "i < ?n" for i
      using same [OF that] same [OF less_trans [OF _ that]] by (simp cong: conj_cong)
    then show ?thesis
      unfolding guard_of_nth(1) [OF assms] by (simp cong: conj_cong)
  qed
  finally show ?thesis
    unfolding first_index [of ?g cond_arg "\<lambda>k. unsatisfiable (facts_of (on_argument k ?g))"] .
qed

text \<open>Arguments with a given value for each of the given keys.\<close>

fun args_with :: "(string \<Rightarrow> string) \<Rightarrow> string list \<Rightarrow> (string, string) flat_map" where
  "args_with val [] = []"
| "args_with val (k # ks) =
     (if fm_find (args_with val ks) k \<noteq> None then args_with val ks
      else fm_insert k (val k) (args_with val ks))"

lemma args_with_props:
  "fm_ok (args_with val ks) \<and> length (args_with val ks) \<le> length ks \<and>
    fm_find (args_with val ks) k = (if k \<in> set ks then Some (val k) else None)"
proof (induction ks arbitrary: k)
  case (Cons x ks)
  then have IH: "fm_ok (args_with val ks)" "length (args_with val ks) \<le> length ks"
    "\<And>y. fm_find (args_with val ks) y = (if y \<in> set ks then Some (val y) else None)"
    by blast+
  show ?case
  proof (cases "x \<in> set ks")
    case True
    with IH show ?thesis
      by auto
  next
    case False
    then have "fm_find (args_with val ks) x = None"
      using IH(3) by simp
    with IH show ?thesis
      by (auto simp: container_simps)
  qed
qed (simp add: container_simps)

lemma guard_satisfiable:
  assumes short: "length g \<le> kMaxConditionsPerGuard" and wf: "list_all condition_wf g"
    and sat: "\<And>c. c \<in> set g \<Longrightarrow> \<not> unsatisfiable (facts_of (on_argument (cond_arg c) g))"
  shows "\<exists>a. args_wf a \<and> guard_holds a g"
proof -
  have part: "length (on_argument k g) \<le> kMaxConditionsPerGuard" "list_all condition_wf (on_argument k g)" for k
    using wf order_trans [OF length_filter_le short]
    by (auto simp: on_argument_def list_all_iff)
  have "\<exists>v. v \<noteq> [] \<and> list_all (\<lambda>d. value_meets d v) (on_argument (cond_arg c) g)" if "c \<in> set g" for c
    using sat [OF that] unsatisfiable_exact [OF part] by blast
  then have "\<forall>k \<in> cond_arg ` set g. \<exists>v. list_all (\<lambda>d. value_meets d v) (on_argument k g)"
    by auto
  then obtain val where "\<forall>k \<in> cond_arg ` set g. list_all (\<lambda>d. value_meets d (val k)) (on_argument k g)"
    by (rule bchoice [THEN exE])
  then have val: "\<And>c. c \<in> set g \<Longrightarrow> list_all (\<lambda>d. value_meets d (val (cond_arg c))) (on_argument (cond_arg c) g)"
    by simp
  let ?a = "\<lparr>args_map = args_with val (map cond_arg g), args_raw = []\<rparr>"
  note props = args_with_props [of val "map cond_arg g"]
  have keys: "length (cond_arg c) \<le> kMaxNameLength \<and> cond_arg c \<noteq> []" if "c \<in> set g" for c
    using wf that by (simp add: list_all_iff condition_wf_def)
  have "fst ` set (args_with val (map cond_arg g)) = cond_arg ` set g"
    using props by (auto simp: fm_find_dom [symmetric] dom_def)
  then have "args_wf ?a"
    using props [of "[]"] short keys
    by (auto simp: args_wf_def capacity_defs)
  moreover have "args_text ?a (cond_arg c) = val (cond_arg c)" if "c \<in> set g" for c
    using props [of "cond_arg c"] keys [OF that] that by (auto simp: args_text_def text_simps)
  then have "guard_holds ?a g"
    using val by (auto simp: guard_holds_def evaluate_value list_all_iff on_argument_def)
  ultimately show ?thesis
    by blast
qed

lemma guard_unsatisfiable:
  assumes short: "length g \<le> kMaxConditionsPerGuard" and wf: "list_all condition_wf g"
    and "c \<in> set g" and "unsatisfiable (facts_of (on_argument (cond_arg c) g))"
  shows "\<not> guard_holds a g"
proof
  assume holds: "guard_holds a g"
  let ?v = "args_text a (cond_arg c)"
  have part: "length (on_argument (cond_arg c) g) \<le> kMaxConditionsPerGuard"
    "list_all condition_wf (on_argument (cond_arg c) g)"
    using wf order_trans [OF length_filter_le short]
    by (auto simp: on_argument_def list_all_iff)
  have "list_all (\<lambda>d. value_meets d ?v) (on_argument (cond_arg c) g)"
    using holds by (auto simp: guard_holds_def evaluate_value list_all_iff on_argument_def)
  moreover from this assms(3) have "?v \<noteq> []"
    by (auto simp: list_all_iff on_argument_def value_meets_def)
  ultimately show False
    using unsatisfiable_exact [OF part] assms(4) by blast
qed

lemma guard_impossible_exact:
  assumes "alternative_ok m alt" and "list_all condition_wf (conditions m)"
  shows "guard_impossible m alt \<longleftrightarrow> \<not> (\<exists>a. args_wf a \<and> guard_holds a (guard_of m alt))"
    and "guard_impossible m alt \<Longrightarrow> \<not> guard_holds a (guard_of m alt)"
proof -
  have g: "length (guard_of m alt) \<le> kMaxConditionsPerGuard" "list_all condition_wf (guard_of m alt)"
    using assms guard_of_nth(1) [OF assms(1)]
    by (auto simp: alternative_ok_def guard_of_def list_all_iff dest!: in_set_takeD in_set_dropD)
  show never: "guard_impossible m alt \<Longrightarrow> \<not> guard_holds a (guard_of m alt)" for a
    using guard_unsatisfiable [OF g] guard_impossible_iff [OF assms(1)] by blast
  show "guard_impossible m alt \<longleftrightarrow> \<not> (\<exists>a. args_wf a \<and> guard_holds a (guard_of m alt))"
    using never guard_satisfiable [OF g] guard_impossible_iff [OF assms(1)] by blast
qed

section \<open>Alternatives that are never taken\<close>

lemma implies_guard:
  assumes "alternative_ok m earlier" and "alternative_ok m later" and "implies m earlier later"
    and "guard_holds a (guard_of m later)"
  shows "guard_holds a (guard_of m earlier)"
proof -
  have same: "condition_evaluate c a = condition_evaluate d a" if "same_condition c d" for c d
    using that by (cases "cond_op d")
      (simp_all add: same_condition_def evaluate_value value_meets_def split: if_splits option.split)
  have "\<exists>d \<in> set (guard_of m later). same_condition c d" if "c \<in> set (guard_of m earlier)" for c
  proof -
    from that obtain i where i: "i < unat (condition_count earlier)" "c = guard_of m earlier ! i"
      using guard_of_nth(1) [OF assms(1)] by (metis in_set_conv_nth)
    then have "has_same (conditions m) later c"
      using assms(3) unfolding i(2) guard_of_nth(2) [OF assms(1) i(1), symmetric]
      by (simp add: implies_def list_all_iff Let_def)
    then obtain j where j: "j < unat (condition_count later)"
      "same_condition c (conditions m ! (unat (first_condition later) + j))"
      by (auto simp: has_same_def list_ex_iff Let_def)
    then have "same_condition c (guard_of m later ! j)"
      using guard_of_nth(2) [OF assms(2) j(1)] by simp
    with j(1) guard_of_nth(1) [OF assms(2)] show ?thesis
      by (metis nth_mem)
  qed
  with assms(4) same show ?thesis
    by (fastforce simp: guard_holds_def list_all_iff)
qed

lemma first_implying_less: "first_implying m alts i = Some j \<Longrightarrow> j < i \<and> implies m (alts ! j) (alts ! i)"
  by (auto simp: first_implying_def dest: first_match_SomeD)

lemma unguarded_holds: "condition_count alt = 0 \<Longrightarrow> guard_holds a (guard_of m alt)"
  by (simp add: guard_of_def guard_holds_def)

text \<open>Whenever a reported alternative would hold, an earlier one does.\<close>

lemma verdict_never_first:
  assumes "list_all (alternative_ok m) alts" and "list_all condition_wf (conditions m)"
    and "i < length alts" and "verdict m alts i \<noteq> None" and "guard_holds a (guard_of m (alts ! i))"
  shows "\<exists>j < i. guard_holds a (guard_of m (alts ! j))"
proof -
  have ok: "alternative_ok m (alts ! j)" if "j < length alts" for j
    using assms(1) that by (simp add: list_all_length)
  show ?thesis
  proof (cases "fallback_before alts i")
    case (Some j)
    with fallback_before_less [OF Some] unguarded_holds [of "alts ! j" a m] show ?thesis
      by blast
  next
    case None
    with assms(4) have "guard_impossible m (alts ! i) \<or> first_implying m alts i \<noteq> None"
      by (auto simp: verdict_def split: if_splits)
    moreover have "\<not> guard_impossible m (alts ! i)"
      using guard_impossible_exact(2) [OF ok [OF assms(3)] assms(2)] assms(5) by blast
    ultimately obtain j where j: "first_implying m alts i = Some j"
      by blast
    from first_implying_less [OF this] assms(3) ok implies_guard [OF ok ok, of j i a] assms(5) show ?thesis
      by (intro exI [of _ j]) auto
  qed
qed

text \<open>Leaving out an element an earlier one always beats does not change a first match.\<close>

lemma first_match_leave_out:
  assumes "i < length xs" and "P (xs ! i) \<Longrightarrow> \<exists>j < i. P (xs ! j)"
  shows "first_match P (take i xs @ drop (Suc i) xs) = first_match P xs"
proof -
  have "xs = take i xs @ xs ! i # drop (Suc i) xs"
    using assms(1) by (rule id_take_nth_drop)
  moreover have "P (xs ! i) \<Longrightarrow> first_match P (take i xs) \<noteq> None"
  proof -
    assume "P (xs ! i)"
    with assms obtain j where "j < i" "P (xs ! j)"
      by blast
    with assms(1) have "xs ! j \<in> set (take i xs)" "P (xs ! j)"
      by (auto simp: in_set_conv_nth)
    then show "first_match P (take i xs) \<noteq> None"
      by (auto simp: first_match_None_iff)
  qed
  ultimately have "first_match P xs = first_match P (take i xs @ xs ! i # drop (Suc i) xs)"
    "P (xs ! i) \<Longrightarrow> first_match P (take i xs) \<noteq> None"
    by auto
  then show ?thesis
    by (auto simp: first_match_append split: option.splits)
qed

section \<open>The report of a whole model\<close>

lemma guards_found_iff:
  assumes "model_ok m"
  shows "f \<in> set (guards_found m) \<longleftrightarrow>
    (\<exists>s t i c other. i < length (alternatives_of m s t) \<and> verdict m (alternatives_of m s t) i = Some (c, other) \<and>
       f = \<lparr>f_check = c, f_state = s, f_trigger = t, f_alternative = word_of_nat (i + 1), f_other = other\<rparr>)"
    (is "_ \<longleftrightarrow> ?rhs")
proof
  assume "f \<in> set (guards_found m)"
  then obtain s n t alts where in_tables: "(s, n) \<in> set (states m)" "(t, alts) \<in> set (transitions n)"
    and "f \<in> set (alternatives_found m s t alts)"
    by (auto simp: guards_found_def)
  moreover have "alternatives_of m s t = alts"
    by (rule alternatives_short [OF assms in_tables])
  ultimately show ?rhs
    by (auto simp: alternatives_found_def finding_at_def split: option.splits)
next
  assume ?rhs
  then obtain s t i c other where f: "i < length (alternatives_of m s t)"
    "verdict m (alternatives_of m s t) i = Some (c, other)"
    "f = \<lparr>f_check = c, f_state = s, f_trigger = t, f_alternative = word_of_nat (i + 1), f_other = other\<rparr>"
    by blast
  then obtain n where n: "fm_find (states m) s = Some n" "fm_find (transitions n) t = Some (alternatives_of m s t)"
    by (auto simp: alternatives_of_def split: option.splits)
  then have "(s, n) \<in> set (states m)" "(t, alternatives_of m s t) \<in> set (transitions n)"
    by (auto dest: fm_find_in_set)
  moreover have "f \<in> set (alternatives_found m s t (alternatives_of m s t))"
    using f by (force simp: alternatives_found_def finding_at_def)
  ultimately show "f \<in> set (guards_found m)"
    by (force simp: guards_found_def)
qed

lemma verdict_kind: "verdict m alts i = Some (c, other) \<Longrightarrow>
    c \<in> {UnreachableAlternative, ImpossibleGuard, ShadowedAlternative}"
  by (auto simp: verdict_def split: option.splits if_splits)

lemma analyse_all:
  assumes "model_ok m" and "analyse m initial [] = (Ok, r)"
  shows "r = all_found m initial"
  using analyse_found [OF assms(1), of "[]" initial] assms(2) by (auto split: if_splits)

lemma finding_kinds:
  assumes "model_ok m"
  shows "f \<in> set (unreachable_found m initial) \<Longrightarrow> f_check f = UnreachableState"
    "f \<in> set (dead_end_found m) \<Longrightarrow> f_check f = DeadEndState"
    "f \<in> set (unused_found m) \<Longrightarrow> f_check f = UnusedTrigger"
    "f \<in> set (guards_found m) \<Longrightarrow> f_check f \<in> {UnreachableAlternative, ImpossibleGuard, ShadowedAlternative}"
proof -
  assume "f \<in> set (guards_found m)"
  then show "f_check f \<in> {UnreachableAlternative, ImpossibleGuard, ShadowedAlternative}"
    unfolding guards_found_iff [OF assms] using verdict_kind by force
qed (auto simp: unreachable_found_def dead_end_found_def unused_found_def split: if_splits)

lemma in_report:
  assumes "model_ok m" and "analyse m initial [] = (Ok, r)"
  shows "f \<in> set r \<and> f_check f = UnreachableState \<longleftrightarrow> f \<in> set (unreachable_found m initial)"
    and "f \<in> set r \<and> f_check f = DeadEndState \<longleftrightarrow> f \<in> set (dead_end_found m)"
    and "f \<in> set r \<and> f_check f = UnusedTrigger \<longleftrightarrow> f \<in> set (unused_found m)"
    and "f \<in> set r \<and> f_check f \<in> {UnreachableAlternative, ImpossibleGuard, ShadowedAlternative} \<longleftrightarrow>
      f \<in> set (guards_found m)"
proof -
  have r: "f \<in> set r \<longleftrightarrow> f \<in> set (unreachable_found m initial) \<or> f \<in> set (dead_end_found m) \<or>
      f \<in> set (unused_found m) \<or> f \<in> set (guards_found m)"
    using analyse_all [OF assms] by (simp add: all_found_def)
  note kinds = finding_kinds [OF assms(1), where f = f]
  show "f \<in> set r \<and> f_check f = UnreachableState \<longleftrightarrow> f \<in> set (unreachable_found m initial)"
    "f \<in> set r \<and> f_check f = DeadEndState \<longleftrightarrow> f \<in> set (dead_end_found m)"
    "f \<in> set r \<and> f_check f = UnusedTrigger \<longleftrightarrow> f \<in> set (unused_found m)"
    "f \<in> set r \<and> f_check f \<in> {UnreachableAlternative, ImpossibleGuard, ShadowedAlternative} \<longleftrightarrow>
      f \<in> set (guards_found m)"
    unfolding r using kinds by fastforce+
qed

definition reports :: "report \<Rightarrow> check \<Rightarrow> (finding \<Rightarrow> bool) \<Rightarrow> bool" where
  "reports r c P \<longleftrightarrow> list_ex (\<lambda>f. f_check f = c \<and> P f) r"

lemma reports_iff: "reports r c P \<longleftrightarrow> (\<exists>f. (f \<in> set r \<and> f_check f = c) \<and> P f)"
  by (auto simp: reports_def list_ex_iff)

lemma reports_unreachable:
  assumes "model_ok m" and "has_state m initial" and "analyse m initial [] = (Ok, r)"
  shows "reports r UnreachableState (\<lambda>f. f_state f = s) \<longleftrightarrow> has_state m s \<and> \<not> (edge m)\<^sup>*\<^sup>* initial s"
  unfolding reports_iff in_report(1) [OF assms(1,3)] unreachable_found_iff [OF assms(1,2)]
  by (auto simp: empty_finding_def)

lemma reports_dead_end:
  assumes "model_ok m" and "analyse m initial [] = (Ok, r)"
  shows "reports r DeadEndState (\<lambda>f. f_state f = s) \<longleftrightarrow> has_state m s \<and> (\<forall>s'. edge m s s' \<longrightarrow> s' = s)"
  unfolding reports_iff in_report(2) [OF assms] dead_end_found_iff [OF assms(1)]
  by (auto simp: empty_finding_def)

lemma reports_unused:
  assumes "model_ok m" and "analyse m initial [] = (Ok, r)"
  shows "reports r UnusedTrigger (\<lambda>f. f_trigger f = t) \<longleftrightarrow>
    model_trigger m t \<noteq> None \<and> (\<forall>s. \<not> accepts m s t)"
  unfolding reports_iff in_report(3) [OF assms] unused_found_iff [OF assms(1)]
  by (fastforce simp: empty_finding_def)

section \<open>A model with one of each\<close>

definition low_pedal :: condition where
  "low_pedal = \<lparr>cond_arg = ''pedal'', cond_op = Less, cond_numeric = True, cond_number = 5,
     cond_literal = []\<rparr>"

text \<open>
  The third state is neither reached nor left, the third trigger unused, the first alternative of
  the first trigger impossible and its third behind an unguarded one.
\<close>

definition flawed_model :: model where
  "flawed_model =
     (let m = fst (snd (declare_trigger ''go'' [] model_clear));
          m = fst (snd (declare_trigger ''halt'' [] m));
          m = fst (snd (declare_trigger ''spare'' [] m));
          m = fst (snd (declare_state ''idle'' m));
          m = fst (snd (declare_state ''running'' m));
          m = fst (snd (declare_state ''lost'' m));
          m = snd (add_transition 0 0 1 [pedal_guard, low_pedal] m);
          m = snd (add_transition 0 0 1 [] m);
          m = snd (add_transition 0 0 0 [pedal_guard] m)
      in snd (add_transition 1 1 0 [] m))"

lemma flawed_model_ok: "model_ok flawed_model"
  unfolding flawed_model_def Let_def
  by (intro built_model_ok built.intros) (simp_all add: kMaxConditionsPerGuard_def)

definition flawed_report :: report where
  "flawed_report = snd (analyse flawed_model 0 [])"

lemma flawed_facts:
  "analyse flawed_model 0 [] = (Ok, flawed_report)" "has_state flawed_model 0"
  "list_all condition_wf (conditions flawed_model)"
  by code_simp+

lemma flawed_reports:
  "reports flawed_report UnreachableState (\<lambda>f. f_state f = 2)"
  "reports flawed_report DeadEndState (\<lambda>f. f_state f = 2)"
  "reports flawed_report UnusedTrigger (\<lambda>f. f_trigger f = 2)"
  "reports flawed_report ImpossibleGuard (\<lambda>f. f_state f = 0 \<and> f_trigger f = 0 \<and> f_alternative f = 1)"
  "reports flawed_report UnreachableAlternative (\<lambda>f. f_state f = 0 \<and> f_trigger f = 0 \<and> f_alternative f = 3)"
  by code_simp+

lemma sample_clean: "analyse sample_model 0 [] = (Ok, [])" "list_all condition_wf (conditions sample_model)"
  "has_state sample_model 0"
  by code_simp+

section \<open>Properties\<close>

definition dead_end :: "model \<Rightarrow> state_id \<Rightarrow> bool" where
  "dead_end m s \<longleftrightarrow> has_state m s \<and> (\<forall>s'. edge m s s' \<longrightarrow> s' = s)"

definition never_listed :: "model \<Rightarrow> trigger_id \<Rightarrow> bool" where
  "never_listed m t \<longleftrightarrow> model_trigger m t \<noteq> None \<and> (\<forall>s. \<not> accepts m s t)"

definition taken :: "(condition list \<times> state_id) list \<Rightarrow> args \<Rightarrow> (condition list \<times> state_id) option" where
  "taken outcomes a = first_match (\<lambda>(g, target). guard_holds a g) outcomes"

definition reachable_states :: "model \<Rightarrow> state_id \<Rightarrow> bool" where
  "reachable_states m initial \<longleftrightarrow> (\<forall>s. has_state m s \<longrightarrow> (edge m)\<^sup>*\<^sup>* initial s)"

definition alternatives_live :: "model \<Rightarrow> bool" where
  "alternatives_live m \<longleftrightarrow>
     (\<forall>s t i. i < length (alternatives_of m s t) \<longrightarrow>
        (\<exists>a. args_wf a \<and> guard_holds a (guard_of m (alternatives_of m s t ! i))) \<and>
        fallback_before (alternatives_of m s t) i = None)"

lemma clean_report:
  assumes "model_ok m" and "list_all condition_wf (conditions m)" and "has_state m initial"
    and "analyse m initial [] = (Ok, r)" and "\<not> has_errors r"
  shows "reachable_states m initial \<and> alternatives_live m"
proof
  have no: "f_check f \<notin> {UnreachableState, UnreachableAlternative, ImpossibleGuard, ShadowedAlternative}"
    if "f \<in> set r" for f
    using that assms(5) by (auto simp: has_errors_def list_ex_iff)
  show "reachable_states m initial"
    using reports_unreachable [OF assms(1,3,4)] no unfolding reachable_states_def reports_iff by blast
  have "guards_found m = []"
    using in_report(4) [OF assms(1,4)] no by (metis insertCI list.set_intros(1) neq_Nil_conv insertE)
  then have none: "verdict m (alternatives_of m s t) i = None" if "i < length (alternatives_of m s t)" for s t i
    using guards_found_iff [OF assms(1)] that by (metis empty_iff empty_set not_None_eq surj_pair)
  show "alternatives_live m"
    unfolding alternatives_live_def
  proof (intro allI impI)
    fix s t i
    assume i: "i < length (alternatives_of m s t)"
    let ?alt = "alternatives_of m s t ! i"
    have ok: "alternative_ok m ?alt"
      using alternatives_of_ok(1) [OF assms(1)] i by (simp add: list_all_length)
    from none [OF i] have fb: "fallback_before (alternatives_of m s t) i = None"
      "condition_count ?alt = 0 \<or> \<not> guard_impossible m ?alt"
      by (auto simp: verdict_def split: option.splits if_splits)
    moreover have "args_wf args_none"
      by (simp add: args_wf_def args_none_def)
    ultimately show "(\<exists>a. args_wf a \<and> guard_holds a (guard_of m ?alt)) \<and>
        fallback_before (alternatives_of m s t) i = None"
      using guard_impossible_exact(1) [OF ok assms(2)] unguarded_holds by blast
  qed
qed

text \<open>C18: the linter reports a state as unreachable exactly if the model has it and no path of
  transitions leads there from the initial state.\<close>

theorem lint_unreachable_exact:
  assumes "model_ok m" and "has_state m initial" and "analyse m initial [] = (Ok, r)"
  shows "reports r UnreachableState (\<lambda>f. f_state f = s) \<longleftrightarrow> has_state m s \<and> \<not> (edge m)\<^sup>*\<^sup>* initial s"
  using assms by (rule reports_unreachable)

theorem lint_unreachable_exact_witness:
  "reports flawed_report UnreachableState (\<lambda>f. f_state f = 2) \<longleftrightarrow>
    has_state flawed_model 2 \<and> \<not> (edge flawed_model)\<^sup>*\<^sup>* 0 2"
  by (rule lint_unreachable_exact [OF flawed_model_ok flawed_facts(2,1)])

text \<open>A machine that is in the initial state never enters a state the linter reported as
  unreachable from there, whatever triggers and arguments follow.\<close>

theorem lint_unreachable_never_entered:
  assumes "running m sm" and "analyse m (sm_current sm) [] = (Ok, r)"
    and "reports r UnreachableState (\<lambda>f. f_state f = s)"
  shows "sm_current (fold fire_event es sm) \<noteq> s"
proof -
  have "model_ok m" "has_state m (sm_current sm)"
    using assms(1) by (simp_all add: running_def)
  from reports_unreachable [OF this assms(2), of s] assms(3) machine.run_follows_edges [OF assms(1), of es]
  show ?thesis
    by auto
qed

definition flawed_machine :: state_machine where
  "flawed_machine = snd (sm_start (snd (sm_init flawed_model sample_setup new_machine)))"

lemma flawed_machine_running: "running flawed_model flawed_machine" "sm_current flawed_machine = 0"
proof -
  have "sm_model flawed_machine = Some flawed_model" "sm_started flawed_machine"
    "has_state flawed_model (sm_current flawed_machine)"
    by code_simp+
  then show "running flawed_model flawed_machine"
    by (simp add: running_def flawed_model_ok)
  show "sm_current flawed_machine = 0"
    by code_simp
qed

theorem lint_unreachable_never_entered_witness:
  "sm_current (fold fire_event [(0, args_none), (1, args_none)] flawed_machine) \<noteq> 2"
proof (rule lint_unreachable_never_entered [OF flawed_machine_running(1) _ flawed_reports(1)])
  show "analyse flawed_model (sm_current flawed_machine) [] = (Ok, flawed_report)"
    by (simp only: flawed_machine_running(2) flawed_facts(1))
qed

text \<open>The linter reports a state as a dead end exactly if every transition it has comes back to
  it; a machine in such a state stays there for ever.\<close>

theorem lint_dead_end:
  assumes "model_ok m" and "analyse m initial [] = (Ok, r)"
    and "running m sm" and "dead_end m (sm_current sm)"
  shows "(reports r DeadEndState (\<lambda>f. f_state f = s) \<longleftrightarrow> dead_end m s) \<and>
    sm_current (fold fire_event es sm) = sm_current sm"
  using reports_dead_end [OF assms(1,2), of s] assms(4) machine.run_stuck [OF assms(3), of es]
  by (auto simp: dead_end_def)

definition stuck_model :: model where
  "stuck_model = fst (snd (declare_state ''idle'' model_clear))"

definition stuck_machine :: state_machine where
  "stuck_machine = snd (sm_start (snd (sm_init stuck_model sample_setup new_machine)))"

lemma stuck_facts:
  "model_ok stuck_model" "running stuck_model stuck_machine" "dead_end stuck_model (sm_current stuck_machine)"
proof -
  show ok: "model_ok stuck_model"
    unfolding stuck_model_def by (intro built_model_ok built.intros)
  have "sm_model stuck_machine = Some stuck_model" "sm_started stuck_machine"
    "has_state stuck_model (sm_current stuck_machine)"
    by code_simp+
  with ok show "running stuck_model stuck_machine"
    by (simp add: running_def)
  have "analyse stuck_model 0 [] = (Ok, snd (analyse stuck_model 0 []))"
    "reports (snd (analyse stuck_model 0 [])) DeadEndState (\<lambda>f. f_state f = sm_current stuck_machine)"
    by code_simp+
  with reports_dead_end [OF ok] show "dead_end stuck_model (sm_current stuck_machine)"
    unfolding dead_end_def by blast
qed

theorem lint_dead_end_witness:
  "(reports (snd (analyse stuck_model 0 [])) DeadEndState (\<lambda>f. f_state f = 0) \<longleftrightarrow> dead_end stuck_model 0) \<and>
    sm_current (fold fire_event [(0, args_none)] stuck_machine) = sm_current stuck_machine"
proof (rule lint_dead_end [OF stuck_facts(1) _ stuck_facts(2,3)])
  show "analyse stuck_model 0 [] = (Ok, snd (analyse stuck_model 0 []))"
    by code_simp
qed

text \<open>The linter reports a trigger as unused exactly if it is declared and no state lists it;
  such a trigger is refused in every state with every argument.\<close>

theorem lint_unused_trigger:
  assumes "model_ok m" and "analyse m initial [] = (Ok, r)" and "never_listed m t"
  shows "(reports r UnusedTrigger (\<lambda>f. f_trigger f = u) \<longleftrightarrow> never_listed m u) \<and>
    model_evaluate m s t a = (DecisionNoTransition, kNoState)"
proof -
  have "model_evaluate m s t a = (DecisionNoTransition, kNoState)"
    using assms(3) by (auto simp: model_evaluate_def never_listed_def accepts_def split: option.splits)
  then show ?thesis
    using reports_unused [OF assms(1,2), of u] by (simp add: never_listed_def)
qed

theorem lint_unused_trigger_witness:
  "(reports flawed_report UnusedTrigger (\<lambda>f. f_trigger f = 1) \<longleftrightarrow> never_listed flawed_model 1) \<and>
    model_evaluate flawed_model 0 2 args_none = (DecisionNoTransition, kNoState)"
proof (rule lint_unused_trigger [OF flawed_model_ok flawed_facts(1)])
  show "never_listed flawed_model 2"
    using reports_unused [OF flawed_model_ok flawed_facts(1)] flawed_reports(3)
    unfolding never_listed_def by blast
qed

text \<open>C17: an alternative the linter reports as unreachable, impossible or shadowed is dead: without
  it the same alternative is taken for every arguments.\<close>

theorem lint_dead_alternative:
  assumes "model_ok m" and "list_all condition_wf (conditions m)" and "analyse m initial [] = (Ok, r)"
    and "f \<in> set r" and "f_check f \<in> {UnreachableAlternative, ImpossibleGuard, ShadowedAlternative}"
  shows "let b = behaviour m (f_state f) (f_trigger f); i = unat (f_alternative f) - 1
    in i < length b \<and> taken (take i b @ drop (Suc i) b) a = taken b a"
proof -
  from in_report(4) [OF assms(1,3)] assms(4,5) obtain s t i c other where f:
    "i < length (alternatives_of m s t)" "verdict m (alternatives_of m s t) i = Some (c, other)"
    "f = \<lparr>f_check = c, f_state = s, f_trigger = t, f_alternative = word_of_nat (i + 1), f_other = other\<rparr>"
    using guards_found_iff [OF assms(1), of f] by blast
  have "i + 1 < 256"
    using f(1) alternatives_of_ok(2) [OF assms(1), of s t] by (simp add: kMaxAlternatives_def)
  then have i: "unat (word_of_nat (i + 1) :: u8) - 1 = i"
    by (simp only: unat_u8_of_nat add_diff_cancel_right')
  have "taken (take i (behaviour m s t) @ drop (Suc i) (behaviour m s t)) a = taken (behaviour m s t) a"
    unfolding taken_def
  proof (rule first_match_leave_out)
    show "i < length (behaviour m s t)"
      using f(1) by (simp add: behaviour_def)
    assume "(\<lambda>(g, target). guard_holds a g) (behaviour m s t ! i)"
    then have "guard_holds a (guard_of m (alternatives_of m s t ! i))"
      using f(1) by (simp add: behaviour_def)
    from verdict_never_first [OF alternatives_of_ok(1) [OF assms(1)] assms(2) f(1) _ this] f(1,2)
    show "\<exists>j < i. (\<lambda>(g, target). guard_holds a g) (behaviour m s t ! j)"
      by (auto simp: behaviour_def)
  qed
  with f i show ?thesis
    by (simp add: Let_def behaviour_def del: of_nat_add of_nat_Suc)
qed

theorem lint_dead_alternative_witness:
  "let f = hd (filter (\<lambda>f. f_check f = ImpossibleGuard) flawed_report);
       b = behaviour flawed_model (f_state f) (f_trigger f); i = unat (f_alternative f) - 1
   in i < length b \<and> taken (take i b @ drop (Suc i) b) args_none = taken b args_none"
proof -
  let ?f = "hd (filter (\<lambda>f. f_check f = ImpossibleGuard) flawed_report)"
  have "list_ex (\<lambda>f. f = ?f) flawed_report" "f_check ?f = ImpossibleGuard"
    by code_simp+
  then have "?f \<in> set flawed_report" "f_check ?f \<in> {UnreachableAlternative, ImpossibleGuard, ShadowedAlternative}"
    by (auto simp: list_ex_iff)
  from lint_dead_alternative [OF flawed_model_ok flawed_facts(3,1) this, of args_none] show ?thesis
    by (simp only: Let_def)
qed





text \<open>C39: the reachability walk ends within as many rounds as there can be states. It takes each
  state that a path of transitions leads to off its stack exactly once and no other state, and
  after no round does the stack hold more states than its capacity; in a round the stack only
  grows after the first state is taken off (\<open>visits_grow\<close>), so no push goes past it either.\<close>

theorem lint_walk_bounded:
  assumes "model_ok m" and "has_state m initial"
  shows "\<exists>n. n \<le> kMaxStates \<and> reach_walk m initial n = (reached_from m initial, []) \<and>
    distinct (taken_off m initial n) \<and> set (taken_off m initial n) = {s. (edge m)\<^sup>*\<^sup>* initial s} \<and>
    (\<forall>k. length (snd (reach_walk m initial k)) \<le> kMaxStates)"
proof -
  note bound = has_state_bound [OF assms]
  from reach_loop_rounds [of m "reach_start initial"] obtain n where
    n: "reach_walk m initial n = (reached_from m initial, [])" "\<And>k. k < n \<Longrightarrow> snd (reach_walk m initial k) \<noteq> []"
    unfolding reach_walk_def reached_from_def by blast
  have walked: "walked (taken_off m initial k) (reach_walk m initial k)" if "k \<le> n" for k
    using that n(2) by (intro walked_rounds [OF bound]) simp
  have stays: "reach_walk m initial (n + k) = reach_walk m initial n" for k
    by (induction k) (simp_all add: reach_walk_def n(1) [unfolded reach_walk_def])
  have "length (snd (reach_walk m initial k)) \<le> kMaxStates" for k
    using walked_length [OF walked [of k]] stays [of "k - n"] n(1) by (cases "k \<le> n") simp_all
  moreover have "n \<le> kMaxStates"
    using walked_length [OF walked [of n]] by (simp add: taken_off_def)
  moreover have "unat s < kMaxStates" if "(edge m)\<^sup>*\<^sup>* initial s" for s
    using that bound by cases (auto dest: edge_bound [OF assms(1)])
  then have "distinct (taken_off m initial n) \<and> set (taken_off m initial n) = {s. (edge m)\<^sup>*\<^sup>* initial s}"
    using walked [of n] reached_from_exact [OF assms] by (auto simp: walked_def n(1))
  ultimately show ?thesis
    using n(1) by blast
qed

theorem lint_walk_bounded_witness:
  "\<exists>n. n \<le> kMaxStates \<and> reach_walk flawed_model 0 n = (reached_from flawed_model 0, []) \<and>
    distinct (taken_off flawed_model 0 n) \<and> set (taken_off flawed_model 0 n) = {s. (edge flawed_model)\<^sup>*\<^sup>* 0 s} \<and>
    (\<forall>k. length (snd (reach_walk flawed_model 0 k)) \<le> kMaxStates)"
  by (rule lint_walk_bounded [OF flawed_model_ok flawed_facts(2)])

text \<open>C40: \<open>analyse\<close> appends its findings to the report it is given and keeps what is there; it
  says so exactly when a finding did not fit, and then the report is full.\<close>

theorem lint_capacity:
  assumes "model_ok m" and "length r \<le> kMaxFindings"
  shows "case analyse m initial r of (status, r') \<Rightarrow>
    r' = take kMaxFindings (r @ all_found m initial) \<and> take (length r) r' = r \<and>
    (if length r + length (all_found m initial) \<le> kMaxFindings then status = Ok
     else status = CapacityExceeded \<and> length r' = kMaxFindings)"
  using assms(2) by (simp add: analyse_found [OF assms])

theorem lint_capacity_witness:
  "case analyse flawed_model 0 [] of (status, r') \<Rightarrow>
    r' = take kMaxFindings ([] @ all_found flawed_model 0) \<and> take (length ([] :: report)) r' = [] \<and>
    (if length ([] :: report) + length (all_found flawed_model 0) \<le> kMaxFindings then status = Ok
     else status = CapacityExceeded \<and> length r' = kMaxFindings)"
  by (rule lint_capacity [OF flawed_model_ok]) simp

end
