(* ===== verification/Diagram.thy ===== *)
theory Diagram
  imports MachineModel InspectText
begin

text \<open>
  include/fms/inspect/diagram.hpp and src/inspect/diagram.cpp: the machine drawn as Mermaid
  or Dot text. The sink is an argument, a function on the state behind its user pointer, and
  every emitter threads that state; the class \<open>Out\<close> is \<open>out_text\<close>. The lemmas
  show that what a sink receives is the text of an explicit drawing, cut into nonempty
  fragments that do not depend on the sink, and that the Dot text of a machine can be read
  back to the names and labels of its edges.
\<close>

section \<open>Emitting\<close>

datatype format = Mermaid | Dot

type_synonym 'u sink = "string \<Rightarrow> 'u \<Rightarrow> 'u"

definition out_text :: "'u sink \<Rightarrow> string \<Rightarrow> 'u \<Rightarrow> 'u" where
  "out_text sink text user = (if text \<noteq> [] then sink text user else user)"

definition replacement :: "format \<Rightarrow> char \<Rightarrow> string option" where
  "replacement format symbol =
     (if format = Mermaid then
        (if symbol = CHR ''<'' then Some ''#lt;''
         else if symbol = CHR ''>'' then Some ''#gt;''
         else if symbol = dquote then Some ''#quot;''
         else None)
      else
        (if symbol = dquote then Some [backslash, dquote]
         else if symbol = backslash then Some [backslash, backslash]
         else None))"

text \<open>The loop of \<open>emit_escaped\<close>: \<open>run\<close> is where the stretch that needs no escaping starts.\<close>

function escape_loop :: "'u sink \<Rightarrow> string \<Rightarrow> format \<Rightarrow> nat \<Rightarrow> nat \<Rightarrow> 'u \<Rightarrow> 'u" where
  "escape_loop sink text format run i user =
     (if i < length text then
        (case replacement format (text ! i) of
           Some r \<Rightarrow>
             let user = out_text sink (take (i - run) (drop run text)) user;
                 user = out_text sink (cstr r) user
             in escape_loop sink text format (i + 1) (i + 1) user
         | None \<Rightarrow> escape_loop sink text format run (i + 1) user)
      else out_text sink (take (length text - run) (drop run text)) user)"
  by pat_completeness auto
termination
  by (relation "measure (\<lambda>(sink, text, format, run, i, user). length text - i)") auto

declare escape_loop.simps [simp del]

definition emit_escaped :: "'u sink \<Rightarrow> string \<Rightarrow> format \<Rightarrow> 'u \<Rightarrow> 'u" where
  "emit_escaped sink text format user = escape_loop sink text format 0 0 user"

text \<open>The conditions of a guard; the loop stops at the end of the pool.\<close>

fun emit_conditions ::
  "'u sink \<Rightarrow> condition list \<Rightarrow> nat \<Rightarrow> nat list \<Rightarrow> format \<Rightarrow> 'u \<Rightarrow> 'u" where
  "emit_conditions sink pool begins [] format user = user"
| "emit_conditions sink pool begins (i # is) format user =
     (let index = begins + i
      in if length pool \<le> index then user
         else
           let user = (if 0 < i then out_text sink (cstr '' and '') user else user);
               text = append_condition kMaxMessageLength [] (pool ! index);
               user = emit_escaped sink text format user
           in emit_conditions sink pool begins is format user)"

definition emit_label ::
  "'u sink \<Rightarrow> model \<Rightarrow> trigger_id \<Rightarrow> alternative \<Rightarrow> bool \<Rightarrow> format \<Rightarrow> 'u \<Rightarrow> 'u" where
  "emit_label sink m trigger alternative has_siblings format user =
     (let user = emit_escaped sink (cstr (trigger_name m trigger)) format user;
          gap = cstr (if format = Mermaid then '' '' else backslash # ''n'')
      in if condition_count alternative = 0 then
           (if has_siblings
            then let user = out_text sink gap user in out_text sink (cstr ''[otherwise]'') user
            else user)
         else
           let user = out_text sink gap user;
               user = out_text sink (cstr ''['') user;
               user = emit_conditions sink (conditions m) (unat (first_condition alternative))
                        [0..<unat (condition_count alternative)] format user
           in out_text sink (cstr '']'') user)"

definition mermaid_edge ::
  "'u sink \<Rightarrow> model \<Rightarrow> state_id \<Rightarrow> trigger_id \<Rightarrow> bool \<Rightarrow> alternative \<Rightarrow> 'u \<Rightarrow> 'u" where
  "mermaid_edge sink m from trigger has_siblings alternative user =
     (let user = out_text sink (cstr ''    '') user;
          user = emit_escaped sink (cstr (state_name m from)) Mermaid user;
          user = out_text sink (cstr '' --> '') user;
          user = emit_escaped sink (cstr (state_name m (alt_target alternative))) Mermaid user;
          user = out_text sink (cstr '': '') user;
          user = emit_label sink m trigger alternative has_siblings Mermaid user
      in out_text sink (cstr [newline]) user)"

definition dot_edge ::
  "'u sink \<Rightarrow> model \<Rightarrow> state_id \<Rightarrow> trigger_id \<Rightarrow> bool \<Rightarrow> alternative \<Rightarrow> 'u \<Rightarrow> 'u" where
  "dot_edge sink m from trigger has_siblings alternative user =
     (let user = out_text sink (cstr (''  '' @ [dquote])) user;
          user = emit_escaped sink (cstr (state_name m from)) Dot user;
          user = out_text sink (cstr ([dquote] @ '' -> '' @ [dquote])) user;
          user = emit_escaped sink (cstr (state_name m (alt_target alternative))) Dot user;
          user = out_text sink (cstr ([dquote] @ '' [label='' @ [dquote])) user;
          user = emit_label sink m trigger alternative has_siblings Dot user
      in out_text sink (cstr ([dquote] @ ''];'' @ [newline])) user)"

text \<open>The three nested loops of both renderers, over the edge they print.\<close>

definition each_edge ::
  "(state_id \<Rightarrow> trigger_id \<Rightarrow> bool \<Rightarrow> alternative \<Rightarrow> 'u \<Rightarrow> 'u) \<Rightarrow> model \<Rightarrow> 'u \<Rightarrow> 'u" where
  "each_edge draw m user =
     fold (\<lambda>entry.
       fold (\<lambda>transition.
         let has_siblings = 1 < length (snd transition)
         in fold (draw (fst entry) (fst transition) has_siblings) (snd transition))
         (transitions (snd entry)))
       (states m) user"

definition render_mermaid :: "'u sink \<Rightarrow> model \<Rightarrow> state_id \<Rightarrow> 'u \<Rightarrow> 'u" where
  "render_mermaid sink m initial user =
     (let user = out_text sink (cstr (''stateDiagram-v2'' @ [newline])) user;
          user = (if initial \<noteq> kNoState \<and> has_state m initial then
                    let user = out_text sink (cstr ''    [*] --> '') user;
                        user = emit_escaped sink (cstr (state_name m initial)) Mermaid user
                    in out_text sink (cstr [newline]) user
                  else user)
      in each_edge (mermaid_edge sink m) m user)"

definition render_dot :: "'u sink \<Rightarrow> model \<Rightarrow> state_id \<Rightarrow> 'u \<Rightarrow> 'u" where
  "render_dot sink m initial user =
     (let user = out_text sink (cstr (''digraph '' @ [dquote])) user;
          user = emit_escaped sink (if mdl_name m = [] then cstr ''machine'' else mdl_name m) Dot user;
          user = out_text sink (cstr ([dquote] @ '' {'' @ [newline])) user;
          user = out_text sink (cstr (''  rankdir=LR;'' @ [newline])) user;
          user = out_text sink (cstr (''  node [shape=box, style=rounded, fontname='' @ [dquote] @
                   ''sans-serif'' @ [dquote] @ ''];'' @ [newline])) user;
          user = out_text sink (cstr (''  edge [fontname='' @ [dquote] @ ''sans-serif'' @ [dquote] @
                   '', fontsize=10];'' @ [newline])) user;
          user = (if initial \<noteq> kNoState \<and> has_state m initial then
                    let user = out_text sink (cstr (''  __start [shape=point, width=0.12, label='' @
                                 [dquote, dquote] @ ''];'' @ [newline])) user;
                        user = out_text sink (cstr (''  __start -> '' @ [dquote])) user;
                        user = emit_escaped sink (cstr (state_name m initial)) Dot user
                    in out_text sink (cstr ([dquote] @ '';'' @ [newline])) user
                  else user);
          user = each_edge (dot_edge sink m) m user
      in out_text sink (cstr (''}'' @ [newline])) user)"

text \<open>\<open>None\<close> is the null sink.\<close>

definition render :: "model \<Rightarrow> state_id \<Rightarrow> format \<Rightarrow> 'u sink option \<Rightarrow> 'u \<Rightarrow> status \<times> 'u" where
  "render m initial format sink user =
     (case sink of
        None \<Rightarrow> (InvalidArgument, user)
      | Some sink \<Rightarrow>
          (Ok, if format = Mermaid then render_mermaid sink m initial user
               else render_dot sink m initial user))"

text \<open>The flag returned and the format afterwards.\<close>

definition parse_format :: "string \<Rightarrow> format \<Rightarrow> bool \<times> format" where
  "parse_format name out =
     (if name = ''mermaid'' then (True, Mermaid)
      else if name = ''dot'' then (True, Dot)
      else (False, out))"

section \<open>The text of a drawing\<close>

definition escape :: "format \<Rightarrow> string \<Rightarrow> string" where
  "escape format text =
     concat (map (\<lambda>c. case replacement format c of None \<Rightarrow> [c] | Some r \<Rightarrow> r) text)"

definition gap_text :: "format \<Rightarrow> string" where
  "gap_text format = (if format = Mermaid then '' '' else backslash # ''n'')"

definition guard_text :: "format \<Rightarrow> condition list \<Rightarrow> string" where
  "guard_text format g =
     concat (map (\<lambda>(i, c). (if 0 < i then '' and '' else []) @
                  escape format (take kMaxMessageLength (condition_to_text c)))
       (enumerate 0 g))"

definition label_text :: "format \<Rightarrow> string \<Rightarrow> condition list \<Rightarrow> bool \<Rightarrow> string" where
  "label_text format trigger g has_siblings =
     escape format trigger @
     (if g = [] then (if has_siblings then gap_text format @ ''[otherwise]'' else [])
      else gap_text format @ ''['' @ guard_text format g @ '']'')"

definition edge_text ::
  "format \<Rightarrow> model \<Rightarrow> state_id \<Rightarrow> trigger_id \<Rightarrow> bool \<Rightarrow> alternative \<Rightarrow> string" where
  "edge_text format m from trigger has_siblings alternative =
     (let source = escape format (cstr (state_name m from));
          target = escape format (cstr (state_name m (alt_target alternative)));
          label = label_text format (cstr (trigger_name m trigger)) (guard_of m alternative) has_siblings
      in if format = Mermaid then ''    '' @ source @ '' --> '' @ target @ '': '' @ label @ [newline]
         else ''  '' @ [dquote] @ source @ [dquote] @ '' -> '' @ [dquote] @ target @ [dquote] @
              '' [label='' @ [dquote] @ label @ [dquote] @ ''];'' @ [newline])"

definition edges_text :: "format \<Rightarrow> model \<Rightarrow> string" where
  "edges_text format m =
     concat (map (\<lambda>entry. concat (map (\<lambda>transition.
         concat (map (edge_text format m (fst entry) (fst transition) (1 < length (snd transition)))
           (snd transition)))
         (transitions (snd entry))))
       (states m))"

definition start_text :: "format \<Rightarrow> model \<Rightarrow> state_id \<Rightarrow> string" where
  "start_text format m initial =
     (if initial \<noteq> kNoState \<and> has_state m initial then
        let target = escape format (cstr (state_name m initial))
        in if format = Mermaid then ''    [*] --> '' @ target @ [newline]
           else ''  __start [shape=point, width=0.12, label='' @ [dquote, dquote] @ ''];'' @ [newline] @
                ''  __start -> '' @ [dquote] @ target @ [dquote] @ '';'' @ [newline]
      else [])"

definition style_text :: string where
  "style_text =
     '' {'' @ [newline] @ ''  rankdir=LR;'' @ [newline] @
     ''  node [shape=box, style=rounded, fontname='' @ [dquote] @ ''sans-serif'' @ [dquote] @ ''];'' @ [newline] @
     ''  edge [fontname='' @ [dquote] @ ''sans-serif'' @ [dquote] @ '', fontsize=10];'' @ [newline]"

definition diagram_text :: "format \<Rightarrow> model \<Rightarrow> state_id \<Rightarrow> string" where
  "diagram_text format m initial =
     (if format = Mermaid then
        ''stateDiagram-v2'' @ [newline] @ start_text Mermaid m initial @ edges_text Mermaid m
      else
        ''digraph '' @ [dquote] @ escape Dot (if mdl_name m = [] then ''machine'' else mdl_name m) @ [dquote] @
        style_text @ start_text Dot m initial @ edges_text Dot m @ ''}'' @ [newline])"

section \<open>What a sink receives\<close>

text \<open>The sink that keeps every fragment.\<close>

definition collect :: "string list sink" where
  "collect text received = received @ [text]"

text \<open>
  \<open>wrote sink user text user' received\<close>: on the way from \<open>user\<close> to \<open>user'\<close> the
  sink was handed the fragments \<open>received\<close>, none of them empty, which make up \<open>text\<close>.
\<close>

definition wrote :: "'u sink \<Rightarrow> 'u \<Rightarrow> string \<Rightarrow> 'u \<Rightarrow> string list \<Rightarrow> bool" where
  "wrote sink user text user' received \<longleftrightarrow>
     [] \<notin> set received \<and> concat received = text \<and> user' = fold sink received user"

named_theorems wrote_intros \<open>what an emitter adds to the text written\<close>

lemma wrote_Nil: "wrote sink user [] user []"
  by (simp add: wrote_def)

lemma wrote_out [wrote_intros]:
  "wrote sink u0 t u ts \<Longrightarrow> wrote sink u0 (t @ x) (out_text sink x u) (out_text collect x ts)"
  by (auto simp: wrote_def out_text_def collect_def)

lemma escape_simps [simp]:
  "escape f [] = []"
  "escape f (c # cs) = (case replacement f c of None \<Rightarrow> [c] | Some r \<Rightarrow> r) @ escape f cs"
  "escape f (xs @ ys) = escape f xs @ escape f ys"
  by (simp_all add: escape_def)

lemma cstr_replacement: "replacement f c = Some r \<Longrightarrow> cstr r = r"
  by (auto simp: replacement_def char_defs cstr_def split: if_splits)

text \<open>Between \<open>run\<close> and \<open>i\<close> nothing needs escaping: the invariant of the loop.\<close>

lemma wrote_escape_loop:
  assumes "wrote sink u0 t u ts" and "run \<le> i" and "i \<le> length text"
    and "escape f (take (i - run) (drop run text)) = take (i - run) (drop run text)"
  shows "wrote sink u0 (t @ escape f (drop run text)) (escape_loop sink text f run i u)
    (escape_loop collect text f run i ts)"
  using assms
proof (induction "length text - i" arbitrary: t u ts run i)
  case 0
  then have "i = length text" by simp
  with 0(5) have "escape f (drop run text) = drop run text" by simp
  with wrote_out [OF 0(2), of "drop run text"] \<open>i = length text\<close> show ?case
    by (simp add: escape_loop.simps)
next
  case (Suc n)
  define stretch where "stretch = take (i - run) (drop run text)"
  from Suc(2) have i: "i < length text" by simp
  from i Suc(4) have pieces: "drop run text = stretch @ text ! i # drop (Suc i) text"
    unfolding stretch_def
    by (metis Cons_nth_drop_Suc append_take_drop_id drop_drop le_add_diff_inverse2)
  have esc: "escape f stretch = stretch" using Suc(6) by (simp add: stretch_def)
  show ?case
  proof (cases "replacement f (text ! i)")
    case None
    have "take (Suc i - run) (drop run text) = stretch @ [text ! i]"
      unfolding pieces using i Suc(4) by (simp add: stretch_def Suc_diff_le)
    with esc None have "escape f (take (Suc i - run) (drop run text)) = take (Suc i - run) (drop run text)"
      by simp
    then have "wrote sink u0 (t @ escape f (drop run text)) (escape_loop sink text f run (Suc i) u)
        (escape_loop collect text f run (Suc i) ts)"
      using Suc(2,4) i by (intro Suc(1) Suc(3)) simp_all
    with i None show ?thesis
      by (simp add: escape_loop.simps [of _ _ f run i])
  next
    case (Some r)
    have "wrote sink u0 (((t @ stretch) @ r) @ escape f (drop (Suc i) text))
        (escape_loop sink text f (Suc i) (Suc i) (out_text sink r (out_text sink stretch u)))
        (escape_loop collect text f (Suc i) (Suc i) (out_text collect r (out_text collect stretch ts)))"
      using Suc(2) i by (intro Suc(1) wrote_out Suc(3)) simp_all
    moreover have "escape f (drop run text) = stretch @ r @ escape f (drop (Suc i) text)"
      by (simp add: pieces esc Some)
    ultimately show ?thesis
      using i Some cstr_replacement [OF Some]
      by (simp add: escape_loop.simps [of _ _ f run i] Let_def stretch_def [symmetric])
  qed
qed

lemma wrote_escaped [wrote_intros]:
  "wrote sink u0 t u ts \<Longrightarrow>
    wrote sink u0 (t @ escape f text) (emit_escaped sink text f u) (emit_escaped collect text f ts)"
  using wrote_escape_loop [of sink u0 t u ts 0 0 _ f] by (simp add: emit_escaped_def)

lemma wrote_conditions:
  assumes "wrote sink u0 t u ts" and "begins + length g \<le> length pool - k"
    and "take (length g) (drop (begins + k) pool) = g"
  shows "wrote sink u0
     (t @ concat (map (\<lambda>(i, c). (if 0 < i then '' and '' else []) @
             escape f (take kMaxMessageLength (condition_to_text c))) (enumerate k g)))
     (emit_conditions sink pool begins [k..<k + length g] f u)
     (emit_conditions collect pool begins [k..<k + length g] f ts)"
  using assms
proof (induction g arbitrary: t u ts k)
  case (Cons c g)
  from Cons(3) have len: "begins + k < length pool" by simp
  with Cons(4) have c: "pool ! (begins + k) = c" and
      g: "take (length g) (drop (begins + Suc k) pool) = g"
    by (simp_all add: Cons_nth_drop_Suc [symmetric])
  have and_text: "cstr '' and '' = '' and ''" by (simp add: cstr_def)
  let ?sep = "if 0 < k then '' and '' else []"
  let ?cond = "escape f (take kMaxMessageLength (condition_to_text c))"
  have sep: "wrote sink u0 (t @ ?sep) (if 0 < k then out_text sink '' and '' u else u)
      (if 0 < k then out_text collect '' and '' ts else ts)"
    using wrote_out [OF Cons(2), of "'' and ''"] Cons(2) by simp
  from Cons(1) [OF wrote_escaped [OF sep, of f "take kMaxMessageLength (condition_to_text c)"], of "Suc k"] Cons(3) g
  have "wrote sink u0 (((t @ ?sep) @ ?cond) @
      concat (map (\<lambda>(i, c). (if 0 < i then '' and '' else []) @
             escape f (take kMaxMessageLength (condition_to_text c))) (enumerate (Suc k) g)))
     (emit_conditions sink pool begins [Suc k..<Suc k + length g] f
        (emit_escaped sink (take kMaxMessageLength (condition_to_text c)) f
           (if 0 < k then out_text sink '' and '' u else u)))
     (emit_conditions collect pool begins [Suc k..<Suc k + length g] f
        (emit_escaped collect (take kMaxMessageLength (condition_to_text c)) f
           (if 0 < k then out_text collect '' and '' ts else ts)))"
    by simp
  moreover have indices: "[k..<k + length (c # g)] = k # [Suc k..<Suc k + length g]"
    by (simp add: upt_conv_Cons del: upt_Suc)
  ultimately show ?case
    unfolding indices emit_conditions.simps Let_def
    using len c and_text by (cases "k = 0") (simp_all add: append_condition_Nil del: upt_Suc)
qed simp

lemma guard_of_length:
  "alternative_ok m alt \<Longrightarrow> length (guard_of m alt) = unat (condition_count alt)"
  by (auto simp: alternative_ok_def guard_of_def)

lemma guard_of_Nil: "alternative_ok m alt \<Longrightarrow> guard_of m alt = [] \<longleftrightarrow> condition_count alt = 0"
  using guard_of_length [of m alt] by (metis length_0_conv unat_eq_zero)

lemma wrote_guard:
  assumes "alternative_ok m alt" and "wrote sink u0 t u ts"
  shows "wrote sink u0 (t @ guard_text f (guard_of m alt))
     (emit_conditions sink (conditions m) (unat (first_condition alt)) [0..<unat (condition_count alt)] f u)
     (emit_conditions collect (conditions m) (unat (first_condition alt)) [0..<unat (condition_count alt)] f ts)"
  using wrote_conditions [OF assms(2), of "unat (first_condition alt)" "guard_of m alt" "conditions m" 0 f]
    assms(1) guard_of_length [OF assms(1)]
  by (simp add: guard_text_def alternative_ok_def) (simp add: guard_of_def)

lemma cstr_gap: "cstr (if f = Mermaid then '' '' else backslash # ''n'') = gap_text f"
  by (simp add: gap_text_def cstr_def char_defs)

lemma wrote_label:
  assumes ok: "alternative_ok m alt" and "wrote sink u0 t u ts"
  shows "wrote sink u0 (t @ label_text f (cstr (trigger_name m trigger)) (guard_of m alt) siblings)
     (emit_label sink m trigger alt siblings f u) (emit_label collect m trigger alt siblings f ts)"
proof -
  note name = wrote_escaped [OF assms(2), of f "cstr (trigger_name m trigger)"]
  have cstrs: "cstr ''[otherwise]'' = ''[otherwise]''" "cstr ''['' = ''[''" "cstr '']'' = '']''"
    by (simp_all add: cstr_def)
  show ?thesis
  proof (cases "condition_count alt = 0")
    case True
    with name wrote_out [OF wrote_out [OF name, of "gap_text f"], of "''[otherwise]''"] ok show ?thesis
      unfolding emit_label_def Let_def cstr_gap cstrs label_text_def by (simp add: guard_of_Nil)
  next
    case False
    with ok wrote_out [OF wrote_guard [OF ok wrote_out [OF wrote_out [OF name, of "gap_text f"], of "''[''"], of f], of "'']''"]
    show ?thesis
      unfolding emit_label_def Let_def cstr_gap cstrs label_text_def by (simp add: guard_of_Nil)
  qed
qed

lemma wrote_fold:
  assumes "wrote sink u0 t u ts"
    and "\<And>x t u ts. x \<in> set xs \<Longrightarrow> wrote sink u0 t u ts \<Longrightarrow> wrote sink u0 (t @ piece x) (op x u) (rop x ts)"
  shows "wrote sink u0 (t @ concat (map piece xs)) (fold op xs u) (fold rop xs ts)"
  using assms
proof (induction xs arbitrary: t u ts)
  case (Cons x xs)
  have "wrote sink u0 (t @ piece x) (op x u) (rop x ts)"
    using Cons(2,3) by simp
  from Cons(1) [OF this] Cons(3) show ?case by simp
qed simp

lemma wrote_edge:
  assumes "alternative_ok m alt" and "wrote sink u0 t u ts"
  shows "wrote sink u0 (t @ edge_text Mermaid m from trigger siblings alt)
      (mermaid_edge sink m from trigger siblings alt u) (mermaid_edge collect m from trigger siblings alt ts)"
    and "wrote sink u0 (t @ edge_text Dot m from trigger siblings alt)
      (dot_edge sink m from trigger siblings alt u) (dot_edge collect m from trigger siblings alt ts)"
proof -
  let ?source = "\<lambda>f. escape f (cstr (state_name m from))"
  let ?target = "\<lambda>f. escape f (cstr (state_name m (alt_target alt)))"
  let ?label = "\<lambda>f. label_text f (cstr (trigger_name m trigger)) (guard_of m alt) siblings"
  have "wrote sink u0 (((((((t @ cstr ''    '') @ ?source Mermaid) @ cstr '' --> '') @ ?target Mermaid) @
        cstr '': '') @ ?label Mermaid) @ cstr [newline])
      (mermaid_edge sink m from trigger siblings alt u) (mermaid_edge collect m from trigger siblings alt ts)"
    unfolding mermaid_edge_def Let_def
    by (intro wrote_out wrote_escaped wrote_label assms)
  then show "wrote sink u0 (t @ edge_text Mermaid m from trigger siblings alt)
      (mermaid_edge sink m from trigger siblings alt u) (mermaid_edge collect m from trigger siblings alt ts)"
    by (simp add: edge_text_def Let_def cstr_def newline_def)
  have "wrote sink u0 (((((((t @ cstr (''  '' @ [dquote])) @ ?source Dot) @
        cstr ([dquote] @ '' -> '' @ [dquote])) @ ?target Dot) @ cstr ([dquote] @ '' [label='' @ [dquote])) @
        ?label Dot) @ cstr ([dquote] @ ''];'' @ [newline]))
      (dot_edge sink m from trigger siblings alt u) (dot_edge collect m from trigger siblings alt ts)"
    unfolding dot_edge_def Let_def
    by (intro wrote_out wrote_escaped wrote_label assms)
  then show "wrote sink u0 (t @ edge_text Dot m from trigger siblings alt)
      (dot_edge sink m from trigger siblings alt u) (dot_edge collect m from trigger siblings alt ts)"
    by (simp add: edge_text_def Let_def cstr_def newline_def dquote_def)
qed

lemma wrote_edges:
  assumes ok: "model_ok m" and "wrote sink u0 t u ts"
    and edge: "\<And>from trigger siblings alt t u ts. alternative_ok m alt \<Longrightarrow> wrote sink u0 t u ts \<Longrightarrow>
      wrote sink u0 (t @ edge_text f m from trigger siblings alt)
        (draw from trigger siblings alt u) (redraw from trigger siblings alt ts)"
  shows "wrote sink u0 (t @ edges_text f m) (each_edge draw m u) (each_edge redraw m ts)"
proof -
  have known: "alternative_ok m alt"
    if "entry \<in> set (states m)" "transition \<in> set (transitions (snd entry))" "alt \<in> set (snd transition)"
    for entry transition alt
    using alternatives_short(1) [OF ok, of "fst entry" "snd entry" "fst transition" "snd transition"] that
      alternatives_of_ok(1) [OF ok, of "fst entry" "fst transition"]
    by (simp add: list_all_iff)
  show ?thesis
    unfolding edges_text_def each_edge_def Let_def
    by (intro wrote_fold edge assms(2)) (use known in auto)
qed

lemma wrote_start:
  assumes "wrote sink u0 t u ts"
  shows "wrote sink u0 (t @ start_text Mermaid m initial)
     (if initial \<noteq> kNoState \<and> has_state m initial then
        out_text sink (cstr [newline]) (emit_escaped sink (cstr (state_name m initial)) Mermaid
          (out_text sink (cstr ''    [*] --> '') u)) else u)
     (if initial \<noteq> kNoState \<and> has_state m initial then
        out_text collect (cstr [newline]) (emit_escaped collect (cstr (state_name m initial)) Mermaid
          (out_text collect (cstr ''    [*] --> '') ts)) else ts)"
  using wrote_out [OF wrote_escaped [OF wrote_out [OF assms, of "cstr ''    [*] --> ''"], of Mermaid
      "cstr (state_name m initial)"], of "cstr [newline]"] assms
  by (simp add: start_text_def Let_def) (simp add: cstr_def newline_def)

lemma wrote_start_dot:
  assumes "wrote sink u0 t u ts"
  shows "wrote sink u0 (t @ start_text Dot m initial)
     (if initial \<noteq> kNoState \<and> has_state m initial then
        out_text sink (cstr ([dquote] @ '';'' @ [newline])) (emit_escaped sink (cstr (state_name m initial)) Dot
          (out_text sink (cstr (''  __start -> '' @ [dquote]))
            (out_text sink (cstr (''  __start [shape=point, width=0.12, label='' @ [dquote, dquote] @ ''];'' @ [newline])) u)))
      else u)
     (if initial \<noteq> kNoState \<and> has_state m initial then
        out_text collect (cstr ([dquote] @ '';'' @ [newline])) (emit_escaped collect (cstr (state_name m initial)) Dot
          (out_text collect (cstr (''  __start -> '' @ [dquote]))
            (out_text collect (cstr (''  __start [shape=point, width=0.12, label='' @ [dquote, dquote] @ ''];'' @ [newline])) ts)))
      else ts)"
proof (cases "initial \<noteq> kNoState \<and> has_state m initial")
  case True
  have "wrote sink u0 ((((t @ cstr (''  __start [shape=point, width=0.12, label='' @ [dquote, dquote] @ ''];'' @ [newline])) @
        cstr (''  __start -> '' @ [dquote])) @ escape Dot (cstr (state_name m initial))) @
        cstr ([dquote] @ '';'' @ [newline]))
     (out_text sink (cstr ([dquote] @ '';'' @ [newline])) (emit_escaped sink (cstr (state_name m initial)) Dot
          (out_text sink (cstr (''  __start -> '' @ [dquote]))
            (out_text sink (cstr (''  __start [shape=point, width=0.12, label='' @ [dquote, dquote] @ ''];'' @ [newline])) u))))
     (out_text collect (cstr ([dquote] @ '';'' @ [newline])) (emit_escaped collect (cstr (state_name m initial)) Dot
          (out_text collect (cstr (''  __start -> '' @ [dquote]))
            (out_text collect (cstr (''  __start [shape=point, width=0.12, label='' @ [dquote, dquote] @ ''];'' @ [newline])) ts))))"
    by (intro wrote_out wrote_escaped assms)
  moreover have "((((t @ cstr (''  __start [shape=point, width=0.12, label='' @ [dquote, dquote] @ ''];'' @ [newline])) @
        cstr (''  __start -> '' @ [dquote])) @ escape Dot (cstr (state_name m initial))) @
        cstr ([dquote] @ '';'' @ [newline])) = t @ start_text Dot m initial"
    using True by (simp add: start_text_def Let_def cstr_def char_defs)
  ultimately show ?thesis
    using True by (simp only: if_True simp_thms)
qed (use assms in \<open>auto simp: start_text_def\<close>)

lemma wrote_diagram:
  assumes "model_ok m"
  shows "wrote sink u0 (diagram_text f m initial) (snd (render m initial f (Some sink) u0))
     (snd (render m initial f (Some collect) []))"
proof (cases f)
  case Mermaid
  have "wrote sink u0 ((([] @ cstr (''stateDiagram-v2'' @ [newline])) @ start_text Mermaid m initial) @
      edges_text Mermaid m) (render_mermaid sink m initial u0) (render_mermaid collect m initial [])"
    unfolding render_mermaid_def Let_def
    by (intro wrote_edges assms wrote_start wrote_out wrote_Nil wrote_edge)
  with Mermaid show ?thesis
    by (simp add: render_def diagram_text_def) (simp add: cstr_def newline_def)
next
  case Dot
  have machine: "cstr ''machine'' = ''machine''" by (simp add: cstr_def)
  have "wrote sink u0 (((((((((([] @ cstr (''digraph '' @ [dquote])) @
        escape Dot (if mdl_name m = [] then cstr ''machine'' else mdl_name m)) @
        cstr ([dquote] @ '' {'' @ [newline])) @ cstr (''  rankdir=LR;'' @ [newline])) @
        cstr (''  node [shape=box, style=rounded, fontname='' @ [dquote] @ ''sans-serif'' @ [dquote] @ ''];'' @ [newline])) @
        cstr (''  edge [fontname='' @ [dquote] @ ''sans-serif'' @ [dquote] @ '', fontsize=10];'' @ [newline])) @
        start_text Dot m initial) @ edges_text Dot m) @ cstr (''}'' @ [newline])))
      (render_dot sink m initial u0) (render_dot collect m initial [])"
    unfolding render_dot_def Let_def
    by (intro wrote_edges assms wrote_start_dot wrote_out wrote_escaped wrote_Nil wrote_edge)
  note this [unfolded machine]
  with Dot show ?thesis
    by (simp add: render_def diagram_text_def style_text_def del: escape_simps) (cases "mdl_name m = []"; simp add: cstr_def char_defs del: escape_simps)
qed

section \<open>Reading a Dot drawing back\<close>

text \<open>A quoted string, from behind its opening quote: its text and what follows the closing one.\<close>

fun read_quoted :: "string \<Rightarrow> (string \<times> string) option" where
  "read_quoted [] = None"
| "read_quoted (c # cs) =
     (if c = dquote then Some ([], cs)
      else if c = backslash then
        (case cs of
           [] \<Rightarrow> None
         | d # ds \<Rightarrow> map_option (\<lambda>(t, rest). ((if d = CHR ''n'' then newline else d) # t, rest)) (read_quoted ds))
      else map_option (\<lambda>(t, rest). (c # t, rest)) (read_quoted cs))"

definition expect :: "string \<Rightarrow> string \<Rightarrow> string option" where
  "expect p t = (if take (length p) t = p then Some (drop (length p) t) else None)"

text \<open>A line \<open>"source" -> "target" [label="label"];\<close>.\<close>

type_synonym drawn_edge = "string \<times> string \<times> string"

definition read_edge :: "string \<Rightarrow> (drawn_edge \<times> string) option" where
  "read_edge t =
     Option.bind (expect (''  '' @ [dquote]) t) (\<lambda>t.
     Option.bind (read_quoted t) (\<lambda>(source, t).
     Option.bind (expect ('' -> '' @ [dquote]) t) (\<lambda>t.
     Option.bind (read_quoted t) (\<lambda>(target, t).
     Option.bind (expect ('' [label='' @ [dquote]) t) (\<lambda>t.
     Option.bind (read_quoted t) (\<lambda>(label, t).
     Option.bind (expect (''];'' @ [newline]) t) (\<lambda>t.
     Some ((source, target, label), t))))))))"

lemma read_quoted_shorter: "read_quoted t = Some (x, rest) \<Longrightarrow> length rest < length t"
  by (induction t arbitrary: x rest rule: read_quoted.induct)
     (fastforce split: if_splits list.splits)+

lemma expect_shorter: "expect p t = Some rest \<Longrightarrow> length rest \<le> length t"
  by (auto simp: expect_def split: if_splits)

lemma read_edge_shorter: "read_edge t = Some (e, rest) \<Longrightarrow> length rest < length t"
  by (fastforce simp: read_edge_def bind_eq_Some_conv dest!: read_quoted_shorter expect_shorter)

function read_edges :: "string \<Rightarrow> drawn_edge list \<times> string" where
  "read_edges t =
     (case read_edge t of
        None \<Rightarrow> ([], t)
      | Some (e, rest) \<Rightarrow> (case read_edges rest of (es, rest) \<Rightarrow> (e # es, rest)))"
  by pat_completeness auto
termination
  by (relation "measure length") (auto dest: read_edge_shorter)

declare read_edges.simps [simp del]

text \<open>A whole drawing: the name of the machine, its initial state, its edges.\<close>

definition read_start :: "string \<Rightarrow> string option \<times> string" where
  "read_start t =
     (case Option.bind (expect (''  __start [shape=point, width=0.12, label='' @ [dquote, dquote] @ ''];'' @ [newline] @
                          ''  __start -> '' @ [dquote]) t) (\<lambda>t.
           Option.bind (read_quoted t) (\<lambda>(initial, t).
           Option.bind (expect ('';'' @ [newline]) t) (\<lambda>t. Some (initial, t)))) of
        None \<Rightarrow> (None, t)
      | Some (initial, t) \<Rightarrow> (Some initial, t))"

definition read_dot :: "string \<Rightarrow> (string \<times> string option \<times> drawn_edge list) option" where
  "read_dot t =
     Option.bind (expect (''digraph '' @ [dquote]) t) (\<lambda>t.
     Option.bind (read_quoted t) (\<lambda>(name, t).
     Option.bind (expect style_text t) (\<lambda>t.
     let (initial, t) = read_start t; (es, t) = read_edges t
     in if t = ''}'' @ [newline] then Some (name, initial, es) else None)))"

section \<open>What a drawing says\<close>

definition drawn_guard :: "condition list \<Rightarrow> string" where
  "drawn_guard g =
     concat (map (\<lambda>(i, c). (if 0 < i then '' and '' else []) @ take kMaxMessageLength (condition_to_text c))
       (enumerate 0 g))"

definition drawn_label :: "string \<Rightarrow> condition list \<Rightarrow> bool \<Rightarrow> string" where
  "drawn_label trigger g has_siblings =
     trigger @
     (if g = [] then (if has_siblings then newline # ''[otherwise]'' else [])
      else newline # ''['' @ drawn_guard g @ '']'')"

text \<open>One edge per outcome of the behaviour, in the order of the tables: from, to, trigger, guard and
  whether the outcome has siblings; then with the last three as a label.\<close>

type_synonym drawn_line = "string \<times> string \<times> string \<times> condition list \<times> bool"

definition drawn_lines :: "model \<Rightarrow> drawn_line list" where
  "drawn_lines m =
     concat (map (\<lambda>s. concat (map (\<lambda>t.
         map (\<lambda>(g, target).
             (cstr (state_name m s), cstr (state_name m target), cstr (trigger_name m t), g, 1 < length (behaviour m s t)))
           (behaviour m s t))
         (map fst (transitions (the (model_state m s))))))
       (map fst (states m)))"

fun labelled :: "drawn_line \<Rightarrow> drawn_edge" where
  "labelled (source, target, trigger, g, siblings) = (source, target, drawn_label trigger g siblings)"

definition drawn_edges :: "model \<Rightarrow> drawn_edge list" where
  "drawn_edges m = map labelled (drawn_lines m)"

definition drawn_initial :: "model \<Rightarrow> state_id \<Rightarrow> string option" where
  "drawn_initial m initial =
     (if initial \<noteq> kNoState \<and> has_state m initial then Some (cstr (state_name m initial)) else None)"

definition drawn_name :: "model \<Rightarrow> string" where
  "drawn_name m = (if mdl_name m = [] then ''machine'' else mdl_name m)"

section \<open>The reader inverts the renderer\<close>

lemma expect_append [simp]: "expect p (p @ t) = Some t"
  by (simp add: expect_def)

text \<open>\<open>reads_as a t\<close>: inside a quoted string, \<open>a\<close> is read as the text \<open>t\<close>.\<close>

definition reads_as :: "string \<Rightarrow> string \<Rightarrow> bool" where
  "reads_as a t \<longleftrightarrow> (\<forall>s. read_quoted (a @ s) = map_option (\<lambda>(x, rest). (t @ x, rest)) (read_quoted s))"

lemma reads_as_Nil: "reads_as [] []"
  by (simp add: reads_as_def option.map_id)

lemma reads_as_append: "reads_as a t \<Longrightarrow> reads_as b u \<Longrightarrow> reads_as (a @ b) (t @ u)"
  by (simp add: reads_as_def option.map_comp comp_def case_prod_unfold)

lemma reads_as_char: "c \<noteq> dquote \<Longrightarrow> c \<noteq> backslash \<Longrightarrow> reads_as [c] [c]"
  by (simp add: reads_as_def)

lemma reads_as_newline: "reads_as (backslash # ''n'') [newline]"
  by (simp add: reads_as_def char_defs)

lemma reads_as_escape: "reads_as (escape Dot t) t"
proof (induction t)
  case (Cons c t)
  have "reads_as (case replacement Dot c of None \<Rightarrow> [c] | Some r \<Rightarrow> r) [c]"
    by (auto simp: replacement_def reads_as_def char_defs)
  from reads_as_append [OF this Cons] show ?case by simp
qed (simp add: reads_as_Nil)

lemma reads_as_plain: "dquote \<notin> set t \<Longrightarrow> backslash \<notin> set t \<Longrightarrow> reads_as t t"
proof (induction t)
  case (Cons c t)
  then show ?case
    using reads_as_append [OF reads_as_char [of c], of t t] by (simp add: eq_commute)
qed (simp add: reads_as_Nil)

lemma reads_as_concat:
  "(\<And>x. x \<in> set xs \<Longrightarrow> reads_as (f x) (g x)) \<Longrightarrow> reads_as (concat (map f xs)) (concat (map g xs))"
  by (induction xs) (simp_all add: reads_as_Nil reads_as_append)

lemma reads_as_guard: "reads_as (guard_text Dot g) (drawn_guard g)"
  unfolding guard_text_def drawn_guard_def
proof (rule reads_as_concat)
  fix x assume "x \<in> set (enumerate 0 g)"
  obtain i c where [simp]: "x = (i, c)" by (cases x)
  have "reads_as (if 0 < i then '' and '' else []) (if 0 < i then '' and '' else [])"
    by (simp add: reads_as_Nil reads_as_plain char_defs)
  from reads_as_append [OF this reads_as_escape [of "take kMaxMessageLength (condition_to_text c)"]]
  show "reads_as (case x of (i, c) \<Rightarrow> (if 0 < i then '' and '' else []) @
        escape Dot (take kMaxMessageLength (condition_to_text c)))
      (case x of (i, c) \<Rightarrow> (if 0 < i then '' and '' else []) @ take kMaxMessageLength (condition_to_text c))"
    by simp
qed

lemma reads_as_label: "reads_as (label_text Dot trigger g siblings) (drawn_label trigger g siblings)"
proof -
  have otherwise: "reads_as ''[otherwise]'' ''[otherwise]''" and open_b: "reads_as ''['' ''[''" and
      close_b: "reads_as '']'' '']''"
    by (simp_all add: reads_as_plain char_defs)
  note fallback = reads_as_append [OF reads_as_newline otherwise]
  note guarded = reads_as_append [OF reads_as_newline
      reads_as_append [OF open_b reads_as_append [OF reads_as_guard [of g] close_b]]]
  show ?thesis
    using reads_as_append [OF reads_as_escape [of trigger] fallback]
      reads_as_append [OF reads_as_escape [of trigger] guarded] reads_as_escape [of trigger]
    by (simp add: label_text_def drawn_label_def gap_text_def)
qed

lemma read_quoted_end: "reads_as a t \<Longrightarrow> read_quoted (a @ dquote # rest) = Some (t, rest)"
  by (simp add: reads_as_def)

definition drawn_edge :: "model \<Rightarrow> state_id \<Rightarrow> trigger_id \<Rightarrow> bool \<Rightarrow> alternative \<Rightarrow> drawn_edge" where
  "drawn_edge m from trigger siblings alt =
     (cstr (state_name m from), cstr (state_name m (alt_target alt)),
      drawn_label (cstr (trigger_name m trigger)) (guard_of m alt) siblings)"

lemma read_edge_text:
  "read_edge (edge_text Dot m from trigger siblings alt @ rest) = Some (drawn_edge m from trigger siblings alt, rest)"
proof -
  let ?q = "\<lambda>t. escape Dot (cstr t)"
  let ?l = "label_text Dot (cstr (trigger_name m trigger)) (guard_of m alt) siblings"
  have whole: "edge_text Dot m from trigger siblings alt @ rest =
    (''  '' @ [dquote]) @ ?q (state_name m from) @ dquote # (('' -> '' @ [dquote]) @
      ?q (state_name m (alt_target alt)) @ dquote # (('' [label='' @ [dquote]) @ ?l @ dquote #
      ((''];'' @ [newline]) @ rest)))"
    by (simp add: edge_text_def Let_def)
  show ?thesis
    unfolding whole read_edge_def drawn_edge_def expect_append bind.bind_lunit
      read_quoted_end [OF reads_as_escape] read_quoted_end [OF reads_as_label] prod.case by simp
qed

lemma read_edges_texts:
  assumes "read_edge rest = None" and "\<And>x. x \<in> set xs \<Longrightarrow> \<exists>s t b a. text_of x = edge_text Dot m s t b a \<and> e x = drawn_edge m s t b a"
  shows "read_edges (concat (map text_of xs) @ rest) = (map e xs, rest)"
  using assms(2)
proof (induction xs)
  case Nil
  with assms(1) show ?case by (simp add: read_edges.simps)
next
  case (Cons x xs)
  from Cons(2) [of x] obtain s t b a where "text_of x = edge_text Dot m s t b a" "e x = drawn_edge m s t b a"
    by auto
  with read_edge_text [of m s t b a "concat (map text_of xs) @ rest"] Cons show ?case
    by (simp add: read_edges.simps [of "edge_text _ _ _ _ _ _ @ _"])
qed

text \<open>The loops of the renderer, flattened.\<close>

definition all_edges :: "model \<Rightarrow> (state_id \<times> trigger_id \<times> bool \<times> alternative) list" where
  "all_edges m =
     concat (map (\<lambda>entry. concat (map (\<lambda>transition.
         map (\<lambda>alt. (fst entry, fst transition, 1 < length (snd transition), alt)) (snd transition))
         (transitions (snd entry))))
       (states m))"

lemma edges_text_all: "edges_text f m = concat (map (\<lambda>(s, t, b, a). edge_text f m s t b a) (all_edges m))"
  by (simp add: edges_text_def all_edges_def concat_map_concat comp_def)

fun named_line :: "model \<Rightarrow> state_id \<times> trigger_id \<times> bool \<times> alternative \<Rightarrow> drawn_line" where
  "named_line m (from, trigger, siblings, alt) =
     (cstr (state_name m from), cstr (state_name m (alt_target alt)), cstr (trigger_name m trigger), guard_of m alt, siblings)"

lemma drawn_lines_all:
  assumes "model_ok m"
  shows "drawn_lines m = map (named_line m) (all_edges m)"
proof -
  have "concat (map (\<lambda>t. map (\<lambda>(g, target). (cstr (state_name m (fst entry)), cstr (state_name m target),
              cstr (trigger_name m t), g, 1 < length (behaviour m (fst entry) t)))
           (behaviour m (fst entry) t))
         (map fst (transitions (the (model_state m (fst entry)))))) =
      concat (map (\<lambda>transition. map (\<lambda>alt. named_line m (fst entry, fst transition,
          1 < length (snd transition), alt)) (snd transition)) (transitions (snd entry)))"
    if "entry \<in> set (states m)" for entry
  proof -
    have "fm_find (states m) (fst entry) = Some (snd entry)"
      using that model_okD(1) [OF assms] by (simp add: tables_ok_def dense_fm_ok fm_find_iff)
    then have node: "the (model_state m (fst entry)) = snd entry"
      by (simp add: model_state_def)
    have "alternatives_of m (fst entry) (fst tr) = snd tr" if "tr \<in> set (transitions (snd entry))" for tr
      using alternatives_short(1) [OF assms, of "fst entry" "snd entry" "fst tr" "snd tr"] that
        \<open>entry \<in> set (states m)\<close> by simp
    with node show ?thesis
      by (auto simp: behaviour_def comp_def intro!: arg_cong [of _ _ concat] map_cong)
  qed
  then show ?thesis
    unfolding drawn_lines_def all_edges_def
    by (simp add: map_concat comp_def cong: map_cong)
qed

lemma drawn_edges_all: "model_ok m \<Longrightarrow> drawn_edges m = map (\<lambda>(s, t, b, a). drawn_edge m s t b a) (all_edges m)"
  by (auto simp: drawn_edges_def drawn_lines_all drawn_edge_def)

text \<open>The line of the drawing, from the names.\<close>

fun line_text :: "format \<Rightarrow> drawn_line \<Rightarrow> string" where
  "line_text format (source, target, trigger, g, siblings) =
     (let source = escape format source; target = escape format target;
          label = label_text format trigger g siblings
      in if format = Mermaid then ''    '' @ source @ '' --> '' @ target @ '': '' @ label @ [newline]
         else ''  '' @ [dquote] @ source @ [dquote] @ '' -> '' @ [dquote] @ target @ [dquote] @
              '' [label='' @ [dquote] @ label @ [dquote] @ ''];'' @ [newline])"

lemma edges_text_lines: "model_ok m \<Longrightarrow> edges_text f m = concat (map (line_text f) (drawn_lines m))"
  by (auto simp: edges_text_all drawn_lines_all edge_text_def Let_def intro!: arg_cong [of _ _ concat])

lemma read_start_text:
  assumes "expect (''  __start [shape=point, width=0.12, label='' @ [dquote, dquote] @ ''];'' @ [newline] @
                          ''  __start -> '' @ [dquote]) rest = None"
  shows "read_start (start_text Dot m initial @ rest) = (drawn_initial m initial, rest)"
proof (cases "initial \<noteq> kNoState \<and> has_state m initial")
  case True
  have whole: "start_text Dot m initial @ rest =
      (''  __start [shape=point, width=0.12, label='' @ [dquote, dquote] @ ''];'' @ [newline] @
       ''  __start -> '' @ [dquote]) @ escape Dot (cstr (state_name m initial)) @ dquote # (('';'' @ [newline]) @ rest)"
    using True by (simp add: start_text_def Let_def)
  from True show ?thesis
    unfolding whole read_start_def expect_append bind.bind_lunit read_quoted_end [OF reads_as_escape] prod.case
    by (simp add: drawn_initial_def)
next
  case False
  with assms show ?thesis by (auto simp: start_text_def read_start_def drawn_initial_def)
qed

lemma not_start:
  "expect (''  __start [shape=point, width=0.12, label='' @ [dquote, dquote] @ ''];'' @ [newline] @
           ''  __start -> '' @ [dquote]) (edges_text Dot m @ ''}'' @ [newline]) = None"
proof (cases "all_edges m")
  case (Cons e es)
  obtain s t b a where "e = (s, t, b, a)" by (cases e)
  with Cons show ?thesis
    by (simp add: edges_text_all edge_text_def Let_def expect_def dquote_def)
qed (simp add: edges_text_all expect_def)

lemma read_dot_text:
  assumes "model_ok m"
  shows "read_dot (diagram_text Dot m initial) = Some (drawn_name m, drawn_initial m initial, drawn_edges m)"
proof -
  let ?tail = "''}'' @ [newline]"
  have whole: "diagram_text Dot m initial = (''digraph '' @ [dquote]) @ escape Dot (drawn_name m) @ dquote #
      (style_text @ (start_text Dot m initial @ (edges_text Dot m @ ?tail)))"
    by (simp add: diagram_text_def drawn_name_def del: escape_simps)
  have "read_edge ?tail = None"
    by (simp add: read_edge_def expect_def)
  then have edges: "read_edges (edges_text Dot m @ ?tail) = (drawn_edges m, ?tail)"
    unfolding edges_text_all drawn_edges_all [OF assms]
    by (rule read_edges_texts) auto
  show ?thesis
    unfolding whole read_dot_def expect_append bind.bind_lunit read_quoted_end [OF reads_as_escape] prod.case
      read_start_text [OF not_start] Let_def edges
    by simp
qed

section \<open>What the exporter promises\<close>

text \<open>C25: rendering without a sink is refused without effect; with one it succeeds, and any
  sink whatever receives one and the same sequence of nonempty fragments, which make up the
  text of the drawing.\<close>

theorem diagram_streams:
  assumes "built m"
  shows "render m initial f None user = (InvalidArgument, user) \<and>
    (let fragments = snd (render m initial f (Some collect) [])
     in render m initial f (Some sink) user = (Ok, fold sink fragments user) \<and>
        [] \<notin> set fragments \<and> concat fragments = diagram_text f m initial)"
  using wrote_diagram [OF built_model_ok [OF assms], of sink user f initial]
  by (auto simp: wrote_def Let_def render_def)

theorem diagram_streams_witness:
  "fst (render sample_model 0 Mermaid (None :: string sink option) []) = InvalidArgument \<and>
   fst (render sample_model 0 Mermaid (Some (\<lambda>t u. u @ t)) []) = Ok \<and>
   diagram_text Mermaid sample_model 0 =
     ''stateDiagram-v2'' @ [newline] @
     ''    [*] --> idle'' @ [newline] @
     ''    idle --> running: go [pedal #gt; 5]'' @ [newline] @
     ''    idle --> idle: go [otherwise]'' @ [newline] @
     ''    running --> idle: halt'' @ [newline]"
proof -
  have "diagram_text Mermaid sample_model 0 =
     ''stateDiagram-v2'' @ [newline] @
     ''    [*] --> idle'' @ [newline] @
     ''    idle --> running: go [pedal #gt; 5]'' @ [newline] @
     ''    idle --> idle: go [otherwise]'' @ [newline] @
     ''    running --> idle: halt'' @ [newline]"
    by code_simp
  with diagram_streams [OF sample_model_built, of 0 Mermaid "[]" "\<lambda>t u. u @ t"] show ?thesis
    by (simp add: Let_def)
qed

text \<open>C26: the Dot drawing determines the machine it shows: reading it back gives the name, the
  initial state and, in order, one edge for each outcome of the behaviour with the names of its
  two states and its label, whatever quotes and backslashes the names and guards contain.\<close>

theorem dot_read_back:
  assumes "built m"
  shows "read_dot (concat (snd (render m initial Dot (Some collect) []))) =
    Some (drawn_name m, drawn_initial m initial, drawn_edges m)"
  using wrote_diagram [OF built_model_ok [OF assms], of collect "[]" Dot initial]
    read_dot_text [OF built_model_ok [OF assms], of initial]
  by (simp add: wrote_def)

theorem dot_read_back_witness:
  "read_dot (concat (snd (render sample_model 0 Dot (Some collect) []))) =
    Some (''machine'', Some ''idle'',
      [(''idle'', ''running'', ''go'' @ newline # ''[pedal > 5]''),
       (''idle'', ''idle'', ''go'' @ newline # ''[otherwise]''), (''running'', ''idle'', ''halt'')])"
proof -
  have "(drawn_name sample_model, drawn_initial sample_model 0, drawn_edges sample_model) =
    (''machine'', Some ''idle'',
      [(''idle'', ''running'', ''go'' @ newline # ''[pedal > 5]''),
       (''idle'', ''idle'', ''go'' @ newline # ''[otherwise]''), (''running'', ''idle'', ''halt'')])"
    by code_simp
  with dot_read_back [OF sample_model_built, of 0] show ?thesis by simp
qed

text \<open>
  The Mermaid escaping has no such inverse: the number sign that starts an entity is not
  escaped itself, so a name that spells an entity is drawn like the character it stands for.
\<close>

theorem mermaid_escape_collides:
  "concat (emit_escaped collect ''<'' Mermaid []) = concat (emit_escaped collect ''#lt;'' Mermaid [])"
  by code_simp

end
