(* ===== verification/AbiGuard.thy ===== *)
theory AbiGuard
  imports FmsTypes
begin

text \<open>
  include/fms/abi.hpp and src/abi.cpp: the link-time capacity guard. The capacities a
  translation unit was compiled with are pasted into the name of a symbol, and the sizes of
  three ETL instantiations into a template specialisation; fms_core defines both for its own
  values, and every constructor of a guarded type refers to them for the caller's. A name is
  the text of its tokens; a capacity is a decimal numeral. That a program constructs some guarded
  type, and so refers to both names, is taken for granted.
\<close>

section \<open>Decimal numerals\<close>

fun nat_text :: "nat \<Rightarrow> string" where
  "nat_text n = (if n < 10 then [char_of (48 + n)] else nat_text (n div 10) @ [char_of (48 + n mod 10)])"

declare nat_text.simps [simp del]

definition text_nat :: "string \<Rightarrow> nat" where
  "text_nat t = foldl (\<lambda>n c. 10 * n + (of_char c - 48)) 0 t"

lemma text_nat_text: "text_nat (nat_text n) = n"
proof (induction n rule: nat_text.induct)
  case (1 n)
  then show ?case
    by (subst nat_text.simps) (auto simp: text_nat_def of_char_of)
qed

lemma nat_text_inj: "nat_text n = nat_text k \<longleftrightarrow> n = k"
  by (metis text_nat_text)

lemma nat_text_plain: "CHR ''_'' \<notin> set (nat_text n)"
proof (induction n rule: nat_text.induct)
  case (1 n)
  have "char_of (48 + k) \<noteq> CHR ''_''" if "k < 10" for k :: nat
  proof
    assume "char_of (48 + k) = CHR ''_''"
    then have "of_char (char_of (48 + k) :: char) = (of_char (CHR ''_'') :: nat)" by simp
    with that show False by (simp add: of_char_of)
  qed
  from this [of n] this [of "n mod 10"] 1 show ?case
    by (subst nat_text.simps) auto
qed

section \<open>The names\<close>

record capacities =
  cap_states :: nat
  cap_triggers :: nat
  cap_transitions_per_state :: nat
  cap_alternatives :: nat
  cap_conditions_per_guard :: nat
  cap_conditions :: nat
  cap_arguments :: nat
  cap_name_length :: nat
  cap_channel_length :: nat
  cap_message_length :: nat
  cap_findings :: nat

text \<open>The capacities of this development.\<close>

definition default_capacities :: capacities where
  "default_capacities =
     \<lparr>cap_states = kMaxStates, cap_triggers = kMaxTriggers,
      cap_transitions_per_state = kMaxTransitionsPerState, cap_alternatives = kMaxAlternatives,
      cap_conditions_per_guard = kMaxConditionsPerGuard, cap_conditions = kMaxConditions,
      cap_arguments = kMaxArguments, cap_name_length = kMaxNameLength,
      cap_channel_length = kMaxChannelLength, cap_message_length = kMaxMessageLength,
      cap_findings = kMaxFindings\<rparr>"

text \<open>\<open>FMS_ABI_JOIN\<close>.\<close>

definition abi_join :: "string \<Rightarrow> string \<Rightarrow> string" where
  "abi_join a b = a @ ''_'' @ b"

text \<open>\<open>FMS_ABI_ID\<close>, which is also the text of \<open>tag\<close>.\<close>

definition abi_tag :: "capacities \<Rightarrow> string" where
  "abi_tag c =
     (let i = abi_join (nat_text (cap_states c)) (nat_text (cap_triggers c));
          i = abi_join i (nat_text (cap_transitions_per_state c));
          i = abi_join i (nat_text (cap_alternatives c));
          i = abi_join i (nat_text (cap_conditions_per_guard c));
          i = abi_join i (nat_text (cap_conditions c));
          i = abi_join i (nat_text (cap_arguments c));
          i = abi_join i (nat_text (cap_name_length c));
          i = abi_join i (nat_text (cap_channel_length c));
          i = abi_join i (nat_text (cap_message_length c))
      in abi_join i (nat_text (cap_findings c)))"

definition abi_symbol :: "capacities \<Rightarrow> string" where
  "abi_symbol c = abi_join ''fms_abi'' (abi_tag c)"

text \<open>The sizes of the three ETL instantiations.\<close>

record etl_layout =
  size_vector :: nat
  size_flat_map :: nat
  size_string :: nat

text \<open>Names the linker resolves: a plain one and a specialisation of \<open>etl_pin\<close>.\<close>

datatype link_name = Symbol string | EtlPin nat nat nat

text \<open>What \<open>pin\<close> calls, and what abi.cpp defines, in a unit with these capacities and ETL.\<close>

definition abi_pin :: "capacities \<Rightarrow> etl_layout \<Rightarrow> link_name list" where
  "abi_pin c etl =
     [Symbol (abi_symbol c), EtlPin (size_vector etl) (size_flat_map etl) (size_string etl)]"

definition abi_defined :: "capacities \<Rightarrow> etl_layout \<Rightarrow> link_name list" where
  "abi_defined c etl =
     [Symbol (abi_symbol c), EtlPin (size_vector etl) (size_flat_map etl) (size_string etl)]"

text \<open>A program links when the core defines every name its constructors refer to.\<close>

definition links :: "capacities \<Rightarrow> etl_layout \<Rightarrow> capacities \<Rightarrow> etl_layout \<Rightarrow> bool" where
  "links c etl core core_etl \<longleftrightarrow> list_all (\<lambda>n. n \<in> set (abi_defined core core_etl)) (abi_pin c etl)"

lemma separator_first:
  "x \<notin> set r \<Longrightarrow> x \<notin> set r' \<Longrightarrow> r @ x # s = r' @ x # s' \<Longrightarrow> r = r' \<and> s = s'"
proof (induction r arbitrary: r')
  case Nil
  then show ?case by (cases r') auto
next
  case (Cons y r)
  then show ?case by (cases r') auto
qed

lemma abi_join_inj:
  assumes "CHR ''_'' \<notin> set b" and "CHR ''_'' \<notin> set b'"
  shows "abi_join a b = abi_join a' b' \<longleftrightarrow> a = a' \<and> b = b'"
proof
  assume "abi_join a b = abi_join a' b'"
  then have "rev (abi_join a b) = rev (abi_join a' b')" by simp
  then have "rev b @ CHR ''_'' # rev a = rev b' @ CHR ''_'' # rev a'"
    by (simp add: abi_join_def)
  from separator_first [OF _ _ this] assms show "a = a' \<and> b = b'" by simp
qed simp

lemma abi_join_nat: "abi_join a (nat_text n) = abi_join a' (nat_text k) \<longleftrightarrow> a = a' \<and> n = k"
  by (simp add: abi_join_inj nat_text_plain nat_text_inj)

lemma abi_tag_inj: "abi_tag c = abi_tag c' \<longleftrightarrow> c = c'"
proof
  assume "abi_tag c = abi_tag c'"
  then show "c = c'"
    by (cases c; cases c') (simp add: abi_tag_def Let_def abi_join_nat abi_join_inj nat_text_inj nat_text_plain)
qed simp

section \<open>What the guard decides\<close>

text \<open>C28: a program links exactly if it was compiled with the capacities of the library, all
  eleven of them, and against an ETL that lays the three containers out alike.\<close>

theorem links_exactly:
  "links c etl core core_etl \<longleftrightarrow> c = core \<and> etl = core_etl"
proof -
  have "abi_symbol c = abi_symbol core \<longleftrightarrow> c = core"
    by (auto simp: abi_symbol_def abi_join_def abi_tag_inj)
  then show ?thesis
    by (cases etl; cases core_etl) (auto simp: links_def abi_pin_def abi_defined_def)
qed

lemma default_tag: "abi_tag default_capacities = ''32_32_8_4_3_64_4_31_95_127_32''"
  by code_simp

end
