(* ===== verification/CarConsole.thy ===== *)
theory CarConsole
  imports Transcript LintGuards Diagram MachineSpec AbiGuard
begin

text \<open>
  examples/car/main.cpp, built with fms_inspect: the command line, the setup phase over the two
  files, the three ways out before a session (version, diagram, check) and the session. What
  the program prints with \<open>printf\<close> and \<open>fputs\<close> is a list of texts per stream; what the
  console port prints stays with the port. The version text, the YAML library, the file system
  and \<open>strerror\<close> are arguments.
\<close>

section \<open>Printing\<close>

datatype printed = Stdout string | Stderr string

definition count_text :: "nat \<Rightarrow> string" where
  "count_text n = int_to_text (int n)"

text \<open>\<open>%-ns\<close>.\<close>

definition pad_right :: "nat \<Rightarrow> string \<Rightarrow> string" where
  "pad_right n t = t @ replicate (n - length t) (CHR '' '')"

text \<open>The trace hook, for one event.\<close>

definition car_trace :: "model \<Rightarrow> transition_event \<Rightarrow> printed list" where
  "car_trace m event =
     (if ev_accepted event then
        [Stderr (''  ['' @ cstr (state_name m (ev_from event)) @ '' --'' @ cstr (trigger_name m (ev_trigger event)) @
                 ''--> '' @ cstr (state_name m (ev_to event)) @ '']'' @ [newline])]
      else [])"

definition car_report :: "string \<Rightarrow> status \<Rightarrow> diagnostics \<Rightarrow> printed list" where
  "car_report path status d =
     [Stderr (cstr path @ '': '' @ status_to_string status)] @
     (if 0 < diag_line d then [Stderr ('' at line '' @ int_to_text (diag_line d))] else []) @
     [Stderr ('': '' @ cstr (diag_message d) @ [newline])] @
     (if status = FileNotFound then
        [Stderr (''hint: pass the paths, e.g. examples/car/car.setup.yaml '' @
                 ''examples/car/car.machine.yaml'' @ [newline])]
      else [])"

definition car_describe :: "deployment \<Rightarrow> model \<Rightarrow> state_machine \<Rightarrow> printed list" where
  "car_describe st m sm =
     [Stdout (''setup   : instance '' @ quote @ cstr (setup_name st) @ quote @ '', starts in '' @ quote @
              cstr (initial_name st) @ quote @ [newline]),
      Stdout (''machine : '' @ quote @ cstr (mdl_name m) @ quote @ '', '' @ count_text (state_count m) @ '' states, '' @
              count_text (trigger_count m) @ '' triggers, '' @ count_text (condition_count_of m) @
              '' guard conditions'' @ [newline])] @
     concat (map (\<lambda>entry.
       [Stdout (''  '' @ pad_right 13 (cstr (state_name m (fst entry))) @ '' '' @
                (if fst entry = sm_initial sm then ''* '' else ''  '') @
                count_text (length (transitions (snd entry))) @ '' trigger(s)'')] @
       concat (map (\<lambda>transition.
         Stdout ('' '' @ cstr (trigger_name m (fst transition))) #
         (if 1 < length (snd transition) then [Stdout (''('' @ count_text (length (snd transition)) @ '')'')] else []))
         (transitions (snd entry))) @
       [Stdout [newline]]) (states m))"

text \<open>The flag returned and what is printed.\<close>

definition car_report_lint :: "model \<Rightarrow> state_id \<Rightarrow> bool \<times> printed list" where
  "car_report_lint m initial =
     (let (status, report) = analyse m initial []
      in if report = [] then (True, [Stdout (''lint    : clean'' @ [newline])])
         else
           (\<not> has_errors report,
            [Stdout (''lint    : '' @ count_text (length report) @ '' finding(s)'' @ [newline])] @
            map (\<lambda>finding. Stdout (''  '' @ pad_right 7 (severity_to_string (severity_of (f_check finding))) @ '' '' @
                   pad_right 23 (check_to_string (f_check finding)) @ '' '' @ cstr (describe m finding) @ [newline]))
              report @
            (if status = CapacityExceeded
             then [Stdout (''  ... report full; raise FMS_MAX_FINDINGS to see the rest'' @ [newline])] else [])))"

text \<open>The sink of \<open>--export\<close>.\<close>

definition write_fragment :: "string \<Rightarrow> printed list \<Rightarrow> printed list" where
  "write_fragment fragment out = out @ [Stdout fragment]"

section \<open>The command line\<close>

record car_options =
  setup_path :: string
  machine_path :: string
  quiet :: bool
  check_only :: bool
  lint_only :: bool
  positional :: int
  export_diagram :: bool
  export_format :: format

definition default_options :: car_options where
  "default_options =
     \<lparr>setup_path = ''car.setup.yaml'', machine_path = ''car.machine.yaml'', quiet = False,
      check_only = False, lint_only = False, positional = 0, export_diagram = False,
      export_format = Mermaid\<rparr>"

text \<open>The loop over \<open>argv\<close>: the exit code with what is printed, or the options.\<close>

fun read_options :: "string \<Rightarrow> string list \<Rightarrow> car_options \<Rightarrow> (int \<times> printed list) + car_options" where
  "read_options version [] opts = Inr opts"
| "read_options version (arg # args) opts =
     (if arg = ''--version'' then
        Inl (0, [Stdout (''fms-yaml '' @ cstr version @ '' (capacities '' @ abi_tag default_capacities @ '')'' @ [newline])])
      else if arg = ''--quiet'' then read_options version args (opts\<lparr>quiet := True\<rparr>)
      else if arg = ''--check'' then read_options version args (opts\<lparr>check_only := True\<rparr>)
      else if arg = ''--lint'' then read_options version args (opts\<lparr>lint_only := True\<rparr>)
      else if arg = ''--export'' then
        (case args of
           [] \<Rightarrow> Inl (2, [Stderr (''usage: --export mermaid|dot'' @ [newline])])
         | name # args' \<Rightarrow>
             let (known, format) = parse_format name (export_format opts)
             in if \<not> known then Inl (2, [Stderr (''usage: --export mermaid|dot'' @ [newline])])
                else read_options version args' (opts\<lparr>export_format := format, export_diagram := True\<rparr>))
      else if positional opts = 0 then
        read_options version args (opts\<lparr>setup_path := arg, positional := positional opts + 1\<rparr>)
      else read_options version args (opts\<lparr>machine_path := arg, positional := positional opts + 1\<rparr>))"

section \<open>The program\<close>

text \<open>
  The setup phase: both files and the binding. \<open>Inl\<close> is the exit code 1 with what is printed.
\<close>

definition car_setup ::
  "'n yaml_ops \<Rightarrow> (string \<Rightarrow> open_outcome) \<Rightarrow> (int \<Rightarrow> string) \<Rightarrow> car_options \<Rightarrow>
     (int \<times> printed list) + deployment \<times> model \<times> state_machine" where
  "car_setup ops files strerror opts =
     (let (setup_loaded, st, d) = load_setup_file ops files strerror (Some (setup_path opts)) setup_clear diagnostics_reset
      in if \<not> is_ok setup_loaded then Inl (1, car_report (setup_path opts) setup_loaded d)
         else
           let (machine_loaded, m, d) = load_machine_file ops files strerror (Some (machine_path opts)) model_clear d
           in if \<not> is_ok machine_loaded then Inl (1, car_report (machine_path opts) machine_loaded d)
              else
                let (bound, sm) = sm_init m st new_machine
                in if \<not> is_ok bound then
                     Inl (1, [Stderr (cstr (setup_path opts) @ '' does not fit '' @ cstr (machine_path opts) @ '': '' @
                                      status_to_string bound @ '' ('' @ quote @ cstr (initial_name st) @ quote @ '')'' @ [newline])])
                   else Inr (st, m, sm))"

text \<open>\<open>--check\<close> and \<open>--lint\<close>.\<close>

definition car_check :: "car_options \<Rightarrow> deployment \<Rightarrow> model \<Rightarrow> state_machine \<Rightarrow> int \<times> printed list" where
  "car_check opts st m sm =
     (let described = (if check_only opts then car_describe st m sm else []);
          (clean, linted) = car_report_lint m (sm_initial sm)
      in if \<not> clean then (1, described @ linted)
         else (0, described @ linted @ (if check_only opts then [Stdout (''ok'' @ [newline])] else [])))"

definition greeting_line :: "deployment \<Rightarrow> model \<Rightarrow> printed" where
  "greeting_line st m =
     Stdout (cstr (setup_name st) @ '' running '' @ quote @ cstr (mdl_name m) @ quote @ '': '' @
       count_text (state_count m) @ '' states, '' @ count_text (trigger_count m) @
       '' triggers - type '' @ quote @ ''help'' @ quote @ '' or '' @ quote @ ''quit'' @ quote @ [newline])"

definition final_line :: "'p system \<Rightarrow> printed" where
  "final_line s =
     Stderr (''final state '' @ quote @ cstr (current_name (the_machine s)) @ quote @ '': '' @
      int_to_text (uint (transition_total (the_machine s))) @ '' transitions, '' @
      int_to_text (uint (rejection_total (the_machine s))) @ '' rejected, '' @
      int_to_text (uint (inputs_received (the_runtime s))) @ '' inputs ('' @
      int_to_text (uint (inputs_unrouted (the_runtime s))) @ '' unknown)'' @ [newline])"

text \<open>The session: the exit code, what is printed, and the system at the end.\<close>

definition car_session ::
  "nat \<Rightarrow> car_options \<Rightarrow> deployment \<Rightarrow> model \<Rightarrow> state_machine \<Rightarrow> string \<Rightarrow>
     (int \<times> printed list \<times> console_port system) option" where
  "car_session fuel opts st m sm stdin_text =
     (let s = system_of sm (new_console_port (\<not> quiet opts) stdin_text);
          (initialised, s) = rt_init s
      in if \<not> is_ok initialised then Some (1, [Stderr (''runtime init failed'' @ [newline])], s)
         else
           let (greeting, s) =
                 (if \<not> quiet opts then
                    ([greeting_line st m],
                     rt_set_trace True s)
                  else ([], s));
               (started, s) = rt_start console_ops s
           in if \<not> is_ok started
              then Some (1, greeting @ [Stderr (''start failed: '' @ status_to_string started @ [newline])], s)
              else
                (case run_phase console_ops fuel s of
                   None \<Rightarrow> None
                 | Some (status, s) \<Rightarrow>
                     let problem = (if status = EndOfInput then []
                                    else [Stderr (''port error: '' @ status_to_string status @ '' ('' @ iport_last_error @ '')'' @ [newline])]);
                         traces = concat (map (car_trace m) (traced s));
                         s = snd (rt_stop console_ops s)
                     in Some (0, greeting @ traces @ problem @ [final_line s], s)))"

text \<open>\<open>main\<close>, on the arguments behind the program name; \<open>None\<close> is out of fuel.\<close>

definition car_main ::
  "string \<Rightarrow> 'n yaml_ops \<Rightarrow> (string \<Rightarrow> open_outcome) \<Rightarrow> (int \<Rightarrow> string) \<Rightarrow> nat \<Rightarrow> string list \<Rightarrow> string \<Rightarrow>
     (int \<times> printed list \<times> console_port system option) option" where
  "car_main version ops files strerror fuel args stdin_text =
     (case read_options version args default_options of
        Inl (code, out) \<Rightarrow> Some (code, out, None)
      | Inr opts \<Rightarrow>
          (case car_setup ops files strerror opts of
             Inl (code, out) \<Rightarrow> Some (code, out, None)
           | Inr (st, m, sm) \<Rightarrow>
               if export_diagram opts then
                 Some (0, snd (render m (sm_initial sm) (export_format opts)
                                 (Some write_fragment) []), None)
               else if check_only opts \<or> lint_only opts then
                 (case car_check opts st m sm of (code, out) \<Rightarrow> Some (code, out, None))
               else map_option (\<lambda>(code, out, s). (code, out, Some s)) (car_session fuel opts st m sm stdin_text)))"

section \<open>The setup phase\<close>

text \<open>What the two files are when the setup phase succeeds.\<close>

lemma car_setup_Inr:
  assumes "car_setup ops files strerror opts = Inr (st, m, sm)"
  shows "loaded m" and "setup_named st" and "machine_reachable sm" and "sm_model sm = Some m"
    and "sm_setup sm = Some st" and "\<not> sm_started sm" and "sm_initial sm = initial_in st m" and "machine_ok sm"
proof -
  obtain d d' where s: "load_setup_file ops files strerror (Some (setup_path opts)) setup_clear diagnostics_reset = (Ok, st, d)"
    "load_machine_file ops files strerror (Some (machine_path opts)) model_clear d = (Ok, m, d')"
    "sm_init m st new_machine = (Ok, sm)"
    using assms by (auto simp: car_setup_def Let_def split: prod.splits if_splits)
  show "loaded m" "setup_named st"
    using loaded_from_files s(1,2) by metis+
  then have "model_ok m"
    by (simp add: loaded_def loadable_def built_model_ok)
  from machine_init [OF machine_new this, of st] s(3) show "machine_reachable sm"
    by simp
  then show "machine_ok sm"
    by (rule reachable_machine_ok)
  show "sm_model sm = Some m" "sm_setup sm = Some st" "\<not> sm_started sm" "sm_initial sm = initial_in st m"
    using s(3) by (auto simp: sm_init_def new_machine_def Let_def split: if_splits)
qed

lemma car_setup_Inl: "car_setup ops files strerror opts = Inl (code, out) \<Longrightarrow> code = 1"
  by (auto simp: car_setup_def Let_def split: prod.splits if_splits)

lemma read_options_Inl: "read_options version args opts = Inl (code, out) \<Longrightarrow> code = 0 \<or> code = 2"
proof (induction args arbitrary: opts rule: length_induct)
  case (1 args)
  then have shorter: "code = 0 \<or> code = 2"
    if "read_options version rest opts' = Inl (code, out)" "length rest < length args" for rest opts'
    using that by blast
  show ?case
  proof (cases args)
    case (Cons arg rest)
    have "length (tl rest) < length args" "length rest < length args"
      using Cons by simp_all
    with 1(2) shorter [of rest] shorter [of "tl rest"] show ?thesis
      unfolding Cons read_options.simps Let_def
      by (simp only: split: if_split_asm list.split_asm prod.split_asm) (simp_all only: list.sel sum.inject prod.inject HOL.simp_thms; blast)+
  qed (use 1 in simp)
qed

section \<open>The session\<close>

lemma stop_machine [simp]: "the_machine (snd (rt_stop ops s)) = the_machine s"
  "the_runtime (snd (rt_stop ops s)) =
     (if rt_port_bound (the_runtime s) then (the_runtime s)\<lparr>rt_started := False\<rparr> else the_runtime s)"
  by (simp_all add: rt_stop_def Let_def split_beta)

lemma car_session_runs:
  assumes "machine_ok sm" and "sm_model sm = Some m" and "\<not> sm_started sm"
  obtains out s where
    "\<forall>extra. car_session (Suc (length (console_commands t)) + extra) opts st m sm t = Some (0, out, s)"
    and "sm_current (the_machine s) = fold (next_state m) (console_commands t) (sm_initial sm)"
    and "inputs_received (the_runtime s) = word_of_nat (length (console_commands t))"
    and "accounted s = 0"
    and "last out = final_line s" and "sm_model (the_machine s) = Some m"
proof -
  let ?p = "new_console_port (\<not> quiet opts) t"
  let ?i = "rt_init (system_of sm ?p)"
  obtain s0 where init: "?i = (Ok, s0)"
    using assms initialised_started(1) [OF assms] by (auto simp: rt_init_def system_of_def new_runtime_def)
  define s1 where "s1 = rt_set_trace (\<not> quiet opts) (snd (rt_start console_ops s0))"
  have hook: "rt_set_trace False s0 = s0"
    using no_trace init_rt_trace init by (metis snd_conv)
  have "fst (rt_start console_ops s0) = Ok"
    using console_start [OF assms, of "\<not> quiet opts" t] init by simp
  then have started: "rt_start console_ops (if quiet opts then s0 else rt_set_trace True s0) = (Ok, s1)"
    using start_set_trace [of console_ops "\<not> quiet opts" s0] hook
    by (cases "quiet opts") (simp_all add: s1_def prod_eq_iff)
  obtain s' where s': "run_phase console_ops (Suc (length (console_commands t))) s1 = Some (EndOfInput, s')"
    "live console_usable console_shown m s'" "accounted s' = 0"
    "inputs_received (the_runtime s') = word_of_nat (length (console_commands t))"
    "sm_current (the_machine s') = fold (next_state m) (console_commands t) (sm_initial sm)"
    using console_run [OF assms, where t = t and prompt = "\<not> quiet opts" and hook = "\<not> quiet opts"] init
    by (force simp: s1_def)
  have run: "\<forall>extra. car_session (Suc (length (console_commands t)) + extra) opts st m sm t =
      Some (0, (if quiet opts then [] else [greeting_line st m]) @ concat (map (car_trace m) (traced s')) @
        [final_line (snd (rt_stop console_ops s'))], snd (rt_stop console_ops s'))"
    using run_phase_more [OF s'(1)] init started unfolding car_session_def Let_def
    by (cases "quiet opts") (simp_all del: run_phase.simps plus_nat.simps)
  show thesis
    using s'(2-) by (intro that [OF run]) (simp_all add: live_def running_def accounted_def)
qed

text \<open>What the session reported, and the counters behind its last line.\<close>

lemma car_session_answers:
  assumes "machine_ok sm" and "sm_model sm = Some m" and "\<not> sm_started sm" and "rejection_total sm = 0"
    and "car_session fuel opts st m sm t = Some (code, out, s)"
  defines "ys \<equiv> answers (model_answer m) (next_state m) (console_commands t) (sm_initial sm)"
  shows "console_reports (the_port s) = Inl (state_name m (sm_initial sm)) # map report_of ys"
    and "inputs_received (the_runtime s) = word_of_nat (length ys)"
    and "inputs_unrouted (the_runtime s) = word_of_nat (length (filter is_unknown ys))"
    and "transition_total (the_machine s) = word_of_nat (length (filter is_entered ys))"
    and "rejection_total (the_machine s) = word_of_nat (length (filter is_rejected ys))"
proof -
  let ?p = "new_console_port (\<not> quiet opts) t"
  obtain s0 where init: "rt_init (system_of sm ?p) = (Ok, s0)"
    using assms(2) initialised_started(1) [OF assms(1-3)] by (auto simp: rt_init_def system_of_def new_runtime_def)
  let ?s1 = "rt_set_trace (\<not> quiet opts) (snd (rt_start console_ops s0))"
  have hook: "rt_set_trace False s0 = s0"
    using no_trace init_rt_trace init by (metis snd_conv)
  have "fst (rt_start console_ops s0) = Ok"
    using console_start [OF assms(1-3), of "\<not> quiet opts" t] init by simp
  then have "rt_start console_ops (if quiet opts then s0 else rt_set_trace True s0) = (Ok, ?s1)"
    using start_set_trace [of console_ops "\<not> quiet opts" s0] hook
    by (cases "quiet opts") (simp_all add: prod_eq_iff)
  with init assms(5) obtain status s' where s': "run_phase console_ops fuel ?s1 = Some (status, s')"
      "s = snd (rt_stop console_ops s')"
    unfolding car_session_def Let_def by (cases "quiet opts") (auto split: option.splits prod.splits)
  have stop: "console_reports (the_port (snd (rt_stop console_ops q))) = console_reports (the_port q)"
    "inputs_unrouted (the_runtime (snd (rt_stop console_ops q))) = inputs_unrouted (the_runtime q)"
    "inputs_received (the_runtime (snd (rt_stop console_ops q))) = inputs_received (the_runtime q)" for q
    using con_log.close_reported by (simp_all add: rt_stop_def Let_def split_beta)
  note run = console_answers [OF assms(1-4), where t = t and prompt = "\<not> quiet opts" and hook = "\<not> quiet opts" and
      fuel = fuel and status = status and s' = s']
  show "console_reports (the_port s) = Inl (state_name m (sm_initial sm)) # map report_of ys"
    "inputs_received (the_runtime s) = word_of_nat (length ys)"
    "inputs_unrouted (the_runtime s) = word_of_nat (length (filter is_unknown ys))"
    "transition_total (the_machine s) = word_of_nat (length (filter is_entered ys))"
    "rejection_total (the_machine s) = word_of_nat (length (filter is_rejected ys))"
    using run s' init by (simp_all add: stop ys_def)
qed

lemma car_setup_fresh:
  "car_setup ops files strerror opts = Inr (st, m, sm) \<Longrightarrow> rejection_total sm = 0"
  by (auto simp: car_setup_def sm_init_def new_machine_def Let_def split: prod.splits if_splits)

section \<open>Two files, and a machine whose report is full\<close>

definition setup_document :: ydoc where
  "setup_document =
     YMap [(''fsm'', YMap [(''name'', YScalar ''car-ecu-01''), (''initial'', YScalar ''idle'')])]"

definition two_documents :: "ydoc option yaml_ops" where
  "two_documents = (document_ops (machine_doc file_spec))
     \<lparr>yn_load_stream := (\<lambda>text. Inr (Some (if text = ''setup'' then setup_document else machine_doc file_spec)))\<rparr>"

definition two_files :: "string \<Rightarrow> open_outcome" where
  "two_files path = (if path = ''car.setup.yaml'' then Opened ''setup''
     else if path = ''car.machine.yaml'' then Opened ''machine'' else CannotOpen)"

definition two_loaded :: "deployment \<times> model \<times> state_machine" where
  "two_loaded = projr (car_setup two_documents two_files (\<lambda>code. []) default_options)"

lemma two_load:
  "car_setup two_documents two_files (\<lambda>code. []) default_options =
     Inr (fst two_loaded, fst (snd two_loaded), snd (snd two_loaded))"
proof -
  have "\<not> isl (car_setup two_documents two_files (\<lambda>code. []) default_options)"
    by code_simp
  then show ?thesis
    by (cases "car_setup two_documents two_files (\<lambda>code. []) default_options") (simp_all add: two_loaded_def)
qed

text \<open>Only the paths of the options matter to the setup phase.\<close>

lemma car_setup_paths:
  "setup_path opts = setup_path opts' \<Longrightarrow> machine_path opts = machine_path opts' \<Longrightarrow>
     car_setup ops files strerror opts = car_setup ops files strerror opts'"
  by (simp only: car_setup_def)

text \<open>One state, every trigger declared and one listed, with two unguarded alternatives.\<close>

definition crowded_model :: model where
  "crowded_model =
     (let m = fold (\<lambda>c m. fst (snd (declare_trigger [c] [] m))) ''ABCDEFGHIJKLMNOPQRSTUVWXYZabcdef'' model_clear;
          m = fst (snd (declare_state ''idle'' m));
          m = snd (add_transition 0 0 0 [] m)
      in snd (add_transition 0 0 0 [] m))"

lemma crowded_model_built: "built crowded_model"
proof -
  have more: "built m \<Longrightarrow> built (fold (\<lambda>c m. fst (snd (declare_trigger [c] [] m))) cs m)" for cs m
    by (induction cs arbitrary: m) (simp_all add: built.intros)
  then show ?thesis
    unfolding crowded_model_def Let_def
    by (intro built.intros more) simp_all
qed

text \<open>Warnings that take all the room.\<close>

lemma warnings_only:
  "\<not> has_errors (dead_end_found m @ unused_found m)"
  by (auto simp: has_errors_def list_ex_iff dead_end_found_def unused_found_def)

lemma crowded_report: "\<not> has_errors (snd (analyse crowded_model 0 []))"
proof -
  have found: "unreachable_found crowded_model 0 = []" "length (dead_end_found crowded_model) = 1"
    "length (unused_found crowded_model) = 31"
    by code_simp+
  then have "take kMaxFindings (all_found crowded_model 0) = dead_end_found crowded_model @ unused_found crowded_model"
    by (simp add: all_found_def kMaxFindings_def)
  with analyse_found [OF built_model_ok [OF crowded_model_built], of "[]" 0] warnings_only [of crowded_model]
  show ?thesis
    by simp
qed

section \<open>Properties\<close>

text \<open>C16: the program always comes to an end: whatever the arguments, the two files and the
  YAML library do, and whatever is on the standard input, one service call per command and one
  more are enough, more change nothing, and the exit code is 0, 1 or 2.\<close>

theorem car_main_ends:
  "\<exists>code out s. code \<in> {0, 1, 2} \<and>
    (\<forall>extra. car_main version ops files strerror (Suc (length (console_commands t)) + extra) args t =
       Some (code, out, s))"
proof (cases "read_options version args default_options")
  case (Inl r)
  then show ?thesis
    by (cases r) (auto simp: car_main_def dest: read_options_Inl)
next
  case (Inr opts)
  show ?thesis
  proof (cases "car_setup ops files strerror opts")
    case (Inl r)
    with Inr show ?thesis
      by (cases r) (auto simp: car_main_def dest: car_setup_Inl)
  next
    case fits: (Inr r)
    then obtain st m sm where r: "car_setup ops files strerror opts = Inr (st, m, sm)"
      by (metis surj_pair)
    note facts = car_setup_Inr [OF r]
    obtain out s where
      run: "\<forall>extra. car_session (Suc (length (console_commands t)) + extra) opts st m sm t = Some (0, out, s)"
      by (rule car_session_runs [OF facts(8,4,6), where opts = opts and st = st and t = t])
    have "fst (car_check opts st m sm) \<in> {0, 1}"
      by (simp add: car_check_def split_beta Let_def)
    then show ?thesis
      using Inr r run
      by (cases "export_diagram opts"; cases "check_only opts \<or> lint_only opts")
        (auto simp: car_main_def split_beta simp del: plus_nat.simps)
  qed
qed

text \<open>C7: with two files that load and fit, and no option that ends it early, the program
  exits with 0 once the standard input is used up, in the state the model alone determines from
  the initial state the setup names by applying the commands of the text in order; every command
  was received and is accounted for, and the last thing printed is the final line about the
  system in that state.\<close>

theorem car_main_session:
  assumes "read_options version args default_options = Inr opts"
    and "\<not> export_diagram opts" and "\<not> check_only opts" and "\<not> lint_only opts"
    and "car_setup ops files strerror opts = Inr (st, m, sm)"
  shows "\<exists>out s. car_main version ops files strerror (Suc (length (console_commands t))) args t =
      Some (0, out, Some s) \<and>
    sm_current (the_machine s) = fold (next_state m) (console_commands t) (initial_in st m) \<and>
    current_name (the_machine s) = state_name m (fold (next_state m) (console_commands t) (initial_in st m)) \<and>
    inputs_received (the_runtime s) = word_of_nat (length (console_commands t)) \<and>
    inputs_received (the_runtime s) = inputs_unrouted (the_runtime s) + inputs_rejected (the_runtime s) +
      transition_total (the_machine s) \<and>
    last out = final_line s"
proof -
  note facts = car_setup_Inr [OF assms(5)]
  obtain out s where run: "\<forall>extra. car_session (Suc (length (console_commands t)) + extra) opts st m sm t = Some (0, out, s)"
    "sm_current (the_machine s) = fold (next_state m) (console_commands t) (sm_initial sm)"
    "inputs_received (the_runtime s) = word_of_nat (length (console_commands t))"
    "accounted s = 0" "last out = final_line s" "sm_model (the_machine s) = Some m"
    by (rule car_session_runs [OF facts(8,4,6), where opts = opts and st = st and t = t])
  from run(4) have "inputs_received (the_runtime s) = inputs_unrouted (the_runtime s) +
      inputs_rejected (the_runtime s) + transition_total (the_machine s)"
    by (simp add: accounted_def algebra_simps)
  with run(2-) spec [OF run(1), of 0] assms facts(7) show ?thesis
    by (intro exI [of _ out] exI [of _ s]) (simp add: car_main_def current_name_def)
qed

theorem car_main_session_witness:
  "case two_loaded of (st, m, sm) \<Rightarrow> \<exists>out s.
    car_main ''0.1.0'' two_documents two_files (\<lambda>code. []) (Suc (length (console_commands ''go pedal=9'')))
      [''--quiet''] ''go pedal=9'' = Some (0, out, Some s) \<and>
    sm_current (the_machine s) = fold (next_state m) (console_commands ''go pedal=9'') (initial_in st m) \<and>
    current_name (the_machine s) = state_name m (fold (next_state m) (console_commands ''go pedal=9'') (initial_in st m)) \<and>
    inputs_received (the_runtime s) = word_of_nat (length (console_commands ''go pedal=9'')) \<and>
    inputs_received (the_runtime s) = inputs_unrouted (the_runtime s) + inputs_rejected (the_runtime s) +
      transition_total (the_machine s) \<and>
    last out = final_line s"
proof -
  let ?opts = "default_options\<lparr>quiet := True\<rparr>"
  have args: "read_options ''0.1.0'' [''--quiet''] default_options = Inr ?opts"
    by simp
  have fits: "car_setup two_documents two_files (\<lambda>code. []) ?opts =
      Inr (fst two_loaded, fst (snd two_loaded), snd (snd two_loaded))"
    using two_load car_setup_paths [of ?opts default_options two_documents two_files "\<lambda>code. []"] by simp
  show ?thesis
    unfolding split_beta by (rule car_main_session [OF args _ _ _ fits]) (simp_all add: default_options_def)
qed

text \<open>When \<open>--check\<close> or \<open>--lint\<close> lets two files pass and the report was
  complete, every state of the machine can be reached from the one the setup names, the guard
  of every alternative can be satisfied and no alternative stands behind an unguarded one.\<close>

theorem car_check_sound:
  assumes "read_options version args default_options = Inr opts"
    and "\<not> export_diagram opts" and "check_only opts \<or> lint_only opts"
    and "car_setup ops files strerror opts = Inr (st, m, sm)"
    and "fst (analyse m (initial_in st m) []) = Ok"
    and "car_main version ops files strerror fuel args t = Some (0, out, s)"
  shows "reachable_states m (initial_in st m) \<and> alternatives_live m"
proof -
  note facts = car_setup_Inr [OF assms(4)]
  have "fst (car_check opts st m sm) = 0"
    using assms by (auto simp: car_main_def split_beta)
  then have clean: "fst (car_report_lint m (sm_initial sm))"
    by (auto simp: car_check_def Let_def split_beta split: if_splits)
  obtain r where r: "analyse m (initial_in st m) [] = (Ok, r)"
    using assms(5) by (cases "analyse m (initial_in st m) []") auto
  with clean facts(7) have "\<not> has_errors r"
    by (auto simp: car_report_lint_def has_errors_def split: if_splits)
  moreover have "model_ok m" "list_all condition_wf (conditions m)" "has_state m (initial_in st m)"
    using facts(1,4,7,8) by (auto simp: loaded_def loadable_def built_model_ok machine_ok_def)
  ultimately show ?thesis
    using r clean_report by blast
qed

theorem car_check_sound_witness:
  "case two_loaded of (st, m, sm) \<Rightarrow> reachable_states m (initial_in st m) \<and> alternatives_live m"
proof -
  let ?opts = "default_options\<lparr>lint_only := True\<rparr>"
  have args: "read_options ''0.1.0'' [''--lint''] default_options = Inr ?opts"
    by simp
  have fits: "car_setup two_documents two_files (\<lambda>code. []) ?opts =
      Inr (fst two_loaded, fst (snd two_loaded), snd (snd two_loaded))"
    using two_load car_setup_paths [of ?opts default_options two_documents two_files "\<lambda>code. []"] by simp
  have complete: "fst (analyse (fst (snd two_loaded)) (initial_in (fst two_loaded) (fst (snd two_loaded))) []) = Ok"
    and passed: "fst (car_check ?opts (fst two_loaded) (fst (snd two_loaded)) (snd (snd two_loaded))) = 0"
    by code_simp+
  obtain out where "car_main ''0.1.0'' two_documents two_files (\<lambda>code. []) 0 [''--lint''] [] = Some (0, out, None)"
    using args fits passed by (simp add: car_main_def default_options_def split_beta)
  from car_check_sound [OF args _ _ fits complete this] show ?thesis
    by (simp add: default_options_def split_beta)
qed

text \<open>
  Where the report is full the exit code says nothing: 32 warnings take all the room, the
  error of an alternative behind an unguarded one is not recorded, and \<open>--lint\<close> exits with 0.
\<close>

theorem full_report_passes:
  "fst (car_check (default_options\<lparr>lint_only := True\<rparr>) setup_clear crowded_model
     (snd (sm_init crowded_model (setup_clear\<lparr>initial_name := ''idle''\<rparr>) new_machine))) = 0"
  "\<not> alternatives_live crowded_model"
proof -
  have "sm_initial (snd (sm_init crowded_model (setup_clear\<lparr>initial_name := ''idle''\<rparr>) new_machine)) = 0"
    by code_simp
  with crowded_report show "fst (car_check (default_options\<lparr>lint_only := True\<rparr>) setup_clear crowded_model
     (snd (sm_init crowded_model (setup_clear\<lparr>initial_name := ''idle''\<rparr>) new_machine))) = 0"
    by (simp add: car_check_def car_report_lint_def split_beta Let_def)
  have "1 < length (alternatives_of crowded_model 0 0)"
    "fallback_before (alternatives_of crowded_model 0 0) 1 \<noteq> None"
    by code_simp+
  then show "\<not> alternatives_live crowded_model"
    unfolding alternatives_live_def by metis
qed

end
