(* ===== verification/SetupDocuments.thy ===== *)
theory SetupDocuments
  imports YamlDocuments
begin

text \<open>
  What the setup loader makes of a document (src/config/yaml_loader.cpp against
  docs/schema.md): \<open>setup_spec\<close> is a setup file as a user writes it, \<open>setup_doc\<close> its plainest
  document and \<open>setup_of\<close> the reading of any document, \<open>setup_verdict\<close> the status the file
  deserves and \<open>setup_of_spec\<close> the setup it describes. The loader agrees with \<open>doc_setup\<close> on
  every document, and \<open>doc_setup\<close> with the verdict where the document can be read.
\<close>

section \<open>What a setup file says\<close>

record io_spec =
  is_state_channel :: "string option"
  is_error_channel :: "string option"
  is_endpoint :: "string option"
  is_identity :: "string option"

record setup_spec =
  su_name :: "string option"
  su_initial :: string
  su_io :: "io_spec option"

definition optional_entry :: "string \<Rightarrow> string option \<Rightarrow> (string \<times> ydoc) list" where
  "optional_entry key v = (case v of None \<Rightarrow> [] | Some t \<Rightarrow> [(key, YScalar t)])"

definition io_entries :: "io_spec \<Rightarrow> (string \<times> ydoc) list" where
  "io_entries io =
     optional_entry ''state_channel'' (is_state_channel io) @ optional_entry ''error_channel'' (is_error_channel io) @
     optional_entry ''endpoint'' (is_endpoint io) @ optional_entry ''identity'' (is_identity io)"

definition fsm_entries :: "setup_spec \<Rightarrow> (string \<times> ydoc) list" where
  "fsm_entries spec = optional_entry ''name'' (su_name spec) @ [(''initial'', YScalar (su_initial spec))]"

definition setup_doc :: "setup_spec \<Rightarrow> ydoc" where
  "setup_doc spec =
     YMap ((''fsm'', YMap (fsm_entries spec)) #
       (case su_io spec of None \<Rightarrow> [] | Some io \<Rightarrow> [(''io'', YMap (io_entries io))]))"

text \<open>A text that has to fit, where it is given.\<close>

definition fits_in :: "nat \<Rightarrow> status \<Rightarrow> string option \<Rightarrow> status" where
  "fits_in cap status v = (case v of None \<Rightarrow> Ok | Some t \<Rightarrow> if length t \<le> cap then Ok else status)"

text \<open>The first thing that is wrong with a setup file, in the order of its sections.\<close>

definition io_verdict :: "io_spec \<Rightarrow> status" where
  "io_verdict io = first_error id
     [fits_in kMaxChannelLength ChannelTooLong (is_state_channel io),
      fits_in kMaxChannelLength ChannelTooLong (is_error_channel io),
      fits_in kMaxChannelLength ChannelTooLong (is_endpoint io),
      fits_in kMaxNameLength NameTooLong (is_identity io)]"

definition setup_verdict :: "setup_spec \<Rightarrow> status" where
  "setup_verdict spec = first_error id
     [fits_in kMaxNameLength NameTooLong (su_name spec),
      if su_initial spec = [] then InvalidArgument else Ok,
      fits_in kMaxNameLength NameTooLong (Some (su_initial spec)),
      case su_io spec of None \<Rightarrow> Ok | Some io \<Rightarrow> io_verdict io]"

definition given :: "string option \<Rightarrow> string" where
  "given v = (case v of None \<Rightarrow> [] | Some t \<Rightarrow> t)"

definition io_of_spec :: "io_spec \<Rightarrow> io_config" where
  "io_of_spec io =
     \<lparr>state_channel = given (is_state_channel io), error_channel = given (is_error_channel io),
      endpoint = given (is_endpoint io), identity = given (is_identity io)\<rparr>"

definition setup_of_spec :: "setup_spec \<Rightarrow> deployment" where
  "setup_of_spec spec =
     \<lparr>setup_name = given (su_name spec), initial_name = su_initial spec,
      setup_io = (case su_io spec of None \<Rightarrow> empty_io | Some io \<Rightarrow> io_of_spec io)\<rparr>"

section \<open>Reading a document\<close>

definition io_of :: "ydoc \<Rightarrow> io_spec option" where
  "io_of doc = (case doc of
     YMap entries \<Rightarrow> do {
       sc \<leftarrow> optionally text_of (map_of entries ''state_channel'');
       ec \<leftarrow> optionally text_of (map_of entries ''error_channel'');
       ep \<leftarrow> optionally text_of (map_of entries ''endpoint'');
       ident \<leftarrow> optionally text_of (map_of entries ''identity'');
       Some \<lparr>is_state_channel = sc, is_error_channel = ec, is_endpoint = ep, is_identity = ident\<rparr> }
   | _ \<Rightarrow> None)"

definition setup_of :: "ydoc \<Rightarrow> setup_spec option" where
  "setup_of doc = (if entry doc ''states'' \<noteq> None \<or> entry doc ''triggers'' \<noteq> None then None else do {
     fsm \<leftarrow> entry doc ''fsm'';
     initial \<leftarrow> entry fsm ''initial'';
     name \<leftarrow> optionally text_of (entry fsm ''name'');
     initial \<leftarrow> text_of initial;
     io \<leftarrow> optionally io_of (entry doc ''io'');
     Some \<lparr>su_name = name, su_initial = initial, su_io = io\<rparr> })"

lemma io_lookup:
  "map_of (io_entries io) ''state_channel'' = map_option YScalar (is_state_channel io)"
  "map_of (io_entries io) ''error_channel'' = map_option YScalar (is_error_channel io)"
  "map_of (io_entries io) ''endpoint'' = map_option YScalar (is_endpoint io)"
  "map_of (io_entries io) ''identity'' = map_option YScalar (is_identity io)"
  by (simp_all add: io_entries_def optional_entry_def split: option.split)

lemma fsm_lookup:
  "map_of (fsm_entries spec) ''name'' = map_option YScalar (su_name spec)"
  "map_of (fsm_entries spec) ''initial'' = Some (YScalar (su_initial spec))"
  by (simp_all add: fsm_entries_def optional_entry_def split: option.split)

lemma optionally_scalar: "optionally text_of (map_option YScalar v) = Some v"
  by (cases v) (simp_all add: optionally_def)

lemma setup_of_doc: "setup_of (setup_doc spec) = Some spec"
  by (cases "su_io spec") (simp_all add: setup_of_def setup_doc_def io_of_def io_lookup fsm_lookup
      optionally_scalar optionally_def [where f = io_of])

section \<open>The operations a document stands for\<close>

text \<open>A text stored where it is given and fits.\<close>

definition store_at :: "ydoc \<Rightarrow> string \<Rightarrow> nat \<Rightarrow> status \<Rightarrow> (string \<Rightarrow> 's \<Rightarrow> 's) \<Rightarrow> 's \<Rightarrow> status + 's" where
  "store_at doc key cap status put s =
     (case entry doc key of None \<Rightarrow> Inr s
      | Some v \<Rightarrow> attempt (text_in v) (\<lambda>t. if length t \<le> cap then Inr (put t s) else Inl status))"

definition doc_io :: "ydoc option \<Rightarrow> deployment \<Rightarrow> status + deployment" where
  "doc_io io s =
     (case io of None \<Rightarrow> Inr s
      | Some doc \<Rightarrow> (case doc of
          YMap entries \<Rightarrow>
            attempt (store_at doc ''state_channel'' kMaxChannelLength ChannelTooLong
              (\<lambda>t s. s\<lparr>setup_io := state_channel_update (\<lambda>_. t) (setup_io s)\<rparr>) s) (\<lambda>s.
            attempt (store_at doc ''error_channel'' kMaxChannelLength ChannelTooLong
              (\<lambda>t s. s\<lparr>setup_io := error_channel_update (\<lambda>_. t) (setup_io s)\<rparr>) s) (\<lambda>s.
            attempt (store_at doc ''endpoint'' kMaxChannelLength ChannelTooLong
              (\<lambda>t s. s\<lparr>setup_io := endpoint_update (\<lambda>_. t) (setup_io s)\<rparr>) s) (\<lambda>s.
            store_at doc ''identity'' kMaxNameLength NameTooLong
              (\<lambda>t s. s\<lparr>setup_io := identity_update (\<lambda>_. t) (setup_io s)\<rparr>) s)))
        | _ \<Rightarrow> Inl SchemaError))"

definition doc_setup_name :: "ydoc option \<Rightarrow> status + deployment" where
  "doc_setup_name name =
     (case name of None \<Rightarrow> Inr setup_clear
      | Some doc \<Rightarrow> attempt (text_in doc) (\<lambda>name. checked (setup_set_name name setup_clear)))"

definition doc_setup :: "ydoc \<Rightarrow> status + deployment" where
  "doc_setup doc =
     (case doc of
        YMap entries \<Rightarrow>
          if map_of entries ''states'' \<noteq> None then Inl SchemaError
          else if map_of entries ''triggers'' \<noteq> None then Inl SchemaError
          else (case map_of entries ''fsm'' of None \<Rightarrow> Inl SchemaError
            | Some fsm \<Rightarrow> (case entry fsm ''initial'' of None \<Rightarrow> Inl SchemaError
              | Some initial \<Rightarrow>
                  attempt (doc_setup_name (entry fsm ''name'')) (\<lambda>s.
                  attempt (text_in initial) (\<lambda>initial.
                  attempt (checked (setup_set_initial initial s)) (doc_io (map_of entries ''io''))))))
      | _ \<Rightarrow> Inl SchemaError)"

section \<open>The loader is that sequence\<close>

lemma agrees_io_field:
  assumes "reads ops node (YMap entries)" and "status \<noteq> Ok"
  shows "agrees d (read_io_field ops node key cap status field update s d)
    (store_at (YMap entries) key cap status (\<lambda>t s. s\<lparr>setup_io := update (\<lambda>_. t) (setup_io s)\<rparr>) s)"
proof (cases "map_of entries key")
  case None
  then show ?thesis
    by (simp add: read_io_field_def reads_has_key [OF assms(1)] store_at_def agrees_Ok)
next
  case (Some v)
  obtain child where child: "yn_get ops node key = Inr child" "reads ops child v"
    by (rule reads_child [OF assms(1) Some])
  have "agrees d (attempt (yn_string ops child) (\<lambda>t.
        if length t \<le> cap then Inr (Ok, s\<lparr>setup_io := update (\<lambda>_. t) (setup_io s)\<rparr>, d)
        else report_at ops status child (''io.'' @ key @ '' is too long'') []
          (s\<lparr>setup_io := update (\<lambda>_. field (setup_io s)) (setup_io s)\<rparr>) d))
      (store_at (YMap entries) key cap status (\<lambda>t s. s\<lparr>setup_io := update (\<lambda>_. t) (setup_io s)\<rparr>) s)"
    using Some reads_kind(2) [OF child(2)] assms(2)
    by (auto simp: store_at_def intro!: agrees_text [OF child(2)] agrees_Ok agrees_report)
  with Some child(1) show ?thesis
    by (cases "yn_string ops child") (simp_all add: read_io_field_def reads_has_key [OF assms(1)] read_string_def
        split: if_splits)
qed

lemma agrees_parse_io:
  assumes "reads ops root (YMap entries)"
  shows "agrees d (parse_io ops root s d) (doc_io (map_of entries ''io'') s)"
proof (cases "map_of entries ''io''")
  case None
  obtain child where "yn_get ops root ''io'' = Inr child" "\<not> yn_defined ops child"
    by (rule reads_no_child [OF assms None])
  with None show ?thesis by (simp add: parse_io_def doc_io_def agrees_Ok)
next
  case (Some doc)
  obtain node where node: "yn_get ops root ''io'' = Inr node" "reads ops node doc"
    by (rule reads_child [OF assms Some])
  show ?thesis
  proof (cases "\<exists>es. doc = YMap es")
    case False
    with node(1) Some reads_kind [OF node(2)] show ?thesis
      by (cases doc) (simp_all add: parse_io_def doc_io_def agrees_report)
  next
    case True
    then obtain es where doc: "doc = YMap es" by blast
    note field = agrees_io_field [OF node(2) [unfolded doc]]
    show ?thesis
      unfolding parse_io_def doc_io_def node(1) Some doc
      using reads_kind [OF node(2)] doc by simp (intro agrees_and_then field; simp)
  qed
qed

lemma agrees_setup_name:
  assumes "reads ops fsm (YMap entries)"
  shows "agrees d (attempt (has_key ops fsm ''name'') (\<lambda>named.
      if \<not> named then Inr (Ok, setup_clear, d)
      else attempt (string_at ops fsm ''name'') (\<lambda>name.
        let (status, s) = setup_set_name name setup_clear
        in if is_ok status then Inr (Ok, s, d)
           else attempt (yn_get ops fsm ''name'') (\<lambda>node. report_at ops NameTooLong node fmt args s d))))
    (doc_setup_name (map_of entries ''name''))"
proof (cases "map_of entries ''name''")
  case None
  then show ?thesis
    by (simp add: reads_has_key [OF assms] doc_setup_name_def agrees_Ok)
next
  case (Some doc)
  obtain child where child: "yn_get ops fsm ''name'' = Inr child" "reads ops child doc"
    by (rule reads_child [OF assms Some])
  have "agrees d (attempt (string_at ops fsm ''name'') (\<lambda>name.
        let (status, s) = setup_set_name name setup_clear
        in if is_ok status then Inr (Ok, s, d)
           else attempt (yn_get ops fsm ''name'') (\<lambda>node. report_at ops NameTooLong node fmt args s d)))
      (attempt (text_in doc) (\<lambda>name. checked (setup_set_name name setup_clear)))"
    by (rule agrees_text_at [OF assms Some])
      (use child(1) reads_kind(2) [OF child(2)] in
        \<open>auto simp: checked_def setup_set_name_def split_beta Let_def intro!: agrees_Ok agrees_report\<close>)
  with Some show ?thesis
    by (simp add: reads_has_key [OF assms] doc_setup_name_def)
qed

lemma agrees_setup_initial:
  assumes "reads ops fsm (YMap entries)" and "map_of entries ''initial'' = Some doc"
    and "\<And>s. agrees d (rest s d) (cont s)"
  shows "agrees d (attempt (string_at ops fsm ''initial'') (\<lambda>initial.
      let (status, s) = setup_set_initial initial s
      in if \<not> is_ok status
         then attempt (yn_get ops fsm ''initial'') (\<lambda>node. report_at ops status node fmt (args status) s d)
         else rest s d))
    (attempt (text_in doc) (\<lambda>initial. attempt (checked (setup_set_initial initial s)) cont))"
proof -
  obtain child where child: "yn_get ops fsm ''initial'' = Inr child" "reads ops child doc"
    by (rule reads_child [OF assms(1,2)])
  show ?thesis
    by (rule agrees_text_at [OF assms(1,2)])
      (use child(1) reads_kind(2) [OF child(2)] assms(3) in
        \<open>auto simp: checked_def split_beta Let_def intro!: agrees_Ok agrees_report\<close>)
qed

lemma agrees_parse_setup:
  assumes "reads ops root doc"
  shows "agrees d (parse_setup ops root setup_clear d) (doc_setup doc)"
proof (cases "\<exists>entries. doc = YMap entries")
  case False
  with reads_kind [OF assms] show ?thesis
    by (cases doc) (simp_all add: parse_setup_def doc_setup_def agrees_report)
next
  case True
  then obtain entries where doc: "doc = YMap entries" by blast
  note root = assms [unfolded doc]
  let ?rest = "\<lambda>d. attempt (yn_get ops root ''fsm'') (\<lambda>fsm.
     attempt (if yn_defined ops fsm then is_map_with ops fsm ''initial'' else Inr False) (\<lambda>usable.
     if \<not> usable
     then report_at ops SchemaError fsm (quote @ ''fsm' must be a mapping containing 'initial'' @ quote) [] setup_clear d
     else and_then
       (attempt (has_key ops fsm ''name'') (\<lambda>named.
          if \<not> named then Inr (Ok, setup_clear, d)
          else attempt (string_at ops fsm ''name'') (\<lambda>name.
            let (status, s) = setup_set_name name setup_clear
            in if is_ok status then Inr (Ok, s, d)
               else attempt (yn_get ops fsm ''name'') (\<lambda>node.
                 report_at ops NameTooLong node ''fsm.name is too long'' [] s d))))
       (\<lambda>s d. attempt (string_at ops fsm ''initial'') (\<lambda>initial.
          let (status, s) = setup_set_initial initial s
          in if \<not> is_ok status
             then attempt (yn_get ops fsm ''initial'') (\<lambda>node.
               report_at ops status node ''fsm.initial: %s'' [status_to_string status] s d)
             else parse_io ops root s d))))"
  have "agrees d (?rest d) (case map_of entries ''fsm'' of None \<Rightarrow> Inl SchemaError
      | Some fsm \<Rightarrow> (case entry fsm ''initial'' of None \<Rightarrow> Inl SchemaError
        | Some initial \<Rightarrow>
            attempt (doc_setup_name (entry fsm ''name'')) (\<lambda>s.
            attempt (text_in initial) (\<lambda>initial.
            attempt (checked (setup_set_initial initial s)) (doc_io (map_of entries ''io''))))))"
  proof (cases "map_of entries ''fsm''")
    case None
    obtain fsm where "yn_get ops root ''fsm'' = Inr fsm" "\<not> yn_defined ops fsm"
      by (rule reads_no_child [OF root None])
    with None show ?thesis by (auto intro!: agrees_report)
  next
    case (Some fdoc)
    obtain fsm where fsm: "yn_get ops root ''fsm'' = Inr fsm" "reads ops fsm fdoc"
      by (rule reads_child [OF root Some])
    note found = fsm(1) Some reads_kind(1,2) [OF fsm(2)] reads_is_map_with [OF fsm(2)]
    show ?thesis
    proof (cases "entry fdoc ''initial''")
      case None
      with found show ?thesis by (auto intro!: agrees_report)
    next
      case (Some initial)
      then obtain es where es: "fdoc = YMap es" "map_of es ''initial'' = Some initial"
        by (cases fdoc) simp_all
      note node = fsm(2) [unfolded es(1)]
      show ?thesis
        unfolding found [unfolded es(1)] es option.case attempt_simps entry_simps if_True
        by (simp only: simp_thms reads_kind(1) [OF fsm(2)] attempt_simps if_True if_False not_None_eq option.inject ex_simps)
          (intro agrees_and_then [OF agrees_setup_name [OF node]] agrees_setup_initial [OF node es(2)]
            agrees_parse_io [OF root])
    qed
  qed
  then show ?thesis
    unfolding doc parse_setup_def doc_setup_def reads_kind(5) [OF root] ydoc.case attempt_simps simp_thms if_False
    by (intro agrees_foreign [OF root])
qed

section \<open>A document that can be read is its setup file\<close>

lemma store_at_read:
  "optionally text_of (entry doc key) = Some v \<Longrightarrow> store_at doc key cap status put s =
     (if fits_in cap status v = Ok then Inr (case v of None \<Rightarrow> s | Some t \<Rightarrow> put t s) else Inl status)"
  "optionally text_of (entry doc key) = None \<Longrightarrow> isl (store_at doc key cap status put s)" if "status \<noteq> Ok"
  using that by (auto simp: store_at_def optionally_def text_in_def fits_in_def split: option.splits)

lemma doc_io_verdict:
  assumes "io_of doc = Some io" and "setup_io s = empty_io"
  shows "doc_io (Some doc) s = (if io_verdict io = Ok then Inr (s\<lparr>setup_io := io_of_spec io\<rparr>) else Inl (io_verdict io))"
proof -
  from assms(1) obtain es where es: "doc = YMap es" "optionally text_of (entry doc ''state_channel'') = Some (is_state_channel io)"
      "optionally text_of (entry doc ''error_channel'') = Some (is_error_channel io)"
      "optionally text_of (entry doc ''endpoint'') = Some (is_endpoint io)"
      "optionally text_of (entry doc ''identity'') = Some (is_identity io)"
    by (auto simp: io_of_def bind_eq_Some_conv split: ydoc.splits)
  have "doc_io (Some doc) s =
      attempt (store_at doc ''state_channel'' kMaxChannelLength ChannelTooLong
        (\<lambda>t s. s\<lparr>setup_io := state_channel_update (\<lambda>_. t) (setup_io s)\<rparr>) s) (\<lambda>s.
      attempt (store_at doc ''error_channel'' kMaxChannelLength ChannelTooLong
        (\<lambda>t s. s\<lparr>setup_io := error_channel_update (\<lambda>_. t) (setup_io s)\<rparr>) s) (\<lambda>s.
      attempt (store_at doc ''endpoint'' kMaxChannelLength ChannelTooLong
        (\<lambda>t s. s\<lparr>setup_io := endpoint_update (\<lambda>_. t) (setup_io s)\<rparr>) s) (\<lambda>s.
      store_at doc ''identity'' kMaxNameLength NameTooLong
        (\<lambda>t s. s\<lparr>setup_io := identity_update (\<lambda>_. t) (setup_io s)\<rparr>) s)))"
    by (simp add: doc_io_def es(1))
  with assms(2) show ?thesis
    by (auto simp: store_at_read(1) [OF _ es(2)] store_at_read(1) [OF _ es(3)] store_at_read(1) [OF _ es(4)]
        store_at_read(1) [OF _ es(5)] io_verdict_def fits_in_def io_of_spec_def given_def empty_io_def split: option.splits)
qed

lemma doc_io_refused:
  assumes "io_of doc = None"
  shows "isl (doc_io (Some doc) s)"
proof (cases doc)
  case (YMap es)
  have missing: "store_at (YMap es) key cap status put s \<noteq> Inr s'"
    if "optionally text_of (map_of es key) = None" "status \<noteq> Ok" for key cap status put and s s' :: deployment
    using store_at_read(2) [of status "YMap es" key cap put s] that by auto
  have refused: "isl (store_at (YMap es) ''identity'' kMaxNameLength NameTooLong put s)"
    if "optionally text_of (map_of es ''identity'') = None" for put and s :: deployment
    using that by (intro store_at_read(2)) simp_all
  from assms YMap consider "optionally text_of (map_of es ''state_channel'') = None"
    | "optionally text_of (map_of es ''error_channel'') = None"
    | "optionally text_of (map_of es ''endpoint'') = None" | "optionally text_of (map_of es ''identity'') = None"
    by (auto simp: io_of_def bind_eq_None_conv)
  then show ?thesis
    by cases (auto simp: YMap doc_io_def missing refused intro!: isl_attempt)
qed (simp_all add: doc_io_def)

lemma setup_decoded:
  "setup_of doc = Some spec \<Longrightarrow> doc_setup doc =
     (if setup_verdict spec = Ok then Inr (setup_of_spec spec) else Inl (setup_verdict spec))"
  "setup_of doc = None \<Longrightarrow> isl (doc_setup doc)"
proof -
  assume some: "setup_of doc = Some spec"
  then obtain es fsm initial where es: "doc = YMap es" "map_of es ''states'' = None" "map_of es ''triggers'' = None"
      "map_of es ''fsm'' = Some fsm" "entry fsm ''initial'' = Some initial" "text_of initial = Some (su_initial spec)"
      "optionally text_of (entry fsm ''name'') = Some (su_name spec)" "optionally io_of (map_of es ''io'') = Some (su_io spec)"
    by (cases doc) (auto simp: setup_of_def bind_eq_Some_conv split: if_splits)
  have name: "doc_setup_name (entry fsm ''name'') =
      (if fits_in kMaxNameLength NameTooLong (su_name spec) = Ok
       then Inr (setup_clear\<lparr>setup_name := given (su_name spec)\<rparr>) else Inl NameTooLong)"
    using es(7) by (auto simp: doc_setup_name_def optionally_def text_in_def checked_def setup_set_name_def
        assign_checked_eq fits_in_def given_def setup_clear_def split: option.splits)
  have io: "doc_io (map_of es ''io'') s =
      (case su_io spec of None \<Rightarrow> Inr s
       | Some io \<Rightarrow> if io_verdict io = Ok then Inr (s\<lparr>setup_io := io_of_spec io\<rparr>) else Inl (io_verdict io))"
    if "setup_io s = empty_io" for s
  proof (cases "map_of es ''io''")
    case None
    with es(8) show ?thesis by (auto simp: optionally_def doc_io_def)
  next
    case (Some iodoc)
    with es(8) obtain io where "io_of iodoc = Some io" "su_io spec = Some io"
      by (cases "su_io spec") (auto simp: optionally_def)
    with doc_io_verdict [OF this(1) that] Some show ?thesis by simp
  qed
  show "doc_setup doc = (if setup_verdict spec = Ok then Inr (setup_of_spec spec) else Inl (setup_verdict spec))"
    using es(2-6) unfolding es(1) doc_setup_def
    by (auto simp: name text_decoded io checked_def setup_set_initial_def assign_checked_eq setup_verdict_def
        fits_in_def setup_of_spec_def setup_clear_def given_def split: option.splits)
next
  assume none: "setup_of doc = None"
  show "isl (doc_setup doc)"
  proof (cases doc)
    case (YMap es)
    show ?thesis
    proof (cases "map_of es ''fsm'' \<bind> (\<lambda>fsm. entry fsm ''initial'')")
      case None
      then show ?thesis
        by (auto simp: YMap doc_setup_def bind_eq_None_conv split: option.splits)
    next
      case (Some initial)
      then obtain fsm where fsm: "map_of es ''fsm'' = Some fsm" "entry fsm ''initial'' = Some initial"
        by (auto simp: bind_eq_Some_conv)
      have name: "doc_setup_name (entry fsm ''name'') \<noteq> Inr s" if "optionally text_of (entry fsm ''name'') = None" for s
        using that by (auto simp: optionally_def doc_setup_name_def text_in_def split: option.splits)
      have io: "isl (doc_io (map_of es ''io'') s)" if "optionally io_of (map_of es ''io'') = None" for s
        using that doc_io_refused [of "the (map_of es ''io'')" s] by (auto simp: optionally_def split: option.splits)
      from none YMap fsm consider "map_of es ''states'' \<noteq> None \<or> map_of es ''triggers'' \<noteq> None"
        | "optionally text_of (entry fsm ''name'') = None" | "text_of initial = None"
        | "optionally io_of (map_of es ''io'') = None"
        by (auto simp: setup_of_def bind_eq_None_conv split: if_splits)
      then show ?thesis
        by cases (auto simp: YMap doc_setup_def fsm name io text_decoded intro!: isl_attempt)
    qed
  qed (simp_all add: doc_setup_def)
qed

section \<open>What the setup loader promises\<close>

lemmas guarded_setup = guarded_agrees [where parse = "parse_setup ops" for ops, OF agrees_parse_setup
    keeps_parse_setup [OF setup_ok_clear]]

lemma guarded_setup_decoded:
  assumes "reads ops root doc" and "setup_of doc = Some spec"
  shows "case guarded setup_clear (parse_setup ops) (Inr root) of (status, s, d) \<Rightarrow>
    status = setup_verdict spec \<and>
    (if status = Ok then s = setup_of_spec spec \<and> d = diagnostics_reset
     else s = setup_clear \<and> diag_status d = status)"
  using guarded_setup [OF assms(1)] setup_decoded(1) [OF assms(2)] by (auto split: if_splits)

lemma guarded_setup_refused:
  assumes "reads ops root doc" and "setup_of doc = None"
  obtains e d where "guarded setup_clear (parse_setup ops) (Inr root) = (e, setup_clear, d)" "e \<noteq> Ok" "diag_status d = e"
  using guarded_setup [OF assms(1)] setup_decoded(2) [OF assms(2)] by (auto split: sum.splits)

definition bench_spec :: setup_spec where
  "bench_spec = \<lparr>su_name = Some ''car-ecu-01'', su_initial = ''idle'',
     su_io = Some \<lparr>is_state_channel = Some ''car/state'', is_error_channel = None,
       is_endpoint = Some ''tcp://localhost:1883'', is_identity = None\<rparr>\<rparr>"

text \<open>C8: whatever a YAML document says, the setup loader is the plain sequence of stores the
  document stands for, with the status of the first that fails, the setup cleared then. A
  document that can be read as a setup file, in any order of keys, is answered with the first
  thing that is wrong with the file, in the order name, initial state, channels, endpoint,
  identity, or, when nothing is, with \<open>Ok\<close> and the setup that has every value the file gives,
  the default where it gives none; one that cannot be read is refused.\<close>

theorem setup_file_exact:
  assumes "reads ops root doc" and "yn_load_text ops (cstr yaml) = Inr root"
  shows "(case load_setup_string ops (Some yaml) s0 d0 of (status, s, d) \<Rightarrow>
      (case doc_setup doc of
         Inr s' \<Rightarrow> status = Ok \<and> s = s' \<and> d = diagnostics_reset
       | Inl e \<Rightarrow> status = e \<and> e \<noteq> Ok \<and> s = setup_clear \<and> diag_status d = e)) \<and>
    (case setup_of doc of None \<Rightarrow> isl (doc_setup doc)
     | Some spec \<Rightarrow> doc_setup doc =
         (if setup_verdict spec = Ok then Inr (setup_of_spec spec) else Inl (setup_verdict spec)))"
  using guarded_setup [OF assms(1)] setup_decoded [of doc] assms(2)
  by (auto simp: load_setup_string_def split: sum.splits option.split)

theorem setup_file_exact_witness:
  "(case load_setup_string (document_ops (setup_doc bench_spec)) (Some ''text'') setup_clear diagnostics_reset of
      (status, s, d) \<Rightarrow>
      (case doc_setup (setup_doc bench_spec) of
         Inr s' \<Rightarrow> status = Ok \<and> s = s' \<and> d = diagnostics_reset
       | Inl e \<Rightarrow> status = e \<and> e \<noteq> Ok \<and> s = setup_clear \<and> diag_status d = e)) \<and>
    (case setup_of (setup_doc bench_spec) of None \<Rightarrow> isl (doc_setup (setup_doc bench_spec))
     | Some spec \<Rightarrow> doc_setup (setup_doc bench_spec) =
         (if setup_verdict spec = Ok then Inr (setup_of_spec spec) else Inl (setup_verdict spec)))"
  by (rule setup_file_exact [OF document_ops_reads]) (simp add: document_ops_def)

end
