(* ===== verification/FileProgram.thy ===== *)
theory FileProgram
  imports FileSemantics CarConsole SetupDocuments
begin

text \<open>
  The program on two files: what examples/car does, from the two files as they are written and
  the text on the standard input, without a model, a loader or a runtime in the statement.
\<close>

section \<open>The setup phase on two files\<close>

text \<open>What a path shows: a document, or nothing if it cannot be opened, cannot be read or is not
  YAML.\<close>

definition path_shows :: "'n yaml_ops \<Rightarrow> (string \<Rightarrow> open_outcome) \<Rightarrow> string \<Rightarrow> ydoc option \<Rightarrow> bool" where
  "path_shows ops files path shown \<longleftrightarrow>
     (case files path of
        Opened content \<Rightarrow>
          (case yn_load_stream ops content of
             Inl e \<Rightarrow> shown = None
           | Inr root \<Rightarrow> \<exists>doc. shown = Some doc \<and> reads ops root doc)
      | _ \<Rightarrow> shown = None)"

definition two_shown ::
  "'n yaml_ops \<Rightarrow> (string \<Rightarrow> open_outcome) \<Rightarrow> car_options \<Rightarrow> ydoc option \<Rightarrow> ydoc option \<Rightarrow> bool" where
  "two_shown ops files opts sdoc mdoc \<longleftrightarrow>
     path_shows ops files (setup_path opts) sdoc \<and> path_shows ops files (machine_path opts) mdoc"

definition files_fit :: "setup_spec \<Rightarrow> machine_spec \<Rightarrow> bool" where
  "files_fit su spec \<longleftrightarrow> setup_verdict su = Ok \<and> machine_file_ok spec \<and>
     su_initial su \<in> set (map ss_name (ms_states spec))"

text \<open>What two files say, if both can be read, are well formed and fit each other.\<close>

definition files_of :: "ydoc option \<Rightarrow> ydoc option \<Rightarrow> (setup_spec \<times> machine_spec) option" where
  "files_of sdoc mdoc = do {
     sdoc \<leftarrow> sdoc; su \<leftarrow> setup_of sdoc;
     mdoc \<leftarrow> mdoc; spec \<leftarrow> machine_of mdoc;
     if files_fit su spec then Some (su, spec) else None }"

lemma setup_loaded:
  assumes "path_shows ops files path (Some doc)" and "setup_of doc = Some su"
  obtains d where "load_setup_file ops files strerror (Some path) s d0 =
    (setup_verdict su, if setup_verdict su = Ok then setup_of_spec su else setup_clear, d)"
proof -
  from assms(1) obtain content root where r: "files path = Opened content" "yn_load_stream ops content = Inr root" "reads ops root doc"
    by (auto simp: path_shows_def split: open_outcome.splits sum.splits)
  from guarded_setup_decoded [OF r(3) assms(2)] obtain d where
    "guarded setup_clear (parse_setup ops) (Inr root) = (setup_verdict su, if setup_verdict su = Ok then setup_of_spec su else setup_clear, d)"
    by (auto split: prod.splits if_splits)
  with r(1,2) show thesis
    by (intro that [of d]) (simp add: load_setup_file_def open_config_def Let_def)
qed

text \<open>Without a document there is nothing to parse.\<close>

lemma guarded_thrown: "fst (guarded cleared parse (Inl e)) = ParseError"
  by (cases e) (simp_all add: guarded_def Let_def)

lemma nothing_loaded:
  assumes "path_shows ops files path None"
  shows "fst (load_setup_file ops files strerror (Some path) s d) \<noteq> Ok"
    and "fst (load_machine_file ops files strerror (Some path) m d) \<noteq> Ok"
  using assms
  by (auto simp: path_shows_def load_setup_file_def load_machine_file_def open_config_def set_message_def Let_def
      guarded_thrown split: open_outcome.splits sum.splits)

lemma setup_refused:
  assumes "path_shows ops files path (Some doc)" and "setup_of doc = None"
  shows "fst (load_setup_file ops files strerror (Some path) s d0) \<noteq> Ok"
proof -
  from assms(1) obtain content root where r: "files path = Opened content" "yn_load_stream ops content = Inr root" "reads ops root doc"
    by (auto simp: path_shows_def split: open_outcome.splits sum.splits)
  obtain e d where "guarded setup_clear (parse_setup ops) (Inr root) = (e, setup_clear, d)" "e \<noteq> Ok"
    by (rule guarded_setup_refused [OF r(3) assms(2)])
  with r(1,2) show ?thesis
    by (simp add: load_setup_file_def open_config_def Let_def)
qed

lemma machine_loaded:
  assumes "path_shows ops files path (Some doc)"
  shows "machine_of doc = Some spec \<Longrightarrow> machine_file_ok spec \<Longrightarrow>
      \<exists>m d. load_machine_file ops files strerror (Some path) m0 d0 = (Ok, m, d) \<and> of_file spec m \<and> loaded m"
    and "(\<And>spec. machine_of doc = Some spec \<Longrightarrow> \<not> machine_file_ok spec) \<Longrightarrow>
      fst (load_machine_file ops files strerror (Some path) m0 d0) \<noteq> Ok"
proof -
  from assms obtain content root where r: "files path = Opened content" "yn_load_stream ops content = Inr root" "reads ops root doc"
    by (auto simp: path_shows_def split: open_outcome.splits sum.splits)
  have load: "load_machine_file ops files strerror (Some path) m0 d0 = guarded model_clear (parse_machine ops) (Inr root)"
    using r(2) by (simp add: load_machine_source(2) [of files _ content, OF r(1)])
  note doc = guarded_machine [OF r(3)]
  show "\<exists>m d. load_machine_file ops files strerror (Some path) m0 d0 = (Ok, m, d) \<and> of_file spec m \<and> loaded m"
    if some: "machine_of doc = Some spec" and ok: "machine_file_ok spec"
  proof -
    from ok obtain m where m: "build_machine spec = Inr m"
      by (rule build_machine_ok)
    with doc machine_decoded(1) [OF some]
    have "load_machine_file ops files strerror (Some path) m0 d0 = (Ok, m, diagnostics_reset)"
      by (simp add: load)
    with built_of_file [OF m] loaded_from_files(1) show ?thesis
      by blast
  qed
  show "fst (load_machine_file ops files strerror (Some path) m0 d0) \<noteq> Ok"
    if "\<And>spec. machine_of doc = Some spec \<Longrightarrow> \<not> machine_file_ok spec"
  proof -
    have "isl (doc_machine doc)"
      using machine_decoded [of doc] build_machine_refuses that by (cases "machine_of doc") simp_all
    with doc show ?thesis
      by (cases "doc_machine doc") (auto simp: load)
  qed
qed

text \<open>The setup phase succeeds exactly if both files are well formed and the initial state is one
  of the machine's.\<close>

lemma verdict_initial: "setup_verdict su = Ok \<Longrightarrow> su_initial su \<noteq> []"
  by (auto simp: setup_verdict_def fits_in_def split: if_splits)

lemma binds_iff:
  assumes "of_file spec m" and "loaded m" and "setup_verdict su = Ok"
  shows "fst (sm_init m (setup_of_spec su) new_machine) = Ok \<longleftrightarrow> su_initial su \<in> set (map ss_name (ms_states spec))"
  using assms(2) verdict_initial [OF assms(3)] find_known(1) [OF of_fileD(1) [OF assms(1)]] of_fileD(2) [OF assms(1)]
  by (auto simp: sm_init_def new_machine_def loaded_def validate_against_def setup_of_spec_def initial_in_def Let_def)

lemma files_of_Some:
  assumes "files_of sdoc mdoc = Some (su, spec)"
  obtains sd md where "sdoc = Some sd" "setup_of sd = Some su" "mdoc = Some md" "machine_of md = Some spec" "files_fit su spec"
  using assms by (auto simp: files_of_def bind_eq_Some_conv split: if_splits)

lemma car_setup_files:
  assumes "two_shown ops files opts sdoc mdoc"
  shows "files_of sdoc mdoc = Some (su, spec) \<Longrightarrow>
      \<exists>m sm. car_setup ops files strerror opts = Inr (setup_of_spec su, m, sm) \<and> of_file spec m"
    and "files_of sdoc mdoc = None \<Longrightarrow> isl (car_setup ops files strerror opts)"
proof -
  note sshown = assms [unfolded two_shown_def, THEN conjunct1] and mshown = assms [unfolded two_shown_def, THEN conjunct2]
  show "\<exists>m sm. car_setup ops files strerror opts = Inr (setup_of_spec su, m, sm) \<and> of_file spec m"
    if some: "files_of sdoc mdoc = Some (su, spec)"
  proof -
    obtain sd md where docs: "sdoc = Some sd" "setup_of sd = Some su" "mdoc = Some md" "machine_of md = Some spec"
        and fit: "files_fit su spec"
      by (rule files_of_Some [OF some])
    obtain d where s: "load_setup_file ops files strerror (Some (setup_path opts)) setup_clear diagnostics_reset =
        (setup_verdict su, if setup_verdict su = Ok then setup_of_spec su else setup_clear, d)"
      by (rule setup_loaded [OF sshown [unfolded docs(1)] docs(2)])
    obtain m d' where m: "load_machine_file ops files strerror (Some (machine_path opts)) model_clear d = (Ok, m, d')"
        "of_file spec m" "loaded m"
      using machine_loaded(1) [OF mshown [unfolded docs(3)] docs(4)] fit by (metis files_fit_def)
    with binds_iff [OF m(2,3)] fit s show ?thesis
      by (auto simp: files_fit_def car_setup_def Let_def split_beta)
  qed
  assume none: "files_of sdoc mdoc = None"
  obtain status s d where s: "load_setup_file ops files strerror (Some (setup_path opts)) setup_clear diagnostics_reset = (status, s, d)"
    by (metis prod.collapse)
  show "isl (car_setup ops files strerror opts)"
  proof (cases "status = Ok \<and> fst (load_machine_file ops files strerror (Some (machine_path opts)) model_clear d) = Ok")
    case False
    with s show ?thesis by (auto simp: car_setup_def Let_def split_beta)
  next
    case True
    then obtain sd su where sd: "sdoc = Some sd" "setup_of sd = Some su"
      using s sshown nothing_loaded(1) setup_refused by (metis fst_conv option.exhaust)
    from True obtain md spec where md: "mdoc = Some md" "machine_of md = Some spec" "machine_file_ok spec"
      using mshown nothing_loaded(2) machine_loaded(2) by (metis option.exhaust)
    obtain d1 where "load_setup_file ops files strerror (Some (setup_path opts)) setup_clear diagnostics_reset =
        (setup_verdict su, if setup_verdict su = Ok then setup_of_spec su else setup_clear, d1)"
      by (rule setup_loaded [OF sshown [unfolded sd(1)] sd(2)])
    with s True have verdict: "setup_verdict su = Ok" "s = setup_of_spec su"
      by auto
    obtain m d' where m: "load_machine_file ops files strerror (Some (machine_path opts)) model_clear d = (Ok, m, d')"
        "of_file spec m" "loaded m"
      using machine_loaded(1) [OF mshown [unfolded md(1)] md(2,3)] by metis
    from none sd md verdict(1) have "su_initial su \<notin> set (map ss_name (ms_states spec))"
      by (auto simp: files_of_def files_fit_def split: if_splits)
    with binds_iff [OF m(2,3) verdict(1)] s verdict True m(1) show ?thesis
      by (auto simp: car_setup_def Let_def split_beta)
  qed
qed

text \<open>What the setup phase leaves behind, and how the program ends without it.\<close>

lemma files_started:
  assumes "two_shown ops files opts sdoc mdoc" and "files_of sdoc mdoc = Some (su, spec)"
  obtains m sm where "car_setup ops files strerror opts = Inr (setup_of_spec su, m, sm)" "of_file spec m"
    "su_initial su \<in> set (map ss_name (ms_states spec))" "sm_initial sm = find_state m (su_initial su)"
    "has_state m (sm_initial sm)" "state_name m (sm_initial sm) = su_initial su"
proof -
  obtain m sm where fits: "car_setup ops files strerror opts = Inr (setup_of_spec su, m, sm)" "of_file spec m"
    using car_setup_files(1) [OF assms] by metis
  have "files_fit su spec"
    by (rule files_of_Some [OF assms(2)])
  then have named: "su_initial su \<in> set (map ss_name (ms_states spec))"
    by (simp add: files_fit_def)
  have initial: "sm_initial sm = find_state m (su_initial su)"
    using car_setup_Inr(7) [OF fits(1)] by (simp add: initial_in_def setup_of_spec_def)
  show thesis
    using state_of_name [OF of_fileD(1) [OF fits(2)], of "su_initial su"] of_fileD(2) [OF fits(2)] named
    by (intro that [OF fits named initial]) (simp_all add: initial)
qed

lemma car_main_refused:
  assumes "read_options version args default_options = Inr opts"
    and "two_shown ops files opts sdoc mdoc" and "files_of sdoc mdoc = None"
  obtains out where "car_main version ops files strerror fuel args t = Some (1, out, None)"
proof -
  from car_setup_files(2) [OF assms(2,3)] obtain code out where "car_setup ops files strerror opts = Inl (code, out)"
    by (metis isl_def surj_pair)
  with car_setup_Inl [OF this] assms(1) that show thesis
    by (simp add: car_main_def)
qed

section \<open>Two files\<close>

definition car_spec :: setup_spec where
  "car_spec = \<lparr>su_name = Some ''car-ecu-01'', su_initial = ''idle'', su_io = None\<rparr>"

lemma two_documents_shown:
  assumes "setup_path opts = ''car.setup.yaml''" and "machine_path opts = ''car.machine.yaml''"
  shows "two_shown two_documents two_files opts (Some (setup_doc car_spec)) (Some (machine_doc file_spec))"
proof -
  have doc: "setup_document = setup_doc car_spec"
    by (simp add: setup_document_def setup_doc_def fsm_entries_def optional_entry_def car_spec_def)
  show ?thesis
    unfolding two_shown_def path_shows_def assms two_documents_def doc
    by (auto simp: two_files_def intro!: reads_any_source document_ops_reads)
qed

lemma two_documents_fit: "files_of (Some (setup_doc car_spec)) (Some (machine_doc file_spec)) = Some (car_spec, file_spec)"
proof -
  have "files_fit car_spec file_spec"
    by code_simp
  then show ?thesis
    by (simp add: files_of_def setup_of_doc machine_of_doc)
qed

section \<open>What the program promises about its files\<close>

text \<open>The last line of a session, from the state it ends in and the answers it gave; the counters of
  the machine and the runtime have 32 bits.\<close>

definition counted :: "(answer \<Rightarrow> bool) \<Rightarrow> answer list \<Rightarrow> string" where
  "counted P ys = int_to_text (int (length (filter P ys)) mod 2 ^ 32)"

definition final_text :: "string \<Rightarrow> answer list \<Rightarrow> string" where
  "final_text final ys =
     ''final state '' @ quote @ cstr final @ quote @ '': '' @
     counted is_entered ys @ '' transitions, '' @ counted is_rejected ys @ '' rejected, '' @
     counted (\<lambda>y. True) ys @ '' inputs ('' @ counted is_unknown ys @ '' unknown)'' @ [newline]"

lemma counted_word: "int_to_text (uint (word_of_nat (length (filter P ys)) :: u32)) = counted P ys"
  by (simp add: counted_def unsigned_of_nat take_bit_eq_mod zmod_int)

text \<open>C1: on any two files, and without an option that ends it early, the program exits with 0
  exactly if both can be opened and read as YAML, the documents say a setup file and a machine
  file that are well formed, and the initial state of the one is a state of the other. It ends
  when the standard input is used up, in the state that applying the machine of the file to the
  commands of the text, in order, reaches from there. It has reported the initial state and then
  one answer per command, the state entered or why none was, with the texts and names of the
  file, and its last line counts these answers. Otherwise it exits with 1 and starts nothing.\<close>

theorem car_runs_the_files:
  assumes "read_options version args default_options = Inr opts"
    and "\<not> export_diagram opts" and "\<not> check_only opts" and "\<not> lint_only opts"
    and "two_shown ops files opts sdoc mdoc"
  shows "case car_main version ops files strerror (Suc (length (console_commands t))) args t of
      None \<Rightarrow> False
    | Some (code, out, ended) \<Rightarrow>
        (case files_of sdoc mdoc of
           Some (su, spec) \<Rightarrow>
             let final = fold (file_step spec) (console_commands t) (su_initial su);
                 ys = answers (file_answer spec) (file_step spec) (console_commands t) (su_initial su)
             in code = 0 \<and> last out = Stderr (final_text final ys) \<and>
                map_option (\<lambda>s. current_name (the_machine s)) ended = Some final \<and>
                map_option (\<lambda>s. console_reports (the_port s)) ended = Some (Inl (su_initial su) # map report_of ys)
         | None \<Rightarrow> code = 1 \<and> ended = None)"
proof (cases "files_of sdoc mdoc")
  case (Some both)
  then obtain su spec where both: "files_of sdoc mdoc = Some (su, spec)"
    by (cases both) simp
  obtain m sm where fits: "car_setup ops files strerror opts = Inr (setup_of_spec su, m, sm)" "of_file spec m"
      and initial: "has_state m (sm_initial sm)" "state_name m (sm_initial sm) = su_initial su"
    by (rule files_started [OF assms(5) both])
  note facts = car_setup_Inr [OF fits(1)]
  obtain out s where run:
    "\<forall>extra. car_session (Suc (length (console_commands t)) + extra) opts (setup_of_spec su) m sm t = Some (0, out, s)"
    "sm_current (the_machine s) = fold (next_state m) (console_commands t) (sm_initial sm)"
    "last out = final_line s" "sm_model (the_machine s) = Some m"
    by (rule car_session_runs [OF facts(8,4,6), where opts = opts and st = "setup_of_spec su" and t = t])
  let ?final = "fold (file_step spec) (console_commands t) (su_initial su)"
  let ?ys = "answers (file_answer spec) (file_step spec) (console_commands t) (su_initial su)"
  from file_run_next [OF fits(2) initial(1)] initial(2) run(2,4)
  have final: "current_name (the_machine s) = ?final"
    by (simp add: current_name_def)
  note session = car_session_answers [OF facts(8,4,6) car_setup_fresh [OF fits(1)] spec [OF run(1), of 0],
      unfolded file_answers [OF fits(2) initial(1)] initial(2)]
  have "final_line s = Stderr (final_text ?final ?ys)"
    unfolding final_line_def final_text_def final session(2-5) counted_word [symmetric] by simp
  with both spec [OF run(1), of 0] fits(1) assms(1-4) run(3) final session(1) show ?thesis
    by (simp add: car_main_def Let_def)
next
  case None
  from car_main_refused [OF assms(1,5) None] obtain out where
    "car_main version ops files strerror (Suc (length (console_commands t))) args t = Some (1, out, None)"
    by blast
  with None show ?thesis
    by simp
qed

definition drive :: string where
  "drive = ''go pedal=9 mode=sport'' @ [newline] @ ''brakes/on'' @ [newline] @ ''horn''"

theorem car_runs_the_files_witness:
  "case car_main ''0.1.0'' two_documents two_files (\<lambda>code. []) (Suc (length (console_commands drive))) [''--quiet''] drive of
     None \<Rightarrow> False
   | Some (code, out, ended) \<Rightarrow> code = 0 \<and>
       last out = Stderr (''final state '' @ quote @ ''stuck'' @ quote @ '': 2 transitions, 0 rejected, 3 inputs (1 unknown)'' @ [newline]) \<and>
       map_option (\<lambda>s. current_name (the_machine s)) ended = Some ''stuck'' \<and>
       map_option (\<lambda>s. console_reports (the_port s)) ended =
         Some [Inl ''idle'', Inl ''running'', Inl ''stuck'', Inr ''unknown channel: horn'']"
proof -
  let ?opts = "default_options\<lparr>quiet := True\<rparr>"
  have args: "read_options ''0.1.0'' [''--quiet''] default_options = Inr ?opts"
    by simp
  have shown: "two_shown two_documents two_files ?opts (Some (setup_doc car_spec)) (Some (machine_doc file_spec))"
    by (rule two_documents_shown) (simp_all add: default_options_def)
  let ?ys = "answers (file_answer file_spec) (file_step file_spec) (console_commands drive) (su_initial car_spec)"
  have said: "fold (file_step file_spec) (console_commands drive) (su_initial car_spec) = ''stuck''"
    "final_text ''stuck'' ?ys = ''final state '' @ quote @ ''stuck'' @ quote @ '': 2 transitions, 0 rejected, 3 inputs (1 unknown)'' @ [newline]"
    "Inl (su_initial car_spec) # map report_of ?ys = [Inl ''idle'', Inl ''running'', Inl ''stuck'', Inr ''unknown channel: horn'']"
    by code_simp+
  have main: "\<not> export_diagram ?opts" "\<not> check_only ?opts" "\<not> lint_only ?opts"
    by (simp_all add: default_options_def)
  note ran = car_runs_the_files [OF args main shown, where strerror = "\<lambda>code. []" and t = drive,
      unfolded two_documents_fit option.case prod.case Let_def said]
  show ?thesis
    by (rule ran)
qed

end
