(* ===== verification/FileDrawing.thy ===== *)
theory FileDrawing
  imports FileProgram
begin

text \<open>
  What \<open>--export\<close> draws, from the machine file alone: the states in the order of the file, under
  each the triggers in the order of their declaration, under each the alternatives listed there.
  The identifiers of a model are dense and its maps are ordered by them, so that the loops of
  the renderer walk the names of the file in that order.
\<close>

section \<open>The drawing of a file\<close>

definition file_lines :: "machine_spec \<Rightarrow> drawn_line list" where
  "file_lines spec =
     concat (map (\<lambda>s. concat (map (\<lambda>t.
         map (\<lambda>alt. (cstr s, cstr (as_target alt), cstr t, guard_spec (as_when alt), 1 < length (listed_at spec s t)))
           (listed_at spec s t))
         (map fst (ms_triggers spec))))
       (map ss_name (ms_states spec)))"

definition file_label :: "machine_spec \<Rightarrow> string" where
  "file_label spec = (if label_of spec = [] then ''machine'' else label_of spec)"

text \<open>The text of the drawing in either format.\<close>

definition file_drawing :: "format \<Rightarrow> setup_spec \<Rightarrow> machine_spec \<Rightarrow> string" where
  "file_drawing format su spec =
     (let initial = escape format (cstr (su_initial su)); edges = concat (map (line_text format) (file_lines spec))
      in if format = Mermaid then
           ''stateDiagram-v2'' @ [newline] @ ''    [*] --> '' @ initial @ [newline] @ edges
         else
           ''digraph '' @ [dquote] @ escape Dot (file_label spec) @ [dquote] @ style_text @
           ''  __start [shape=point, width=0.12, label='' @ [dquote, dquote] @ ''];'' @ [newline] @
           ''  __start -> '' @ [dquote] @ initial @ [dquote] @ '';'' @ [newline] @
           edges @ ''}'' @ [newline])"

section \<open>The tables in the order of the names\<close>

lemma concat_map_filter: "(\<And>x. x \<in> set xs \<Longrightarrow> \<not> P x \<Longrightarrow> f x = []) \<Longrightarrow> concat (map f (filter P xs)) = concat (map f xs)"
  by (induction xs) auto

lemma state_ids:
  assumes "model_ok m"
  shows "map fst (states m) = map (find_state m) (state_names m)"
proof -
  have "find_state m (node_name (snd e)) = fst e" if "e \<in> set (states m)" for e
  proof -
    have "model_state m (fst e) = Some (snd e)"
      using that model_okD(1) [OF assms] by (simp add: model_state_def tables_ok_def dense_fm_ok fm_find_iff)
    then have "has_state m (fst e)" "state_name m (fst e) = node_name (snd e)"
      by (simp_all add: has_state_def model_state_def state_name_def)
    with named_state(1) [OF assms, of "fst e"] show ?thesis
      by simp
  qed
  then show ?thesis
    by (simp add: state_names_def)
qed

lemma trigger_ids:
  assumes "model_ok m"
  shows "map fst (triggers m) = map (\<lambda>nc. find_trigger m (fst nc)) (trigger_names m)"
  using trigger_named(1) [OF assms] by (simp add: trigger_names_def)

text \<open>The triggers listed in a state are those with a behaviour there, in the order of the table.\<close>

lemma listed_triggers:
  assumes "model_ok m" and "model_state m i = Some n"
  shows "map fst (transitions n) = filter (\<lambda>t. behaviour m i t \<noteq> []) (map fst (triggers m))"
proof (rule sorted_distinct_set_unique)
  have node: "node_ok m n"
    using model_okD(3) [OF assms(1)] assms(2) by (simp add: model_state_def)
  have "fm_ok (triggers m)" "fm_ok (transitions n)"
    using node model_okD(1) [OF assms(1)] by (simp_all add: tables_ok_def dense_fm_ok node_ok_def)
  then have "sorted_wrt (<) (map fst (transitions n))"
    "sorted_wrt (<) (filter (\<lambda>t. behaviour m i t \<noteq> []) (map fst (triggers m)))"
    by (simp_all only: fm_ok_def sorted_wrt_filter)
  then show "sorted (map fst (transitions n))" "distinct (map fst (transitions n))"
    "sorted (filter (\<lambda>t. behaviour m i t \<noteq> []) (map fst (triggers m)))"
    "distinct (filter (\<lambda>t. behaviour m i t \<noteq> []) (map fst (triggers m)))"
    by (simp_all only: strict_sorted_iff)
  have "behaviour m i t \<noteq> [] \<longleftrightarrow> t \<in> fst ` set (transitions n)" for t
    using alternatives_of_ok(3) [OF assms(1), of i n t] assms(2) fm_find_None_iff [of "transitions n" t]
    by (auto simp: behaviour_def alternatives_of_def model_state_def)
  moreover have "t \<in> fst ` set (triggers m)" if "t \<in> fst ` set (transitions n)" for t
  proof -
    from that obtain alts where "fm_find (transitions n) t = Some alts"
      using fm_find_None_iff [of "transitions n" t] by (cases "fm_find (transitions n) t") simp_all
    with node have "fm_find (triggers m) t \<noteq> None"
      unfolding node_ok_def by blast
    then show ?thesis
      by (simp add: fm_find_None_iff)
  qed
  ultimately show "set (map fst (transitions n)) = set (filter (\<lambda>t. behaviour m i t \<noteq> []) (map fst (triggers m)))"
    by auto
qed

text \<open>The edges of the model are those of the file.\<close>

lemma drawn_file_lines:
  assumes "of_file spec m"
  shows "drawn_lines m = file_lines spec"
proof -
  note facts = of_fileD [OF assms]
  define drawn where "drawn = (\<lambda>i t. map (\<lambda>(g, target). (cstr (state_name m i), cstr (state_name m target),
      cstr (trigger_name m t), g, 1 < length (behaviour m i t))) (behaviour m i t))"
  have edges: "drawn (find_state m s) (find_trigger m t) = map (\<lambda>alt. (cstr s, cstr (as_target alt), cstr t,
        guard_spec (as_when alt), 1 < length (listed_at spec s t))) (listed_at spec s t)"
    if st: "s \<in> set (state_names m)" "t \<in> fst ` set (trigger_names m)" for s t
  proof -
    from st(2) obtain e where e: "e \<in> set (triggers m)" "td_name (snd e) = t"
      by (auto simp: trigger_names_def)
    with trigger_named [OF facts(1)] have t: "trigger_name m (find_trigger m t) = t"
      by metis
    have target: "state_name m (find_state m (as_target alt)) = as_target alt" if "alt \<in> set (listed_at spec s t)" for alt
      using that facts(4) state_of_name(2) [OF facts(1), of "as_target alt"] facts(2)
      by (auto simp: listed_at_def list_all_iff link_known_def)
    have "behaviour m (find_state m s) (find_trigger m t) =
        map (\<lambda>alt. (guard_spec (as_when alt), find_state m (as_target alt))) (listed_at spec s t)"
      using assms st facts(2,3) by (simp add: of_file_def linked_def listed_at_def comp_def image_image)
    with t target state_of_name(2) [OF facts(1) st(1)] show ?thesis
      by (simp add: drawn_def comp_def)
  qed
  have row: "concat (map (drawn (find_state m s)) (map fst (transitions (the (model_state m (find_state m s)))))) =
      concat (map (\<lambda>nc. drawn (find_state m s) (find_trigger m (fst nc))) (trigger_names m))"
    if s: "s \<in> set (state_names m)" for s
  proof -
    obtain n where n: "model_state m (find_state m s) = Some n"
      using state_of_name(1) [OF facts(1) s] by (auto simp: has_state_def model_state_def)
    have "concat (map (drawn (find_state m s)) (map fst (transitions n))) =
        concat (map (drawn (find_state m s)) (map fst (triggers m)))"
      unfolding listed_triggers [OF facts(1) n] by (rule concat_map_filter) (simp add: drawn_def)
    then show ?thesis
      unfolding trigger_ids [OF facts(1)] by (simp add: n comp_def)
  qed
  have "drawn_lines m = concat (map (\<lambda>s. concat (map (\<lambda>nc. drawn (find_state m s) (find_trigger m (fst nc)))
      (trigger_names m))) (state_names m))"
    unfolding drawn_lines_def drawn_def [symmetric, THEN fun_cong, THEN fun_cong] state_ids [OF facts(1)] map_map
    by (rule arg_cong [of _ _ concat], rule map_cong [OF refl]) (simp add: row [unfolded map_map])
  also have "\<dots> = concat (map (\<lambda>s. concat (map (\<lambda>nc. map (\<lambda>alt. (cstr s, cstr (as_target alt), cstr (fst nc),
      guard_spec (as_when alt), 1 < length (listed_at spec s (fst nc)))) (listed_at spec s (fst nc)))
      (trigger_names m))) (state_names m))"
    using edges by (intro arg_cong [of _ _ concat] map_cong refl) simp_all
  also have "\<dots> = file_lines spec"
    by (simp add: file_lines_def facts(2,3) comp_def)
  finally show ?thesis .
qed

section \<open>The export of the program\<close>

text \<open>What is written to the standard output.\<close>

definition stdout_text :: "printed list \<Rightarrow> string" where
  "stdout_text out = concat (map (\<lambda>p. case p of Stdout t \<Rightarrow> t | Stderr t \<Rightarrow> []) out)"

lemma fold_write_fragment: "stdout_text (fold write_fragment fragments out) = stdout_text out @ concat fragments"
  by (induction fragments arbitrary: out) (simp_all add: write_fragment_def stdout_text_def)

lemma exported_text:
  assumes "model_ok m"
  shows "stdout_text (snd (render m initial f (Some write_fragment) [])) = diagram_text f m initial"
proof -
  have "wrote write_fragment [] (diagram_text f m initial) (snd (render m initial f (Some write_fragment) []))
      (snd (render m initial f (Some collect) []))"
    by (rule wrote_diagram [OF assms])
  then show ?thesis
    by (simp add: wrote_def fold_write_fragment) (simp add: stdout_text_def)
qed

lemma outcome_mono:
  assumes "case x of None \<Rightarrow> False | Some (a, b, c) \<Rightarrow> P a b c" and "\<And>a b c. P a b c \<Longrightarrow> Q a b c"
  shows "case x of None \<Rightarrow> False | Some (a, b, c) \<Rightarrow> Q a b c"
  using assms by (cases x) auto

text \<open>C9: \<open>--export\<close> on any two files exits with 1 if they cannot be read, are not well formed or
  do not fit each other. Otherwise it exits with 0, and what it prints on the standard output is
  the drawing of the machine file in the format asked for: the initial state of the setup file
  and one line for each alternative the file lists, in the order of the file, from its state to
  its target, labelled with its trigger and its guard. A drawing in Dot reads back as these
  edges.\<close>

theorem car_exports_the_file:
  assumes "read_options version args default_options = Inr opts" and "export_diagram opts"
    and "two_shown ops files opts sdoc mdoc"
  shows "case car_main version ops files strerror fuel args t of
      None \<Rightarrow> False
    | Some (code, out, ended) \<Rightarrow> ended = None \<and>
        (case files_of sdoc mdoc of
           None \<Rightarrow> code = 1
         | Some (su, spec) \<Rightarrow> code = 0 \<and> stdout_text out = file_drawing (export_format opts) su spec \<and>
             read_dot (file_drawing Dot su spec) =
               Some (file_label spec, Some (cstr (su_initial su)), map labelled (file_lines spec)))"
proof (cases "files_of sdoc mdoc")
  case None
  from car_main_refused [OF assms(1,3) None] obtain out where
    "car_main version ops files strerror fuel args t = Some (1, out, None)"
    by blast
  with None show ?thesis
    by simp
next
  case (Some both)
  then obtain su spec where both: "files_of sdoc mdoc = Some (su, spec)"
    by (cases both) simp
  obtain m sm where fits: "car_setup ops files strerror opts = Inr (setup_of_spec su, m, sm)" "of_file spec m"
      and initial: "has_state m (sm_initial sm)" "state_name m (sm_initial sm) = su_initial su"
    by (rule files_started [OF assms(3) both])
  note facts = of_fileD [OF fits(2)]
  have start: "sm_initial sm \<noteq> kNoState"
    using initial(1) no_such_state [OF model_okD(1) [OF facts(1)]] by auto
  have label: "mdl_name m = label_of spec"
    using fits(2) by (simp add: of_file_def)
  have drawing: "diagram_text f m (sm_initial sm) = file_drawing f su spec" for f
    using start initial by (cases f) (simp_all add: diagram_text_def file_drawing_def start_text_def
        edges_text_lines [OF facts(1)] drawn_file_lines [OF fits(2)] label file_label_def Let_def)
  have "read_dot (file_drawing Dot su spec) = Some (drawn_name m, drawn_initial m (sm_initial sm), drawn_edges m)"
    unfolding drawing [symmetric] by (rule read_dot_text [OF facts(1)])
  then have "read_dot (file_drawing Dot su spec) =
      Some (file_label spec, Some (cstr (su_initial su)), map labelled (file_lines spec))"
    using start initial
    by (simp add: drawn_name_def drawn_initial_def drawn_edges_def drawn_file_lines [OF fits(2)] label file_label_def)
  with both assms(1,2) fits(1) exported_text [OF facts(1)] drawing show ?thesis
    by (simp add: car_main_def)
qed

theorem car_exports_the_file_witness:
  "case car_main ''0.1.0'' two_documents two_files (\<lambda>code. []) 0 [''--export'', ''dot''] [] of
     None \<Rightarrow> False
   | Some (code, out, ended) \<Rightarrow> code = 0 \<and> ended = None \<and>
       read_dot (stdout_text out) = Some (''demo'', Some ''idle'',
         [(''idle'', ''running'', ''go'' @ newline # ''[pedal > 5 and mode != eco]''),
          (''idle'', ''idle'', ''go'' @ newline # ''[otherwise]''),
          (''running'', ''idle'', ''go'' @ newline # ''[pedal == 0]''),
          (''running'', ''stuck'', ''halt'')])"
proof -
  let ?opts = "default_options\<lparr>export_diagram := True, export_format := Dot\<rparr>"
  have args: "read_options ''0.1.0'' [''--export'', ''dot''] default_options = Inr ?opts"
    by code_simp
  have shown: "two_shown two_documents two_files ?opts (Some (setup_doc car_spec)) (Some (machine_doc file_spec))"
    by (rule two_documents_shown) (simp_all add: default_options_def)
  have edges: "(file_label file_spec, Some (cstr (su_initial car_spec)), map labelled (file_lines file_spec)) = (''demo'', Some ''idle'',
      [(''idle'', ''running'', ''go'' @ newline # ''[pedal > 5 and mode != eco]''),
       (''idle'', ''idle'', ''go'' @ newline # ''[otherwise]''),
       (''running'', ''idle'', ''go'' @ newline # ''[pedal == 0]''),
       (''running'', ''stuck'', ''halt'')])"
    by code_simp
  have export: "export_diagram ?opts" "export_format ?opts = Dot"
    by simp_all
  note drawn = car_exports_the_file [OF args export(1) shown, where strerror = "\<lambda>code. []" and fuel = 0 and t = "[]",
      unfolded two_documents_fit export(2) edges option.case prod.case]
  show ?thesis
    by (rule outcome_mono [OF drawn]) auto
qed

end
