(* ===== verification/FileLint.thy ===== *)
theory FileLint
  imports FileProgram
begin

text \<open>
  What \<open>--check\<close> and \<open>--lint\<close> say, from the machine file alone: the errors of the linter are the
  states of the file no path of listed alternatives leads to, the guards no arguments satisfy and
  the alternatives behind one that asks for nothing more. A report is cut at its capacity, which
  the program says, and an error in it is never a false one.
\<close>

section \<open>A model without errors\<close>

text \<open>What is wrong with the alternative at a position: no arguments satisfy its guard, or an
  earlier one asks for no condition that it does not ask for too.\<close>

definition flawed_at :: "condition list list \<Rightarrow> nat \<Rightarrow> bool" where
  "flawed_at gs i \<longleftrightarrow> \<not> (\<exists>a. args_wf a \<and> guard_holds a (gs ! i)) \<or> (\<exists>j < i. set (gs ! j) \<subseteq> set (gs ! i))"

lemma args_wf_args_none: "args_wf args_none"
  by (simp add: args_wf_def args_none_def)

lemma same_condition_wf: "condition_wf c \<Longrightarrow> condition_wf d \<Longrightarrow> same_condition c d \<longleftrightarrow> c = d"
  by (cases c; cases d) (auto simp: same_condition_def condition_wf_def split: if_splits)

lemma guard_of_wf: "list_all condition_wf (conditions m) \<Longrightarrow> c \<in> set (guard_of m alt) \<Longrightarrow> condition_wf c"
  by (auto simp: guard_of_def list_all_iff dest!: in_set_takeD in_set_dropD)

lemma implies_subset:
  assumes "alternative_ok m earlier" and "alternative_ok m later" and "list_all condition_wf (conditions m)"
  shows "implies m earlier later \<longleftrightarrow> set (guard_of m earlier) \<subseteq> set (guard_of m later)"
proof -
  have has: "has_same (conditions m) later c \<longleftrightarrow> c \<in> set (guard_of m later)" if "condition_wf c" for c
  proof -
    have "has_same (conditions m) later c \<longleftrightarrow> (\<exists>j < length (guard_of m later). same_condition c (guard_of m later ! j))"
      using guard_of_nth [OF assms(2)] assms(2)
      by (auto simp: has_same_def list_ex_iff Let_def alternative_ok_def)
    also have "\<dots> \<longleftrightarrow> c \<in> set (guard_of m later)"
      using same_condition_wf [OF that] guard_of_wf [OF assms(3)] by (metis in_set_conv_nth)
    finally show ?thesis .
  qed
  have "implies m earlier later \<longleftrightarrow> (\<forall>i < length (guard_of m earlier). has_same (conditions m) later (guard_of m earlier ! i))"
    using guard_of_nth [OF assms(1)] assms(1)
    by (auto simp: implies_def list_all_iff Let_def alternative_ok_def)
  also have "\<dots> \<longleftrightarrow> set (guard_of m earlier) \<subseteq> set (guard_of m later)"
    using has guard_of_wf [OF assms(3)] by (metis in_set_conv_nth subset_code(1))
  finally show ?thesis .
qed

lemma verdict_flawed:
  assumes "list_all (alternative_ok m) alts" and "list_all condition_wf (conditions m)" and "i < length alts"
  shows "verdict m alts i \<noteq> None \<longleftrightarrow> flawed_at (map (guard_of m) alts) i"
proof -
  have ok: "alternative_ok m (alts ! j)" if "j \<le> i" for j
    using assms(1,3) that by (simp add: list_all_length)
  have unguarded: "condition_count (alts ! j) = 0 \<longleftrightarrow> guard_of m (alts ! j) = []" if "j \<le> i" for j
    using guard_of_nth(1) [OF ok [OF that]] by (metis length_0_conv unat_eq_zero)
  have fallback: "fallback_before alts i \<noteq> None \<longleftrightarrow> (\<exists>j < i. guard_of m (alts ! j) = [])"
    using unguarded by (auto simp: fallback_before_def first_match_None_iff)
  have implying: "first_implying m alts i \<noteq> None \<longleftrightarrow> (\<exists>j < i. set (guard_of m (alts ! j)) \<subseteq> set (guard_of m (alts ! i)))"
    using implies_subset [OF ok ok assms(2)] by (auto simp: first_implying_def first_match_None_iff)
  have impossible: "guard_impossible m (alts ! i) \<longleftrightarrow> \<not> (\<exists>a. args_wf a \<and> guard_holds a (guard_of m (alts ! i)))"
    by (rule guard_impossible_exact(1) [OF ok [OF order_refl] assms(2)])
  have "\<not> guard_impossible m (alts ! i)" if "condition_count (alts ! i) = 0"
    using that unguarded_holds impossible by (metis args_wf_args_none)
  moreover have "guard_of m (alts ! i) = [] \<Longrightarrow> j < i \<Longrightarrow> set (guard_of m (alts ! j)) \<subseteq> set (guard_of m (alts ! i)) \<Longrightarrow>
      guard_of m (alts ! j) = []" for j
    by simp
  ultimately show ?thesis
    using fallback implying impossible unguarded [OF order_refl] assms(3)
    by (auto simp: verdict_def flawed_at_def split: option.splits)
qed

definition model_clean :: "model \<Rightarrow> state_id \<Rightarrow> bool" where
  "model_clean m initial \<longleftrightarrow> reachable_states m initial \<and>
     (\<forall>s t i. i < length (behaviour m s t) \<longrightarrow> \<not> flawed_at (map fst (behaviour m s t)) i)"

lemma errors_found:
  assumes "model_ok m" and "list_all condition_wf (conditions m)" and "has_state m initial"
  shows "has_errors (all_found m initial) \<longleftrightarrow> \<not> model_clean m initial"
proof -
  have "has_errors (all_found m initial) \<longleftrightarrow> unreachable_found m initial \<noteq> [] \<or> guards_found m \<noteq> []"
  proof -
    let ?error = "\<lambda>f. severity_of (f_check f) = Error"
    have some: "list_ex ?error fs \<longleftrightarrow> fs \<noteq> []" if "\<forall>f \<in> set fs. ?error f" for fs
      using that by (cases fs) auto
    have none: "\<not> list_ex ?error fs" if "\<forall>f \<in> set fs. \<not> ?error f" for fs
      using that by (simp add: list_ex_iff)
    have "list_ex ?error (unreachable_found m initial) \<longleftrightarrow> unreachable_found m initial \<noteq> []"
      using finding_kinds(1) [OF assms(1)] by (intro some) auto
    moreover have "list_ex ?error (guards_found m) \<longleftrightarrow> guards_found m \<noteq> []"
      using finding_kinds(4) [OF assms(1)] by (intro some) fastforce
    moreover have "\<not> list_ex ?error (dead_end_found m)" "\<not> list_ex ?error (unused_found m)"
      using finding_kinds(2,3) [OF assms(1)] by (auto intro!: none)
    ultimately show ?thesis
      by (auto simp: has_errors_def all_found_def)
  qed
  also have "unreachable_found m initial \<noteq> [] \<longleftrightarrow> \<not> reachable_states m initial"
    using unreachable_found_iff [OF assms(1,3)] unfolding reachable_states_def by (metis list.set_intros(1) neq_Nil_conv empty_iff empty_set)
  also have "guards_found m \<noteq> [] \<longleftrightarrow> (\<exists>s t i. i < length (alternatives_of m s t) \<and> verdict m (alternatives_of m s t) i \<noteq> None)"
    using guards_found_iff [OF assms(1)] by (metis (no_types, lifting) list.set_intros(1) neq_Nil_conv empty_iff empty_set not_None_eq surj_pair)
  also have "\<dots> \<longleftrightarrow> (\<exists>s t i. i < length (behaviour m s t) \<and> flawed_at (map fst (behaviour m s t)) i)"
    using verdict_flawed [OF alternatives_of_ok(1) [OF assms(1)] assms(2)] by (simp add: behaviour_def comp_def cong: conj_cong)
  finally show ?thesis
    by (auto simp: model_clean_def)
qed

section \<open>A file without errors\<close>

definition file_edge :: "machine_spec \<Rightarrow> string \<Rightarrow> string \<Rightarrow> bool" where
  "file_edge spec s s' \<longleftrightarrow> (\<exists>t. \<exists>alt \<in> set (listed_at spec s t). as_target alt = s')"

definition file_clean :: "setup_spec \<Rightarrow> machine_spec \<Rightarrow> bool" where
  "file_clean su spec \<longleftrightarrow>
     (\<forall>s \<in> set (map ss_name (ms_states spec)). (file_edge spec)\<^sup>*\<^sup>* (su_initial su) s) \<and>
     (\<forall>s t. \<forall>i < length (listed_at spec s t).
        \<not> flawed_at (map (\<lambda>alt. guard_spec (as_when alt)) (listed_at spec s t)) i)"

lemma listed_known:
  assumes "of_file spec m" and "alt \<in> set (listed_at spec s t)"
  shows "s \<in> set (map ss_name (ms_states spec))" "t \<in> set (map fst (ms_triggers spec))"
    "as_target alt \<in> set (map ss_name (ms_states spec))"
  using assms(2) of_fileD(4) [OF assms(1)] by (auto simp: listed_at_def at_def list_all_iff link_known_def)

lemma behaviour_listed:
  assumes "of_file spec m" and "s \<in> set (map ss_name (ms_states spec))" and "t \<in> set (map fst (ms_triggers spec))"
  shows "behaviour m (find_state m s) (find_trigger m t) =
    map (\<lambda>alt. (guard_spec (as_when alt), find_state m (as_target alt))) (listed_at spec s t)"
  using assms by (simp add: of_file_def linked_def listed_at_def comp_def)

lemma behaviour_named:
  assumes "of_file spec m" and "behaviour m u v \<noteq> []"
  obtains s t where "s \<in> set (map ss_name (ms_states spec))" "t \<in> set (map fst (ms_triggers spec))"
    "u = find_state m s" "v = find_trigger m t"
proof -
  note facts = of_fileD [OF assms(1)]
  from assms(2) obtain n alts where n: "fm_find (states m) u = Some n" "fm_find (transitions n) v = Some alts"
    by (auto simp: behaviour_def alternatives_of_def split: option.splits)
  from n(1) have here: "has_state m u"
    by (simp add: has_state_def)
  have "node_ok m n"
    using model_okD(3) [OF facts(1)] n(1) by simp
  with n(2) have "fm_find (triggers m) v \<noteq> None"
    unfolding node_ok_def by blast
  then obtain t where "t \<in> fst ` set (trigger_names m)" "find_trigger m t = v"
    by (rule known_trigger [OF facts(1)])
  with named_state [OF facts(1) here] facts(2,3) that [of "state_name m u" t] show thesis
    by (auto simp: image_image)
qed

lemma edge_file:
  assumes "of_file spec m" and "s \<in> set (map ss_name (ms_states spec))"
  shows "edge m (find_state m s) j \<longleftrightarrow> (\<exists>s'. file_edge spec s s' \<and> j = find_state m s')"
proof
  assume "edge m (find_state m s) j"
  then obtain v g where g: "(g, j) \<in> set (behaviour m (find_state m s) v)"
    by (auto simp: edge_behaviour)
  then have "behaviour m (find_state m s) v \<noteq> []"
    by auto
  then obtain s1 t where "t \<in> set (map fst (ms_triggers spec))" "v = find_trigger m t"
    by (rule behaviour_named [OF assms(1)])
  with g behaviour_listed [OF assms, of t] show "\<exists>s'. file_edge spec s s' \<and> j = find_state m s'"
    by (auto simp: file_edge_def)
next
  assume "\<exists>s'. file_edge spec s s' \<and> j = find_state m s'"
  then obtain t alt where alt: "alt \<in> set (listed_at spec s t)" "j = find_state m (as_target alt)"
    by (auto simp: file_edge_def)
  with behaviour_listed [OF assms listed_known(2) [OF assms(1) alt(1)]]
  have "(guard_spec (as_when alt), j) \<in> set (behaviour m (find_state m s) (find_trigger m t))"
    by simp
  then show "edge m (find_state m s) j"
    by (auto simp only: edge_behaviour)
qed

lemma edge_known:
  "of_file spec m \<Longrightarrow> file_edge spec s s' \<Longrightarrow> s' \<in> set (map ss_name (ms_states spec))"
  using listed_known(3) by (auto simp: file_edge_def)

lemma paths_file:
  assumes "of_file spec m" and "s \<in> set (map ss_name (ms_states spec))"
  shows "(edge m)\<^sup>*\<^sup>* (find_state m s) j \<longleftrightarrow> (\<exists>s'. (file_edge spec)\<^sup>*\<^sup>* s s' \<and> j = find_state m s')"
proof
  assume "(edge m)\<^sup>*\<^sup>* (find_state m s) j"
  then have "\<exists>s'. (file_edge spec)\<^sup>*\<^sup>* s s' \<and> s' \<in> set (map ss_name (ms_states spec)) \<and> j = find_state m s'"
  proof (induction rule: rtranclp_induct)
    case base
    show ?case using assms(2) by blast
  next
    case (step i j)
    then obtain s1 where s1: "(file_edge spec)\<^sup>*\<^sup>* s s1" "s1 \<in> set (map ss_name (ms_states spec))" "edge m (find_state m s1) j"
      by blast
    then obtain s2 where s2: "file_edge spec s1 s2" "j = find_state m s2"
      using edge_file [OF assms(1)] by blast
    from rtranclp.rtrancl_into_rtrancl [OF s1(1) s2(1)] edge_known [OF assms(1) s2(1)] s2(2) show ?case
      by blast
  qed
  then show "\<exists>s'. (file_edge spec)\<^sup>*\<^sup>* s s' \<and> j = find_state m s'"
    by blast
next
  assume "\<exists>s'. (file_edge spec)\<^sup>*\<^sup>* s s' \<and> j = find_state m s'"
  then obtain s' where s': "(file_edge spec)\<^sup>*\<^sup>* s s'" "j = find_state m s'"
    by blast
  from s'(1) have "(edge m)\<^sup>*\<^sup>* (find_state m s) (find_state m s') \<and> s' \<in> set (map ss_name (ms_states spec))"
  proof (induction rule: rtranclp_induct)
    case base
    show ?case using assms(2) by simp
  next
    case (step s1 s2)
    then have s1: "(edge m)\<^sup>*\<^sup>* (find_state m s) (find_state m s1)" "s1 \<in> set (map ss_name (ms_states spec))"
      by blast+
    have "edge m (find_state m s1) (find_state m s2)"
      using edge_file [OF assms(1) s1(2)] step(2) by blast
    from rtranclp.rtrancl_into_rtrancl [OF s1(1) this] edge_known [OF assms(1) step(2)] show ?case
      by blast
  qed
  with s'(2) show "(edge m)\<^sup>*\<^sup>* (find_state m s) j"
    by simp
qed

lemma reachable_file:
  assumes "of_file spec m" and "s0 \<in> set (map ss_name (ms_states spec))"
  shows "reachable_states m (find_state m s0) \<longleftrightarrow>
    (\<forall>s \<in> set (map ss_name (ms_states spec)). (file_edge spec)\<^sup>*\<^sup>* s0 s)"
proof -
  note facts = of_fileD [OF assms(1)]
  have known: "s \<in> set (state_names m) \<longleftrightarrow> s \<in> set (map ss_name (ms_states spec))" for s
    by (simp add: facts(2))
  have path: "(edge m)\<^sup>*\<^sup>* (find_state m s0) (find_state m s) \<longleftrightarrow> (file_edge spec)\<^sup>*\<^sup>* s0 s"
    if s: "s \<in> set (map ss_name (ms_states spec))" for s
  proof
    assume "(edge m)\<^sup>*\<^sup>* (find_state m s0) (find_state m s)"
    then obtain s' where s': "(file_edge spec)\<^sup>*\<^sup>* s0 s'" "find_state m s = find_state m s'"
      using paths_file [OF assms] by blast
    then have "s' \<in> set (map ss_name (ms_states spec))"
      using assms(2) edge_known [OF assms(1)] by (metis rtranclp.cases)
    with s s'(2) state_of_name(2) [OF facts(1)] known have "s = s'"
      by metis
    with s'(1) show "(file_edge spec)\<^sup>*\<^sup>* s0 s" by simp
  qed (use paths_file [OF assms] in blast)
  show ?thesis
    unfolding reachable_states_def using path named_state [OF facts(1)] state_of_name(1) [OF facts(1)] known by metis
qed

lemma clean_file:
  assumes "of_file spec m" and "su_initial su \<in> set (map ss_name (ms_states spec))"
  shows "model_clean m (find_state m (su_initial su)) \<longleftrightarrow> file_clean su spec"
proof -
  have guards: "map fst (behaviour m (find_state m s) (find_trigger m t)) =
      map (\<lambda>alt. guard_spec (as_when alt)) (listed_at spec s t)"
    if "s \<in> set (map ss_name (ms_states spec))" "t \<in> set (map fst (ms_triggers spec))" for s t
    using behaviour_listed [OF assms(1) that] by (simp add: comp_def)
  have "(\<exists>u v i. i < length (behaviour m u v) \<and> flawed_at (map fst (behaviour m u v)) i) \<longleftrightarrow>
      (\<exists>s t i. i < length (listed_at spec s t) \<and> flawed_at (map (\<lambda>alt. guard_spec (as_when alt)) (listed_at spec s t)) i)"
  proof
    assume "\<exists>u v i. i < length (behaviour m u v) \<and> flawed_at (map fst (behaviour m u v)) i"
    then obtain u v i where i: "i < length (behaviour m u v)" "flawed_at (map fst (behaviour m u v)) i"
      by blast
    then have "behaviour m u v \<noteq> []"
      by auto
    then obtain s t where st: "s \<in> set (map ss_name (ms_states spec))" "t \<in> set (map fst (ms_triggers spec))"
        "u = find_state m s" "v = find_trigger m t"
      by (rule behaviour_named [OF assms(1)])
    with i guards [OF st(1,2)] show "\<exists>s t i. i < length (listed_at spec s t) \<and>
        flawed_at (map (\<lambda>alt. guard_spec (as_when alt)) (listed_at spec s t)) i"
      by (metis length_map)
  next
    assume "\<exists>s t i. i < length (listed_at spec s t) \<and> flawed_at (map (\<lambda>alt. guard_spec (as_when alt)) (listed_at spec s t)) i"
    then obtain s t i where i: "i < length (listed_at spec s t)"
        "flawed_at (map (\<lambda>alt. guard_spec (as_when alt)) (listed_at spec s t)) i"
      by blast
    then have "listed_at spec s t ! i \<in> set (listed_at spec s t)"
      by simp
    from listed_known(1,2) [OF assms(1) this] i guards [of s t]
    show "\<exists>u v i. i < length (behaviour m u v) \<and> flawed_at (map fst (behaviour m u v)) i"
      by (metis length_map)
  qed
  then show ?thesis
    unfolding model_clean_def file_clean_def reachable_file [OF assms] by blast
qed

section \<open>The check of the program\<close>

definition report_full_line :: printed where
  "report_full_line = Stdout (''  ... report full; raise FMS_MAX_FINDINGS to see the rest'' @ [newline])"

lemma report_lint_clean:
  assumes "model_ok m" and "list_all condition_wf (conditions m)" and "has_state m initial"
  shows "fst (car_report_lint m initial) \<Longrightarrow> model_clean m initial \<or> report_full_line \<in> set (snd (car_report_lint m initial))"
    and "\<not> fst (car_report_lint m initial) \<Longrightarrow> \<not> model_clean m initial"
proof -
  let ?all = "all_found m initial"
  note found = analyse_found [OF assms(1), of "[]" initial, simplified]
  show "model_clean m initial \<or> report_full_line \<in> set (snd (car_report_lint m initial))"
    if passed: "fst (car_report_lint m initial)"
  proof (cases "length ?all \<le> kMaxFindings")
    case True
    with passed have "\<not> has_errors ?all"
      by (auto simp: car_report_lint_def found has_errors_def split: if_splits)
    then show ?thesis
      using errors_found [OF assms] by blast
  next
    case False
    then have "take kMaxFindings ?all \<noteq> []"
      by (auto simp: kMaxFindings_def)
    with False show ?thesis
      by (simp add: car_report_lint_def found report_full_line_def)
  qed
  show "\<not> model_clean m initial" if "\<not> fst (car_report_lint m initial)"
  proof -
    have "has_errors (take kMaxFindings ?all)"
      using that by (auto simp: car_report_lint_def found split: if_splits)
    then have "has_errors ?all"
      by (auto simp: has_errors_def list_ex_iff dest: in_set_takeD)
    then show ?thesis
      using errors_found [OF assms] by blast
  qed
qed



end
