(* ===== verification/RepeatedTriggers.thy ===== *)
theory RepeatedTriggers
  imports MachineFiles "HOL-Library.Multiset"
begin

text \<open>
  Files in which a state lists a trigger more than once. docs/schema.md takes from YAML that
  there are none. The loader (src/config/yaml_loader.cpp) does not look: it walks the entries of
  \<open>transitions\<close> as the YAML library shows them, and an entry for a trigger that was listed
  before appends its alternatives to those already there.
\<close>

section \<open>The schema and the loader\<close>

text \<open>\<open>schema_ok\<close> is what the schema asks of a file, \<open>gathered\<close> the file with the entries of each
  trigger in one list; the loader accepts a file exactly if its gathered form follows the schema.\<close>

definition listed_once :: "machine_spec \<Rightarrow> bool" where
  "listed_once spec \<longleftrightarrow> list_all (\<lambda>s. distinct (map fst (transitions_of s))) (ms_states spec)"

definition schema_ok :: "machine_spec \<Rightarrow> bool" where
  "schema_ok spec \<longleftrightarrow> machine_file_ok spec \<and> listed_once spec"

text \<open>An entry without alternatives leaves the trigger without any.\<close>

definition gather_outcomes :: "outcome_spec list \<Rightarrow> outcome_spec" where
  "gather_outcomes outcomes =
     (let alts = map alternatives_spec outcomes in Alternatives (if [] \<in> set alts then [] else concat alts))"

definition gather :: "(string \<times> outcome_spec) list \<Rightarrow> (string \<times> outcome_spec) list" where
  "gather trs = map (\<lambda>t. (t, gather_outcomes (map snd (filter (\<lambda>tr. fst tr = t) trs)))) (remdups (map fst trs))"

definition gathered :: "machine_spec \<Rightarrow> machine_spec" where
  "gathered spec = spec\<lparr>ms_states :=
     map (\<lambda>s. s\<lparr>ss_transitions := map_option gather (ss_transitions s)\<rparr>) (ms_states spec)\<rparr>"

lemma transitions_gathered:
  "transitions_of (s\<lparr>ss_transitions := map_option gather (ss_transitions s)\<rparr>) = gather (transitions_of s)"
  by (simp add: transitions_of_def gather_def split: option.split)

lemma listed_once_gathered: "listed_once (gathered spec)"
  by (auto simp: listed_once_def gathered_def transitions_gathered list_all_iff) (simp add: gather_def comp_def)

lemma gathered_names: "map ss_name (ms_states (gathered spec)) = map ss_name (ms_states spec)"
  by (simp add: gathered_def comp_def)

lemma gather_given:
  "list_all (\<lambda>tr. alternatives_spec (snd tr) \<noteq> []) (gather trs) \<longleftrightarrow> list_all (\<lambda>tr. alternatives_spec (snd tr) \<noteq> []) trs"
  by (force simp: list_all_iff gather_def gather_outcomes_def alternatives_spec_def [of "Alternatives _"] Let_def image_iff)

lemma gathered_given: "list_all outcomes_given (ms_states (gathered spec)) \<longleftrightarrow> list_all outcomes_given (ms_states spec)"
  by (simp add: gathered_def list.pred_map comp_def outcomes_given_def [abs_def] transitions_gathered gather_given)

text \<open>Gathering keeps what is listed for each trigger in each state, in order.\<close>

lemma filter_concat_key:
  "filter P (concat (map f xs)) = concat (map (\<lambda>x. filter P (f x)) xs)"
  by (simp add: filter_concat comp_def)

lemma concat_key:
  "distinct ks \<Longrightarrow> concat (map (\<lambda>k. if k = t then ys else []) ks) = (if t \<in> set ks then ys else [])"
  by (induction ks) auto

lemma links_gather:
  assumes "list_all (\<lambda>tr. alternatives_spec (snd tr) \<noteq> []) trs"
  shows "filter (at u t) (concat (map (outcome_links s) (gather trs))) = filter (at u t) (concat (map (outcome_links s) trs))"
proof -
  have outcome: "filter (at u t) (outcome_links s tr) = (if u = s \<and> fst tr = t then outcome_links s tr else [])" for tr
    by (auto simp: outcome_links_def at_def filter_empty_conv)
  let ?listed = "filter (\<lambda>tr. fst tr = t) trs"
  have "filter (at u t) (concat (map (outcome_links s) trs)) = (if u = s then concat (map (outcome_links s) ?listed) else [])"
    unfolding filter_concat_key outcome by (induction trs) auto
  moreover have "concat (map (outcome_links s) ?listed) =
      outcome_links s (t, gather_outcomes (map snd ?listed))"
  proof -
    have "[] \<notin> set (map alternatives_spec (map snd ?listed))"
      using assms by (auto simp: list_all_iff)
    then have "alternatives_spec (gather_outcomes (map snd ?listed)) = concat (map alternatives_spec (map snd ?listed))"
      by (auto simp: gather_outcomes_def alternatives_spec_def [of "Alternatives _"] Let_def)
    moreover have "concat (map (outcome_links s) ?listed) =
        map (\<lambda>a. (s, t, a)) (concat (map alternatives_spec (map snd ?listed)))"
      by (induction trs) (auto simp: outcome_links_def)
    ultimately show ?thesis
      by (simp add: outcome_links_def)
  qed
  moreover have "filter (at u t) (concat (map (outcome_links s) (gather trs))) =
      (if u = s then concat (map (\<lambda>k. if k = t then outcome_links s (t, gather_outcomes (map snd ?listed)) else [])
        (remdups (map fst trs))) else [])"
    unfolding filter_concat_key outcome gather_def by (auto simp: comp_def intro!: arg_cong [of _ _ concat])
  moreover have "outcome_links s (t, gather_outcomes (map snd ?listed)) = []" if "t \<notin> set (map fst trs)"
  proof -
    from that have "?listed = []" by (auto simp: filter_empty_conv)
    then show ?thesis by (simp add: outcome_links_def gather_outcomes_def alternatives_spec_def)
  qed
  ultimately show ?thesis
    by (auto simp: concat_key)
qed

lemma links_gathered:
  assumes "list_all outcomes_given (ms_states spec)"
  shows "filter (at u t) (links_of (gathered spec)) = filter (at u t) (links_of spec)"
proof -
  have "filter (at u t) (state_links (s\<lparr>ss_transitions := map_option gather (ss_transitions s)\<rparr>)) =
      filter (at u t) (state_links s)" if "s \<in> set (ms_states spec)" for s
    using that assms links_gather [of "transitions_of s"]
    by (simp add: state_links_def transitions_gathered list_all_iff outcomes_given_def)
  then show ?thesis
    by (auto simp: links_of_def gathered_def filter_concat_key comp_def intro!: arg_cong [of _ _ concat])
qed

text \<open>That is all the room for transitions depends on.\<close>

lemma links_ok_cong:
  assumes "\<And>u t. filter (at u t) links = filter (at u t) links'"
  shows "links_ok snames tnames links \<longleftrightarrow> links_ok snames tnames links'"
proof -
  have "filter ((=) l) ls = filter ((=) l) (filter (at (fst l) (fst (snd l))) ls)" for l and ls :: "link list"
    unfolding filter_filter by (rule filter_cong) (auto simp: at_def)
  with assms have "filter ((=) l) links = filter ((=) l) links'" for l
    by metis
  then have same: "mset links = mset links'"
    by (intro multiset_eqI) (simp add: count_mset count_list_eq_length_filter)
  then have sets: "set links = set links'"
    by (rule mset_eq_setD)
  then have "set (triggers_at s links) = set (triggers_at s links')" for s
    by (simp add: triggers_at_def)
  moreover have "conditions_in links = conditions_in links'"
    unfolding conditions_in_def sum_mset_sum_list [symmetric] by (simp only: mset_map same)
  ultimately show ?thesis
    using sets assms by (simp add: links_ok_def list_all_iff length_remdups_card_conv)
qed

lemma gathered_ok: "machine_file_ok spec \<longleftrightarrow> schema_ok (gathered spec)"
proof -
  have "states_ok (ms_states (gathered spec)) \<longleftrightarrow> states_ok (ms_states spec)"
    by (simp add: states_ok_def gathered_def comp_def list.pred_map)
  moreover have "links_ok snames tnames (links_of (gathered spec)) \<longleftrightarrow> links_ok snames tnames (links_of spec)"
    if "list_all outcomes_given (ms_states spec)" for snames tnames
    by (rule links_ok_cong) (rule links_gathered [OF that])
  moreover have "ms_name (gathered spec) = ms_name spec" "ms_triggers (gathered spec) = ms_triggers spec"
    "ms_states (gathered spec) = [] \<longleftrightarrow> ms_states spec = []"
    by (simp_all add: gathered_def)
  ultimately show ?thesis
    by (auto simp: schema_ok_def listed_once_gathered machine_file_ok_def gathered_names gathered_given)
qed

section \<open>A file that lists a trigger twice\<close>

definition twice_listed_spec :: machine_spec where
  "twice_listed_spec = \<lparr>ms_name = None, ms_triggers = [(''go'', None)],
     ms_states =
       [\<lparr>ss_name = ''idle'', ss_transitions = Some [(''go'', Target ''left''), (''go'', Target ''right'')]\<rparr>,
        \<lparr>ss_name = ''left'', ss_transitions = None\<rparr>, \<lparr>ss_name = ''right'', ss_transitions = None\<rparr>]\<rparr>"

text \<open>Such a file loads, the second entry silently behind the first.\<close>

theorem repeated_trigger_loads:
  "case load_machine_string (document_ops (machine_doc twice_listed_spec)) (Some ''text'') model_clear diagnostics_reset of
    (status, m, d) \<Rightarrow> status = Ok \<and> \<not> schema_ok twice_listed_spec \<and>
      behaviour m (find_state m ''idle'') (find_trigger m ''go'') =
        [([], find_state m ''left''), ([], find_state m ''right'')]"
  by code_simp

end
