(* ===== verification/MachineVerdicts.thy ===== *)
theory MachineVerdicts
  imports RepeatedTriggers
begin

text \<open>
  What is wrong with a machine file: the first thing, in the order the loader meets it, as
  \<open>setup_verdict\<close> says it of a setup file. \<open>judging_step\<close> extends \<open>accepting_step\<close> by the status
  with which a step refuses; declaring a trigger, declaring a state and linking an alternative
  interpret it. The loader answers with the verdict of the file.
\<close>

section \<open>Steps that are judged\<close>

text \<open>The first verdict that is not \<open>Ok\<close>, each element judged after the ones before it.\<close>

fun verdicts :: "('x list \<Rightarrow> 'x \<Rightarrow> status) \<Rightarrow> 'x list \<Rightarrow> 'x list \<Rightarrow> status" where
  "verdicts v seen [] = Ok"
| "verdicts v seen (x # xs) = (if v seen x = Ok then verdicts v (seen @ [x]) xs else v seen x)"

lemma verdicts_Ok_iff: "verdicts v seen xs = Ok \<longleftrightarrow> all_after (\<lambda>seen x. v seen x = Ok) seen xs"
  by (induction xs arbitrary: seen) auto

lemma all_after_cong: "(\<And>seen x. P seen x \<longleftrightarrow> Q seen x) \<Longrightarrow> all_after P seen xs \<longleftrightarrow> all_after Q seen xs"
  by (induction xs arbitrary: seen) auto

locale judging_step =
  fixes step :: "'x \<Rightarrow> 'm \<Rightarrow> status + 'm"
    and log :: "'m \<Rightarrow> 'x list \<Rightarrow> bool"
    and verdict :: "'x list \<Rightarrow> 'x \<Rightarrow> status"
  assumes passes: "log m seen \<Longrightarrow> verdict seen x = Ok \<Longrightarrow> \<exists>m'. step x m = Inr m' \<and> log m' (seen @ [x])"
    and fails: "log m seen \<Longrightarrow> verdict seen x \<noteq> Ok \<Longrightarrow> step x m = Inl (verdict seen x)"

sublocale judging_step \<subseteq> accepting_step step log "\<lambda>seen x. verdict seen x = Ok"
  by unfold_locales (use passes fails in auto)

context judging_step
begin

lemma steps_judged:
  "log m seen \<Longrightarrow> verdicts verdict seen xs \<noteq> Ok \<Longrightarrow> each_step step xs m = Inl (verdicts verdict seen xs)"
proof (induction xs arbitrary: m seen)
  case (Cons x xs)
  show ?case
  proof (cases "verdict seen x = Ok")
    case True
    with passes [OF Cons(2)] obtain m1 where "step x m = Inr m1" "log m1 (seen @ [x])"
      by blast
    with Cons(1) [of m1 "seen @ [x]"] Cons(3) True show ?thesis
      by simp
  next
    case False
    with fails [OF Cons(2)] show ?thesis
      by simp
  qed
qed simp

lemma steps_passed:
  "log m seen \<Longrightarrow> verdicts verdict seen xs = Ok \<Longrightarrow> \<exists>m'. each_step step xs m = Inr m' \<and> log m' (seen @ xs)"
  using steps_accept unfolding verdicts_Ok_iff by blast

end

section \<open>Declaring\<close>

definition trigger_verdict :: "(string \<times> string option) list \<Rightarrow> string \<times> string option \<Rightarrow> status" where
  "trigger_verdict seen t =
     (if fst t = [] then InvalidArgument
      else if kMaxTriggers \<le> length seen then CapacityExceeded
      else if kMaxNameLength < length (fst t) then NameTooLong
      else if kMaxChannelLength < length (channel_of_spec t) then ChannelTooLong
      else if fst t \<in> set (map fst seen) \<or> channel_of_spec t \<in> set (map channel_of_spec seen) then DuplicateName
      else Ok)"

definition state_verdict :: "state_spec list \<Rightarrow> state_spec \<Rightarrow> status" where
  "state_verdict seen s =
     (if ss_name s = [] then InvalidArgument
      else if kMaxStates \<le> length seen then CapacityExceeded
      else if kMaxNameLength < length (ss_name s) then NameTooLong
      else if ss_name s \<in> set (map ss_name seen) then DuplicateName
      else Ok)"

lemma verdict_fits:
  "trigger_verdict seen t = Ok \<longleftrightarrow> trigger_fits seen t"
  "state_verdict seen' s = Ok \<longleftrightarrow> state_fits seen' s"
  by (auto simp: trigger_verdict_def trigger_fits_def state_verdict_def state_fits_def not_le)

lemma trigger_step_fails:
  assumes "declared_triggers m seen" and "trigger_verdict seen t \<noteq> Ok"
  shows "trigger_step t m = Inl (trigger_verdict seen t)"
proof -
  have ok: "model_ok m"
    using assms(1) unlinked_ok by (simp add: declared_triggers_def)
  have sizes: "length (triggers m) = length seen" "length (trigger_index m) = length seen" "length (channel_index m) = length seen"
    using names_known(5) [OF ok] model_okD(1) [OF ok] declared_names(3) [OF assms(1)]
    by (simp_all add: tables_ok_def indexes_def)
  have ch: "(if (case snd t of None \<Rightarrow> [] | Some c \<Rightarrow> c) = [] then fst t else case snd t of None \<Rightarrow> [] | Some c \<Rightarrow> c) = channel_of_spec t"
    by (simp add: channel_of_spec_def split: option.split)
  have known: "fm_find (trigger_index m) (fst t) = None \<longleftrightarrow> fst t \<notin> set (map fst seen)"
    "fm_find (channel_index m) (channel_of_spec t) = None \<longleftrightarrow> channel_of_spec t \<notin> set (map channel_of_spec seen)"
    using names_known(2,3) [OF ok] declared_names(1,2) [OF assms(1)] by simp_all
  show ?thesis
    using assms(2) unfolding trigger_step_def declare_trigger_def ch
    by (auto simp: trigger_verdict_def checked_def fm_full_def text_simps Let_def sizes known not_less split: if_splits)
qed

interpretation trigger_judge: judging_step trigger_step declared_triggers trigger_verdict
  by unfold_locales (simp add: verdict_fits trigger_step_accepts, rule trigger_step_fails)

lemma state_step_fails:
  assumes "declared_states known m seen" and "state_verdict seen s \<noteq> Ok"
  shows "state_step s m = Inl (state_verdict seen s)"
proof -
  have ok: "model_ok m"
    using assms(1) unlinked_ok by (simp add: declared_states_def)
  have sizes: "length (states m) = length seen" "length (state_index m) = length seen"
    using names_known(4) [OF ok] model_okD(1) [OF ok] assms(1)
    by (simp_all add: tables_ok_def indexes_def declared_states_def)
  have "fm_find (state_index m) (ss_name s) = None \<longleftrightarrow> ss_name s \<notin> set (map ss_name seen)"
    using names_known(1) [OF ok] assms(1) by (simp add: declared_states_def)
  with assms(2) show ?thesis
    by (simp add: state_step_def declare_state_def state_verdict_def checked_def fm_full_def text_simps Let_def sizes not_less
        split: if_splits)
qed

interpretation state_judge: judging_step state_step "declared_states known" state_verdict for known
  by unfold_locales (simp add: verdict_fits state_step_accepts, rule state_step_fails)

section \<open>Guards\<close>

definition when_verdict :: "when_spec \<Rightarrow> status" where
  "when_verdict w =
     (case w of NoWhen \<Rightarrow> Ok
      | OneWhen t \<Rightarrow> fst (parse_condition t)
      | ManyWhen ts \<Rightarrow>
          if ts = [] then SchemaError
          else verdicts (\<lambda>seen t. if kMaxConditionsPerGuard \<le> length seen then CapacityExceeded
                                  else fst (parse_condition t)) [] ts)"

interpretation condition_judge: judging_step one_condition "\<lambda>g seen. length g = length seen"
    "\<lambda>seen t. if kMaxConditionsPerGuard \<le> length seen then CapacityExceeded else fst (parse_condition t)"
  by unfold_locales (auto simp: one_condition_def checked_def split: prod.split if_splits)

lemma guard_judged: "guard_of_spec w = (if when_verdict w = Ok then Inr (guard_spec w) else Inl (when_verdict w))"
proof -
  have "guard_of_spec w = Inl (when_verdict w)" if "when_verdict w \<noteq> Ok"
    using that condition_judge.steps_judged [of "[]" "[]"]
    by (cases w) (auto simp: guard_of_spec_def when_verdict_def one_condition_def checked_def kMaxConditionsPerGuard_def
        split: if_splits prod.split)
  moreover have "\<exists>g. guard_of_spec w = Inr g" if "when_verdict w = Ok"
    using that condition_judge.steps_passed [of "[]" "[]"]
    by (cases w) (auto simp: guard_of_spec_def when_verdict_def one_condition_def checked_def kMaxConditionsPerGuard_def
        split: if_splits prod.split)
  ultimately show ?thesis
    by (auto simp: guard_spec_def)
qed

lemma when_verdict_Ok_iff: "when_verdict w = Ok \<longleftrightarrow> when_ok w"
  unfolding when_ok_iff guard_judged [of w] by simp

section \<open>Linking\<close>

text \<open>
  What a file lists, in its order: an alternative, or that a transition has none. The steps and
  their verdicts, after the alternatives that are in.
\<close>

type_synonym item = "string \<times> string \<times> alternative_spec option"

definition links_in :: "item list \<Rightarrow> link list" where
  "links_in items = concat (map (\<lambda>(s, t, alt). case alt of None \<Rightarrow> [] | Some a \<Rightarrow> [(s, t, a)]) items)"

definition item_step :: "item \<Rightarrow> model \<Rightarrow> status + model" where
  "item_step i m =
     (case snd (snd i) of
        None \<Rightarrow> Inl (if find_trigger m (fst (snd i)) = kNoTrigger then UnknownTrigger else SchemaError)
      | Some a \<Rightarrow> link_step (fst i, fst (snd i), a) m)"

definition link_verdict :: "string list \<Rightarrow> string list \<Rightarrow> link list \<Rightarrow> link \<Rightarrow> status" where
  "link_verdict snames tnames seen l =
     (if as_target (snd (snd l)) \<notin> set snames then UnknownState
      else if when_verdict (as_when (snd (snd l))) \<noteq> Ok then when_verdict (as_when (snd (snd l)))
      else if fst l \<notin> set snames then UnknownState
      else if \<not> link_fits snames tnames seen l then CapacityExceeded
      else Ok)"

definition item_verdict :: "string list \<Rightarrow> string list \<Rightarrow> item list \<Rightarrow> item \<Rightarrow> status" where
  "item_verdict snames tnames seen i =
     (if fst (snd i) \<notin> set tnames then UnknownTrigger
      else case snd (snd i) of
             None \<Rightarrow> SchemaError
           | Some a \<Rightarrow> link_verdict snames tnames (links_in seen) (fst i, fst (snd i), a))"

lemma no_room:
  assumes "has_state m from" "fm_find (triggers m) t \<noteq> None" "has_state m target"
    and "\<not> transition_fits m from t target g"
  shows "add_transition from t target g m = (CapacityExceeded, m)"
  using assms by (auto simp: transition_fits_def add_transition_def alternatives_for_def room_for_def fm_full_def
      alternatives_of_def has_state_def kMaxAlternatives_def split: option.splits)

lemma link_step_fails:
  assumes "linked snames tnames m seen" and "fst (snd l) \<in> set tnames" and "link_verdict snames tnames seen l \<noteq> Ok"
  shows "link_step l m = Inl (link_verdict snames tnames seen l)"
proof -
  note facts = linkedD [OF assms(1)]
  let ?a = "snd (snd l)"
  have trigger: "find_trigger m (fst (snd l)) \<noteq> kNoTrigger"
    using facts(3) assms(2) by simp
  then have step: "link_step l m = build_alternative (find_state m (fst l)) (find_trigger m (fst (snd l))) ?a m"
    by (simp add: link_step_def Let_def)
  consider "as_target ?a \<notin> set snames" | "as_target ?a \<in> set snames" "when_verdict (as_when ?a) \<noteq> Ok"
    | "as_target ?a \<in> set snames" "when_verdict (as_when ?a) = Ok" "fst l \<notin> set snames"
    | "as_target ?a \<in> set snames" "when_verdict (as_when ?a) = Ok" "fst l \<in> set snames" "\<not> link_fits snames tnames seen l"
    using assms(3) unfolding link_verdict_def by metis
  then show ?thesis
  proof cases
    case 1
    then have "find_state m (as_target ?a) = kNoState"
      using facts(2) by simp
    with 1 step show ?thesis
      by (simp add: build_alternative_def link_verdict_def Let_def)
  next
    case 2
    then have "find_state m (as_target ?a) \<noteq> kNoState"
      using facts(2) by simp
    with 2 step show ?thesis
      by (simp add: build_alternative_def link_verdict_def guard_judged Let_def)
  next
    case 3
    then have "find_state m (as_target ?a) \<noteq> kNoState" "find_state m (fst l) = kNoState"
      using facts(2) by simp_all
    with 3 step no_such_state [OF model_okD(1) [OF facts(1)]] show ?thesis
      by (simp add: build_alternative_def link_verdict_def guard_judged Let_def add_transition_def checked_def)
  next
    case 4
    then have known: "link_known snames tnames l"
      using assms(2) by (simp add: link_known_def when_verdict_Ok_iff)
    have "find_state m (as_target ?a) \<noteq> kNoState" "find_state m (fst l) \<noteq> kNoState"
      using 4 facts(2) by simp_all
    with trigger have "has_state m (find_state m (fst l))" "has_state m (find_state m (as_target ?a))"
      "fm_find (triggers m) (find_trigger m (fst (snd l))) \<noteq> None"
      using find_state_has [OF facts(1)] find_trigger_has [OF facts(1)] by blast+
    moreover have "\<not> transition_fits m (find_state m (fst l)) (find_trigger m (fst (snd l)))
        (find_state m (as_target ?a)) (guard_spec (as_when ?a))"
      using link_room [OF assms(1) known] 4 by simp
    ultimately show ?thesis
      using no_room link_step_known(1) [OF assms(1) known] 4 by (simp add: link_verdict_def checked_def)
  qed
qed

lemma link_verdict_fits:
  "fst (snd l) \<in> set tnames \<Longrightarrow> link_verdict snames tnames seen l = Ok \<longleftrightarrow> link_fits snames tnames seen l"
  by (auto simp: link_verdict_def link_fits_def link_known_def when_verdict_Ok_iff)

interpretation item_judge: judging_step item_step "\<lambda>m items. linked snames tnames m (links_in items)"
    "item_verdict snames tnames" for snames tnames
proof unfold_locales
  fix m seen i
  assume log: "linked snames tnames m (links_in seen)"
  show "\<exists>m'. item_step i m = Inr m' \<and> linked snames tnames m' (links_in (seen @ [i]))"
    if "item_verdict snames tnames seen i = Ok"
  proof -
    from that obtain a where a: "snd (snd i) = Some a" "fst (snd i) \<in> set tnames"
        "link_verdict snames tnames (links_in seen) (fst i, fst (snd i), a) = Ok"
      by (auto simp: item_verdict_def split: if_splits option.splits)
    then have "link_fits snames tnames (links_in seen) (fst i, fst (snd i), a)"
      using link_verdict_fits [of "(fst i, fst (snd i), a)" tnames] by simp
    from link_step_accepts [OF log this] a(1) show ?thesis
      by (auto simp: item_step_def links_in_def split_beta)
  qed
  show "item_step i m = Inl (item_verdict snames tnames seen i)" if "item_verdict snames tnames seen i \<noteq> Ok"
  proof (cases "snd (snd i)")
    case None
    then show ?thesis
      using linkedD(3) [OF log] by (simp add: item_step_def item_verdict_def)
  next
    case (Some a)
    show ?thesis
    proof (cases "fst (snd i) \<in> set tnames")
      case True
      with Some that link_step_fails [OF log, of "(fst i, fst (snd i), a)"] show ?thesis
        by (simp add: item_step_def item_verdict_def)
    next
      case False
      with Some linkedD(3) [OF log] show ?thesis
        by (simp add: item_step_def item_verdict_def link_step_def)
    qed
  qed
qed

section \<open>The first thing that is wrong\<close>

definition outcome_items :: "string \<Rightarrow> string \<times> outcome_spec \<Rightarrow> item list" where
  "outcome_items s tr =
     (if alternatives_spec (snd tr) = [] then [(s, fst tr, None)]
      else map (\<lambda>a. (s, fst tr, Some a)) (alternatives_spec (snd tr)))"

definition state_items :: "state_spec \<Rightarrow> item list" where
  "state_items s = concat (map (outcome_items (ss_name s)) (transitions_of s))"

definition label_verdict :: "string option \<Rightarrow> status" where
  "label_verdict name = (case name of None \<Rightarrow> Ok | Some n \<Rightarrow> if length n \<le> kMaxNameLength then Ok else NameTooLong)"

definition machine_verdict :: "machine_spec \<Rightarrow> status" where
  "machine_verdict spec = first_error id
     [label_verdict (ms_name spec),
      if ms_triggers spec = [] then SchemaError else Ok,
      verdicts trigger_verdict [] (ms_triggers spec),
      if ms_states spec = [] then SchemaError else Ok,
      verdicts state_verdict [] (ms_states spec),
      verdicts (item_verdict (map ss_name (ms_states spec)) (map fst (ms_triggers spec))) []
        (concat (map state_items (ms_states spec)))]"

text \<open>A transition of the file is its items, an empty one included.\<close>

lemma each_step_map: "each_step step (map f xs) m = each_step (\<lambda>x. step (f x)) xs m"
  by (induction xs arbitrary: m) (simp_all add: attempt_def fun_eq_iff split: sum.split)

lemma transition_is_items:
  assumes "resolving names m"
  shows "build_transition (fst names s) tr m = each_step item_step (outcome_items s tr) m"
proof -
  have "find_trigger m = snd names"
    using assms by (auto simp: resolving_def names_of_def)
  moreover have "(\<lambda>a. item_step (s, fst tr, Some a)) = (\<lambda>a. link_step (s, fst tr, a))"
    by (simp add: item_step_def fun_eq_iff)
  ultimately show ?thesis
    unfolding transition_is_links [OF assms]
    by (simp add: outcome_items_def outcome_links_def each_step_map item_step_def)
qed

lemma states_are_items:
  assumes "resolving names m"
  shows "each_step build_state ss m = each_step item_step (concat (map state_items ss)) m"
proof (rule each_step_concat [where I = "resolving names", OF _ _ assms])
  show "build_state s m = each_step item_step (state_items s) m" if "resolving names m" for s m
  proof -
    have "build_state s m = each_step (build_transition (fst names (ss_name s))) (transitions_of s) m"
      using that by (auto simp: build_state_def transitions_of_def resolving_def names_of_def split: option.split)
    also have "\<dots> = each_step item_step (state_items s) m"
      unfolding state_items_def
      by (rule each_step_concat [where I = "resolving names", OF transition_is_items resolving_steps(2) that])
    finally show ?thesis .
  qed
qed (rule resolving_steps(3))

lemma label_judged:
  "label_verdict (ms_name spec) = Ok \<Longrightarrow> \<exists>m. label_step (ms_name spec) = Inr m \<and> declared_triggers m []"
  "label_verdict name \<noteq> Ok \<Longrightarrow> label_step name = Inl (label_verdict name)"
  using label_step_declares(1) [of spec]
  by (auto simp: label_verdict_def label_step_def checked_def model_set_name_def text_simps split: option.splits if_splits)

text \<open>The sequence of operations answers with that verdict.\<close>

lemma build_machine_judged:
  "if machine_verdict spec = Ok then \<exists>m. build_machine spec = Inr m else build_machine spec = Inl (machine_verdict spec)"
proof (cases "label_verdict (ms_name spec) = Ok \<and> ms_triggers spec \<noteq> []")
  case True
  then obtain m0 where m0: "label_step (ms_name spec) = Inr m0" "declared_triggers m0 []"
    using label_judged(1) by blast
  show ?thesis
  proof (cases "verdicts trigger_verdict [] (ms_triggers spec) = Ok \<and> ms_states spec \<noteq> []")
    case ts: True
    then obtain m1 where m1: "each_step trigger_step (ms_triggers spec) m0 = Inr m1" "declared_triggers m1 (ms_triggers spec)"
      using trigger_judge.steps_passed [OF m0(2), of "ms_triggers spec"] by auto
    then have d1: "declared_states (map (\<lambda>t. (fst t, channel_of_spec t)) (ms_triggers spec)) m1 []"
      using declared_start(1) [OF m1(2)] by (simp add: declared_triggers_def)
    show ?thesis
    proof (cases "verdicts state_verdict [] (ms_states spec) = Ok")
      case ss: True
      then obtain m2 where m2: "each_step state_step (ms_states spec) m1 = Inr m2"
          "declared_states (map (\<lambda>t. (fst t, channel_of_spec t)) (ms_triggers spec)) m2 (ms_states spec)"
        using state_judge.steps_passed [OF d1, of "ms_states spec"] by auto
      let ?items = "concat (map state_items (ms_states spec))"
      let ?verdict = "item_verdict (map ss_name (ms_states spec)) (map fst (ms_triggers spec))"
      have start: "linked (map ss_name (ms_states spec)) (map fst (ms_triggers spec)) m2 (links_in [])"
        using declared_start(2) [OF m2(2)] by (simp add: comp_def links_in_def)
      have items: "each_step build_state (ms_states spec) m2 = each_step item_step ?items m2"
        using m2(2) by (intro states_are_items [of "names_of m2"]) (simp add: declared_states_def unlinked_def resolving_def)
      have valid: "validate m = Ok" if "linked (map ss_name (ms_states spec)) tnames m links" for tnames m links
        using that ts by (intro loadable_validate) (auto simp: linked_def state_names_def)
      show ?thesis
        using item_judge.steps_judged [OF start, of ?items] item_judge.steps_passed [OF start, of ?items] items valid
          True ts ss m0 m1 m2
        by (auto simp: machine_verdict_def build_machine_steps)
    next
      case False
      with state_judge.steps_judged [OF d1 False] True ts m0 m1 show ?thesis
        by (simp add: machine_verdict_def build_machine_steps)
    qed
  next
    case False
    then consider "verdicts trigger_verdict [] (ms_triggers spec) \<noteq> Ok"
      | "verdicts trigger_verdict [] (ms_triggers spec) = Ok" "ms_states spec = []"
      by blast
    then show ?thesis
    proof cases
      case 1
      with trigger_judge.steps_judged [OF m0(2) 1] True m0 show ?thesis
        by (simp add: machine_verdict_def build_machine_steps)
    next
      case 2
      with trigger_judge.steps_passed [OF m0(2), of "ms_triggers spec"] True m0 show ?thesis
        by (auto simp: machine_verdict_def build_machine_steps)
    qed
  qed
next
  case False
  with label_judged(2) [of "ms_name spec"] label_judged(1) [of spec] show ?thesis
    by (cases "label_verdict (ms_name spec) = Ok") (auto simp: machine_verdict_def build_machine_steps)
qed

lemma machine_verdict_Ok_iff: "machine_verdict spec = Ok \<longleftrightarrow> machine_file_ok spec"
  using build_machine_judged [of spec] built_tables(1) [of spec] build_machine_ok [of spec]
  by (metis sum.distinct(1))

section \<open>What the machine loader answers\<close>

text \<open>C4: a document that cannot be read as a machine file is refused. On any other one, however
  its keys are ordered and its transitions spelled, the loader answers with the first thing that is wrong
  with the file: its label, then its triggers one by one, each by its name, the room left, the
  length of name and channel and whether they are new, then its states, and only then the
  transitions of all states in order, each by its trigger, its target, its guard and the room
  left. Nothing is wrong exactly if the file with the entries of each trigger of a state gathered
  into one list follows the schema: that a state lists a trigger only once is not enforced, as
  \<open>repeated_trigger_loads\<close> shows. If nothing is wrong the loader answers \<open>Ok\<close> with a valid model,
  and otherwise it leaves an empty model and reports the same status in its diagnostics.\<close>

theorem machine_file_exact:
  assumes "reads ops root doc" and "yn_load_text ops (cstr yaml) = Inr root"
  shows "case load_machine_string ops (Some yaml) m0 d0 of (status, m, d) \<Rightarrow>
    (case machine_of doc of None \<Rightarrow> status \<noteq> Ok
     | Some spec \<Rightarrow> status = machine_verdict spec \<and> (status = Ok \<longleftrightarrow> machine_file_ok spec) \<and>
         (status = Ok \<longleftrightarrow> schema_ok (gathered spec))) \<and>
    (if status = Ok then loaded m \<and> d = diagnostics_reset
     else m = model_clear \<and> diag_status d = status)"
proof -
  have "all_or_nothing loaded model_clear (guarded model_clear (parse_machine ops) (Inr root))"
    by (rule guarded_machine_all)
  then have all: "all_or_nothing loaded model_clear (load_machine_string ops (Some yaml) m0 d0)"
    using assms(2) by (simp add: load_machine_string_def)
  show ?thesis
  proof (cases "machine_of doc")
    case None
    obtain e d where "guarded model_clear (parse_machine ops) (Inr root) = (e, model_clear, d)" "e \<noteq> Ok" "diag_status d = e"
      by (rule guarded_machine_refused [OF assms(1) None])
    with assms(2) None show ?thesis
      by (simp add: load_machine_string_def)
  next
    case (Some spec)
    from guarded_machine_decoded [OF assms(1) Some] build_machine_judged [of spec] machine_verdict_Ok_iff [of spec] gathered_ok [of spec] assms(2) all
    show ?thesis
      by (cases "build_machine spec") (auto simp: Some load_machine_string_def all_or_nothing_def split: if_splits)
  qed
qed

text \<open>
  Two things are wrong with this file, a guard in the first state and a name in the last one:
  names come first.
\<close>

definition twice_wrong_spec :: machine_spec where
  "twice_wrong_spec = \<lparr>ms_name = None, ms_triggers = [(''go'', None)],
     ms_states =
       [\<lparr>ss_name = ''idle'', ss_transitions = Some [(''go'', OneAlternative \<lparr>as_when = OneWhen ''pedal >'', as_target = ''idle''\<rparr>)]\<rparr>,
        \<lparr>ss_name = ''idle'', ss_transitions = None\<rparr>]\<rparr>"

theorem machine_file_exact_witness:
  "(case load_machine_string (document_ops (machine_doc twice_wrong_spec)) (Some ''text'') model_clear diagnostics_reset of
      (status, m, d) \<Rightarrow> status = DuplicateName \<and> m = model_clear \<and> diag_status d = DuplicateName) \<and>
   fst (load_machine_string file_library (Some ''text'') model_clear diagnostics_reset) = Ok \<and>
   schema_ok (gathered file_spec)"
proof (intro conjI)
  have "yn_load_text (document_ops (machine_doc twice_wrong_spec)) (cstr ''text'') = Inr (Some (machine_doc twice_wrong_spec))"
    by (simp add: document_ops_def)
  moreover have "machine_verdict twice_wrong_spec = DuplicateName"
    by code_simp
  ultimately show "case load_machine_string (document_ops (machine_doc twice_wrong_spec)) (Some ''text'') model_clear diagnostics_reset of
      (status, m, d) \<Rightarrow> status = DuplicateName \<and> m = model_clear \<and> diag_status d = DuplicateName"
    using machine_file_exact [OF document_ops_reads, of "machine_doc twice_wrong_spec" "''text''" "machine_doc twice_wrong_spec" model_clear diagnostics_reset]
    by (simp add: split_beta machine_of_doc)
  show "fst (load_machine_string file_library (Some ''text'') model_clear diagnostics_reset) = Ok"
    using machine_file_exact [OF file_library_reads file_library_loads [of "cstr ''text''"], of model_clear diagnostics_reset] file_spec_ok
    by (simp add: split_beta machine_of_doc machine_verdict_Ok_iff)
  show "schema_ok (gathered file_spec)"
    by (simp add: gathered_ok [symmetric] file_spec_ok)
qed

end
