(* ===== verification/AllocGuard.thy ===== *)
theory AllocGuard
  imports FmsPrelude
begin

text \<open>
  include/fms/alloc_guard.hpp and src/alloc_guard.cpp: the replacement of global operator new
  and delete that traps heap use after the setup phase. The four variables of the file are a
  record, \<open>malloc\<close> is an argument, and an aborted process is the value \<open>None\<close>. A program
  is the sequence of calls it makes.
\<close>

section \<open>The guard\<close>

type_synonym u64 = "64 word"

record alloc_guard =
  g_armed :: bool
  g_fatal :: bool
  g_violations :: u64
  g_total :: u64

definition fresh_guard :: alloc_guard where
  "fresh_guard = \<lparr>g_armed = False, g_fatal = True, g_violations = 0, g_total = 0\<rparr>"

definition guard_arm :: "bool \<Rightarrow> alloc_guard \<Rightarrow> alloc_guard" where
  "guard_arm fatal g = g\<lparr>g_fatal := fatal, g_armed := True\<rparr>"

definition guard_disarm :: "alloc_guard \<Rightarrow> alloc_guard" where
  "guard_disarm g = g\<lparr>g_armed := False\<rparr>"

definition guard_reset_counters :: "alloc_guard \<Rightarrow> alloc_guard" where
  "guard_reset_counters g = g\<lparr>g_violations := 0, g_total := 0\<rparr>"

text \<open>The pointer returned and the guard afterwards.\<close>

definition guard_allocate :: "(u64 \<Rightarrow> 'p) \<Rightarrow> u64 \<Rightarrow> alloc_guard \<Rightarrow> ('p \<times> alloc_guard) option" where
  "guard_allocate malloc bytes g =
     (let g = g\<lparr>g_total := g_total g + 1\<rparr>;
          g = (if g_armed g then g\<lparr>g_violations := g_violations g + 1\<rparr> else g)
      in if g_armed g \<and> g_fatal g then None
         else
           let bytes = (if bytes = 0 then 1 else bytes)
           in Some (malloc bytes, g))"

definition guard_release :: "alloc_guard \<Rightarrow> alloc_guard" where
  "guard_release g = g"

text \<open>The replaced operators, all forms of which are the same.\<close>

definition operator_new :: "(u64 \<Rightarrow> 'p) \<Rightarrow> u64 \<Rightarrow> alloc_guard \<Rightarrow> ('p \<times> alloc_guard) option" where
  [simp]: "operator_new malloc bytes g = guard_allocate malloc bytes g"

definition operator_delete :: "alloc_guard \<Rightarrow> alloc_guard" where
  [simp]: "operator_delete g = guard_release g"

section \<open>Programs\<close>

text \<open>The calls a program makes of the guard; a \<open>Scope\<close> is an \<open>Arm\<close> and a \<open>Disarm\<close>.\<close>

datatype guard_call = Arm bool | Disarm | ResetCounters | New u64 | Delete

fun run_calls :: "(u64 \<Rightarrow> 'p) \<Rightarrow> guard_call list \<Rightarrow> alloc_guard \<Rightarrow> alloc_guard option" where
  "run_calls malloc [] g = Some g"
| "run_calls malloc (call # calls) g =
     (case call of
        Arm fatal \<Rightarrow> run_calls malloc calls (guard_arm fatal g)
      | Disarm \<Rightarrow> run_calls malloc calls (guard_disarm g)
      | ResetCounters \<Rightarrow> run_calls malloc calls (guard_reset_counters g)
      | New bytes \<Rightarrow>
          (case operator_new malloc bytes g of
             None \<Rightarrow> None
           | Some (p, g) \<Rightarrow> run_calls malloc calls g)
      | Delete \<Rightarrow> run_calls malloc calls (operator_delete g))"

section \<open>What a trace of calls says\<close>

fun is_new :: "guard_call \<Rightarrow> bool" where
  "is_new (New bytes) = True"
| "is_new _ = False"

text \<open>Whether the guard is armed, and fatally, is up to the last call that set it.\<close>

definition armed_after :: "guard_call list \<Rightarrow> bool" where
  "armed_after calls \<longleftrightarrow>
     (\<exists>fatal. first_match (\<lambda>c. c = Disarm \<or> (\<exists>f. c = Arm f)) (rev calls) = Some (Arm fatal))"

definition fatal_after :: "guard_call list \<Rightarrow> bool" where
  "fatal_after calls \<longleftrightarrow> first_match (\<lambda>c. \<exists>f. c = Arm f) (rev calls) \<noteq> Some (Arm False)"

definition since_reset :: "guard_call list \<Rightarrow> guard_call list" where
  "since_reset calls = rev (takeWhile (\<lambda>c. c \<noteq> ResetCounters) (rev calls))"

text \<open>The allocations made while armed, counted from the last reset of the counters.\<close>

fun news_while_armed :: "guard_call list \<Rightarrow> nat" where
  "news_while_armed [] = 0"
| "news_while_armed (c # earlier) =
     (if c = ResetCounters then 0
      else news_while_armed earlier + (if is_new c \<and> armed_after (rev earlier) then 1 else 0))"

definition news_since_reset :: "guard_call list \<Rightarrow> nat" where
  "news_since_reset calls = length (filter is_new (since_reset calls))"

lemma after_snoc [simp]:
  "armed_after (calls @ [c]) = (case c of Arm f \<Rightarrow> True | Disarm \<Rightarrow> False | _ \<Rightarrow> armed_after calls)"
  "fatal_after (calls @ [c]) = (case c of Arm f \<Rightarrow> f | _ \<Rightarrow> fatal_after calls)"
  "news_since_reset (calls @ [c]) =
     (if c = ResetCounters then 0 else news_since_reset calls + (if is_new c then 1 else 0))"
  by (auto simp: armed_after_def fatal_after_def news_since_reset_def since_reset_def split: guard_call.split)

text \<open>What the guard holds after a trace.\<close>

definition tracks :: "guard_call list \<Rightarrow> alloc_guard \<Rightarrow> bool" where
  "tracks calls g \<longleftrightarrow> g_armed g = armed_after calls \<and> g_fatal g = fatal_after calls \<and>
     g_total g = word_of_nat (news_since_reset calls) \<and>
     g_violations g = word_of_nat (news_while_armed (rev calls))"

text \<open>An allocation that kills the process.\<close>

definition deadly :: "guard_call list \<Rightarrow> bool" where
  "deadly calls \<longleftrightarrow> (\<exists>before bytes after. calls = before @ New bytes # after \<and> armed_after before \<and> fatal_after before)"

lemma deadly_snoc:
  "deadly (calls @ [c]) \<longleftrightarrow> deadly calls \<or> is_new c \<and> armed_after calls \<and> fatal_after calls"
proof
  assume "deadly (calls @ [c])"
  then obtain before bytes after where d: "calls @ [c] = before @ New bytes # after"
    "armed_after before" "fatal_after before"
    by (auto simp: deadly_def)
  show "deadly calls \<or> is_new c \<and> armed_after calls \<and> fatal_after calls"
  proof (cases after rule: rev_cases)
    case Nil
    with d show ?thesis by auto
  next
    case (snoc after' c')
    with d show ?thesis unfolding deadly_def by auto
  qed
next
  assume "deadly calls \<or> is_new c \<and> armed_after calls \<and> fatal_after calls"
  then show "deadly (calls @ [c])"
  proof
    assume "deadly calls"
    then obtain before bytes after where "calls = before @ New bytes # after" "armed_after before" "fatal_after before"
      by (auto simp: deadly_def)
    then show ?thesis
      unfolding deadly_def by (intro exI [of _ before] exI [of _ bytes] exI [of _ "after @ [c]"]) simp
  next
    assume "is_new c \<and> armed_after calls \<and> fatal_after calls"
    then show ?thesis
      unfolding deadly_def by (cases c) auto
  qed
qed

lemma run_calls_append:
  "run_calls malloc (xs @ ys) g = Option.bind (run_calls malloc xs g) (run_calls malloc ys)"
  by (induction xs arbitrary: g) (auto split: guard_call.split option.split)

lemma run_calls_tracks:
  "if deadly calls then run_calls malloc calls fresh_guard = None
   else \<exists>g. run_calls malloc calls fresh_guard = Some g \<and> tracks calls g"
proof (induction calls rule: rev_induct)
  case Nil
  show ?case
    by (simp add: deadly_def tracks_def fresh_guard_def armed_after_def fatal_after_def
        news_since_reset_def since_reset_def)
next
  case (snoc c calls)
  show ?case
  proof (cases "deadly calls")
    case True
    with snoc show ?thesis by (simp add: deadly_snoc run_calls_append)
  next
    case False
    with snoc obtain g where "run_calls malloc calls fresh_guard = Some g" "tracks calls g" by auto
    with False show ?thesis
      by (cases c) (auto simp: deadly_snoc run_calls_append tracks_def guard_arm_def guard_disarm_def
          guard_reset_counters_def guard_release_def guard_allocate_def Let_def)
  qed
qed

section \<open>What the guard proves\<close>

text \<open>C29: a program under the guard dies exactly if it allocates while the guard is armed
  fatally; one that lives leaves counters that say how many allocations it made, and how many
  of them while armed, since the counters were last reset (modulo the width of the counters).\<close>

theorem alloc_guard_exact:
  "(run_calls malloc calls fresh_guard = None \<longleftrightarrow> deadly calls) \<and>
   (case run_calls malloc calls fresh_guard of
      None \<Rightarrow> True
    | Some g \<Rightarrow> g_total g = word_of_nat (news_since_reset calls) \<and>
        g_violations g = word_of_nat (news_while_armed (rev calls)))"
  using run_calls_tracks [of calls malloc] by (auto simp: tracks_def split: if_splits)

end
