(* ===== verification/ErrorHandler.thy ===== *)
theory ErrorHandler
  imports InspectText
begin

text \<open>
  The rest of src/status.cpp: the callback for errors the Embedded Template Library detects in
  its containers, and its installation. The library is two parameters, how a callback is set and
  what reporting an error comes to; \<open>delivers\<close> is the predicate that the callback set last takes
  every report. A process is the sequence of the
  installations it makes (every \<open>StateMachine::init\<close> and every loader makes one) and of the
  errors the library reports.
\<close>

section \<open>The callback and its installation\<close>

text \<open>An \<open>etl::exception\<close>, by what its accessors return.\<close>

record etl_exception =
  what :: string
  file_name :: string
  line_number :: int

text \<open>What a report comes to: the process goes on, or it is aborted, with what it wrote to the standard error.\<close>

datatype reaction = Continues | Aborted string

definition error_line :: "etl_exception \<Rightarrow> string" where
  "error_line error =
     ''[fms] ETL error: '' @ cstr (what error) @ '' at '' @ cstr (file_name error) @ '':'' @
       int_to_text (sint (word_of_int (line_number error) :: 32 word)) @ [newline]"

definition etl_error_callback :: "etl_exception \<Rightarrow> reaction" where
  "etl_error_callback error = Aborted (error_line error)"

text \<open>The library with the callback that is set, and the flag of the file.\<close>

record 'e error_state =
  etl_state :: 'e
  g_handler_installed :: bool

definition install_etl_error_handler ::
  "((etl_exception \<Rightarrow> reaction) \<Rightarrow> 'e \<Rightarrow> 'e) \<Rightarrow> 'e error_state \<Rightarrow> 'e error_state" where
  "install_etl_error_handler set_callback s =
     (if g_handler_installed s then s
      else let s = s\<lparr>etl_state := set_callback etl_error_callback (etl_state s)\<rparr>
           in s\<lparr>g_handler_installed := True\<rparr>)"

section \<open>Processes\<close>

datatype error_event = Installs | Reports etl_exception

fun run_errors ::
  "((etl_exception \<Rightarrow> reaction) \<Rightarrow> 'e \<Rightarrow> 'e) \<Rightarrow> ('e \<Rightarrow> etl_exception \<Rightarrow> reaction) \<Rightarrow>
     error_event list \<Rightarrow> 'e error_state \<Rightarrow> string + 'e error_state" where
  "run_errors set_callback report [] s = Inr s"
| "run_errors set_callback report (Installs # events) s =
     run_errors set_callback report events (install_etl_error_handler set_callback s)"
| "run_errors set_callback report (Reports error # events) s =
     (case report (etl_state s) error of
        Aborted line \<Rightarrow> Inl line
      | Continues \<Rightarrow> run_errors set_callback report events s)"

text \<open>
  What the library documents: the callback set last takes every report, and before one is set a
  report has no effect.
\<close>

definition delivers ::
  "((etl_exception \<Rightarrow> reaction) \<Rightarrow> 'e \<Rightarrow> 'e) \<Rightarrow> ('e \<Rightarrow> etl_exception \<Rightarrow> reaction) \<Rightarrow> 'e \<Rightarrow> bool" where
  "delivers set_callback report nothing_set \<longleftrightarrow>
     (\<forall>callback e error. report (set_callback callback e) error = callback error) \<and>
     (\<forall>error. report nothing_set error = Continues)"

definition fresh_errors :: "'e \<Rightarrow> 'e error_state" where
  "fresh_errors nothing_set = \<lparr>etl_state = nothing_set, g_handler_installed = False\<rparr>"

text \<open>Once the handler is in, the first report ends the process.\<close>

definition first_report :: "error_event list \<Rightarrow> etl_exception option" where
  "first_report events =
     (case first_match (\<lambda>e. e \<noteq> Installs) events of Some (Reports error) \<Rightarrow> Some error | _ \<Rightarrow> None)"

lemma first_report_simps [simp]:
  "first_report [] = None"
  "first_report (Installs # events) = first_report events"
  "first_report (Reports error # events) = Some error"
  by (simp_all add: first_report_def)

lemma run_installed:
  assumes "\<And>error. report (etl_state s) error = etl_error_callback error" and "g_handler_installed s"
  shows "run_errors set_callback report events s =
    (case first_report events of Some error \<Rightarrow> Inl (error_line error) | None \<Rightarrow> Inr s)"
  using assms
proof (induction events)
  case (Cons e events)
  then show ?case
    by (cases e) (simp_all add: install_etl_error_handler_def etl_error_callback_def)
qed simp

section \<open>What the handler promises\<close>

text \<open>C38: whatever the number of installations, the library's callback is set once, by the first
  of them; an error reported after it ends the process with one line on the standard error that
  names it, its file and its line, and the first such report is the one that counts; a process
  with no report after its first installation is never ended by one.\<close>

theorem first_overrun_aborts:
  assumes "delivers set_callback report nothing_set"
  shows "run_errors set_callback report events (fresh_errors nothing_set) =
    (case first_report (dropWhile (\<lambda>e. e \<noteq> Installs) events) of
       Some error \<Rightarrow> Inl (error_line error)
     | None \<Rightarrow> Inr (if Installs \<in> set events
                    then \<lparr>etl_state = set_callback etl_error_callback nothing_set, g_handler_installed = True\<rparr>
                    else fresh_errors nothing_set))"
proof (induction events)
  case (Cons e events)
  show ?case
  proof (cases e)
    case Installs
    have "report (set_callback etl_error_callback nothing_set) error = etl_error_callback error" for error
      using assms by (simp add: delivers_def)
    with Installs run_installed [of report "\<lparr>etl_state = set_callback etl_error_callback nothing_set, g_handler_installed = True\<rparr>"]
    show ?thesis
      by (simp add: install_etl_error_handler_def fresh_errors_def split: option.split)
  next
    case (Reports error)
    with Cons assms show ?thesis
      by (simp add: delivers_def fresh_errors_def)
  qed
qed simp

text \<open>A library whose state is the callback.\<close>

definition set_cell :: "(etl_exception \<Rightarrow> reaction) \<Rightarrow> (etl_exception \<Rightarrow> reaction) option \<Rightarrow> (etl_exception \<Rightarrow> reaction) option" where
  "set_cell callback cell = Some callback"

definition report_cell :: "(etl_exception \<Rightarrow> reaction) option \<Rightarrow> etl_exception \<Rightarrow> reaction" where
  "report_cell cell error = (case cell of None \<Rightarrow> Continues | Some callback \<Rightarrow> callback error)"

theorem first_overrun_aborts_witness:
  "run_errors set_cell report_cell
     [Installs, Installs, Reports \<lparr>what = ''vector:full'', file_name = ''vector.h'', line_number = 42\<rparr>, Installs]
     (fresh_errors None) = Inl (''[fms] ETL error: vector:full at vector.h:42'' @ [newline])"
proof -
  have "delivers set_cell report_cell None"
    by (simp add: delivers_def set_cell_def report_cell_def)
  moreover have "error_line \<lparr>what = ''vector:full'', file_name = ''vector.h'', line_number = 42\<rparr> =
      ''[fms] ETL error: vector:full at vector.h:42'' @ [newline]"
    by code_simp
  ultimately show ?thesis
    by (subst first_overrun_aborts) simp_all
qed

end
